(* ===== verification/Fsr_Prelude.thy ===== *)
theory Fsr_Prelude
  imports Main "HOL-Library.AList" "HOL-Library.Char_ord" "HOL-Library.List_Lexorder"
    "HOL-Library.Multiset" "HOL-Library.Sublist" "HOL-Library.Word"
begin

text \<open>
  Shared vocabulary of the fsrecon development: the Go error values and their wrapping,
  Go maps as association lists (the order of the list is the iteration order, which Go leaves
  open, so a statement over all lists is a statement over all iteration orders), contexts as
  answers to polls, Go's \<open>for range\<close> loops with an early return, and the generic list
  facts that the component theories use.
\<close>

named_theorems gomap_simps \<open>lookup, update and deletion on Go maps\<close>
named_theorems path_simps \<open>canonical absolute paths and their components\<close>
named_theorems path_intros \<open>well-formedness of canonical paths and parts\<close>

section \<open>Errors\<close>

text \<open>
  Sentinel errors of \<open>errors.go\<close>, \<open>internal/scanner\<close>, \<open>internal/backend\<close> and of the
  standard library that the code tests for, plain \<open>errors.New\<close> values, and
  \<open>fmt.Errorf\<close> with one \<open>%w\<close>: a text before and a text after the wrapped error.
\<close>

datatype GoError =
    ErrAlreadyStarted
  | ErrClosed
  | ErrSymlink
  | ErrHardlink
  | ErrBackendStopped
  | ErrNoIntegrity
  | ErrAtomicStoreRequired
  | ErrObserverFollowSymlinksUnsupported
  | ScannerErrSymlink
  | ErrOverflow
  | ErrNotExist
  | ContextCanceled
  | ErrMsg string
  | ErrWrap string GoError string

primrec errors_Is :: "GoError \<Rightarrow> GoError \<Rightarrow> bool" where
  "errors_Is ErrAlreadyStarted t = (t = ErrAlreadyStarted)"
| "errors_Is ErrClosed t = (t = ErrClosed)"
| "errors_Is ErrSymlink t = (t = ErrSymlink)"
| "errors_Is ErrHardlink t = (t = ErrHardlink)"
| "errors_Is ErrBackendStopped t = (t = ErrBackendStopped)"
| "errors_Is ErrNoIntegrity t = (t = ErrNoIntegrity)"
| "errors_Is ErrAtomicStoreRequired t = (t = ErrAtomicStoreRequired)"
| "errors_Is ErrObserverFollowSymlinksUnsupported t = (t = ErrObserverFollowSymlinksUnsupported)"
| "errors_Is ScannerErrSymlink t = (t = ScannerErrSymlink)"
| "errors_Is ErrOverflow t = (t = ErrOverflow)"
| "errors_Is ErrNotExist t = (t = ErrNotExist)"
| "errors_Is ContextCanceled t = (t = ContextCanceled)"
| "errors_Is (ErrMsg s) t = (t = ErrMsg s)"
| "errors_Is (ErrWrap a e b) t = (t = ErrWrap a e b \<or> errors_Is e t)"

primrec error_text :: "GoError \<Rightarrow> string" where
  "error_text ErrAlreadyStarted = ''fsrecon: tracker already started''"
| "error_text ErrClosed = ''fsrecon: tracker is closed''"
| "error_text ErrSymlink = ''fsrecon: symlink rejected by policy''"
| "error_text ErrHardlink = ''fsrecon: hardlink rejected by policy''"
| "error_text ErrBackendStopped = ''fsrecon: native watch backend stopped''"
| "error_text ErrNoIntegrity = ''fsrecon: no integrity checker configured''"
| "error_text ErrAtomicStoreRequired = ''fsrecon: ChangeSink requires a BatchSnapshotStore''"
| "error_text ErrObserverFollowSymlinksUnsupported =
     ''fsrecon: observer FollowSymlinks is unsupported''"
| "error_text ScannerErrSymlink = ''symlink rejected by policy''"
| "error_text ErrOverflow = ''filesystem event queue overflow''"
| "error_text ErrNotExist = ''file does not exist''"
| "error_text ContextCanceled = ''context canceled''"
| "error_text (ErrMsg s) = s"
| "error_text (ErrWrap a e b) = a @ error_text e @ b"

text \<open>\<open>%d\<close> and \<open>%x\<close> of an unsigned value.\<close>

definition digit_char :: "nat \<Rightarrow> char" where
  "digit_char d = char_of (if d < 10 then 48 + d else 87 + d)"

fun fmt_nat :: "nat \<Rightarrow> nat \<Rightarrow> string" where
  "fmt_nat base n =
     (if base \<le> 1 \<or> n < base then [digit_char n]
      else fmt_nat base (n div base) @ [digit_char (n mod base)])"

declare fmt_nat.simps [simp del]

abbreviation fmt_d :: "'w::len word \<Rightarrow> string" where
  "fmt_d w \<equiv> fmt_nat 10 (unat w)"

abbreviation fmt_x :: "'w::len word \<Rightarrow> string" where
  "fmt_x w \<equiv> fmt_nat 16 (unat w)"

text \<open>
  \<open>%q\<close> (\<open>strconv.Quote\<close>). Bytes above 127 are left as they are, which is what Go does for
  the bytes of printable characters.
\<close>

definition quote_char :: "char \<Rightarrow> string" where
  "quote_char c =
     (let n = of_char c :: nat; b = CHR 0x5C in
      if n = 34 \<or> n = 92 then [b, c]
      else if n = 7 then [b, CHR ''a''] else if n = 8 then [b, CHR ''b'']
      else if n = 12 then [b, CHR ''f''] else if n = 10 then [b, CHR ''n'']
      else if n = 13 then [b, CHR ''r''] else if n = 9 then [b, CHR ''t'']
      else if n = 11 then [b, CHR ''v'']
      else if n < 32 \<or> n = 127 then [b, CHR ''x'', digit_char (n div 16), digit_char (n mod 16)]
      else [c])"

definition quote :: "string \<Rightarrow> string" where
  "quote s = [CHR 0x22] @ concat (map quote_char s) @ [CHR 0x22]"

text \<open>
  \<open>strings.TrimSpace(s) == ""\<close>: the bytes of \<open>s\<close> are the UTF-8 encodings of white-space
  characters.
\<close>

definition ascii_space :: "nat \<Rightarrow> bool" where
  "ascii_space a = (a = 32 \<or> 9 \<le> a \<and> a \<le> 13)"

definition two_byte_space :: "nat \<Rightarrow> nat \<Rightarrow> bool" where
  "two_byte_space a b = (a = 0xC2 \<and> (b = 0x85 \<or> b = 0xA0))"

definition three_byte_space :: "nat \<Rightarrow> nat \<Rightarrow> nat \<Rightarrow> bool" where
  "three_byte_space a b c =
     (a = 0xE1 \<and> b = 0x9A \<and> c = 0x80 \<or>
      a = 0xE2 \<and> b = 0x80 \<and> (0x80 \<le> c \<and> c \<le> 0x8A \<or> c = 0xA8 \<or> c = 0xA9 \<or> c = 0xAF) \<or>
      a = 0xE2 \<and> b = 0x81 \<and> c = 0x9F \<or> a = 0xE3 \<and> b = 0x80 \<and> c = 0x80)"

fun all_spaces :: "nat list \<Rightarrow> bool" where
  "all_spaces [] = True"
| "all_spaces [a] = ascii_space a"
| "all_spaces [a, b] = (ascii_space a \<and> ascii_space b \<or> two_byte_space a b)"
| "all_spaces (a # b # c # r) =
     (if ascii_space a then all_spaces (b # c # r)
      else if two_byte_space a b then all_spaces (c # r)
      else three_byte_space a b c \<and> all_spaces r)"

definition blank :: "string \<Rightarrow> bool" where
  "blank s = all_spaces (map of_char s)"

section \<open>Contexts\<close>

text \<open>
  A \<open>context.Context\<close> is polled with \<open>ctx.Err()\<close>. The answers of one call are a function
  of the point of the poll: on entry, at a directory, at an entry of a directory, or at the
  i-th iteration of a loop. Nothing relates the answers, so every cancellation is covered.
\<close>

datatype poll = PollEnter | PollDir string | PollEntry string | PollIter nat

type_synonym Ctx = "poll \<Rightarrow> GoError option"

definition background :: Ctx where
  "background = (\<lambda>_. None)"

lemma background_None [simp]: "background q = None"
  by (simp add: background_def)

section \<open>Loops with an early return\<close>

text \<open>
  \<open>for _, x := range xs { if err := body(x); err != nil { return err } }\<close>: the body mutates
  the captured state and may fail; the state stays as the failing iteration left it.
\<close>

fun for_each :: "('a \<Rightarrow> 's \<Rightarrow> GoError option \<times> 's) \<Rightarrow> 'a list \<Rightarrow> 's \<Rightarrow> GoError option \<times> 's" where
  "for_each body [] s = (None, s)"
| "for_each body (x # xs) s =
     (case body x s of
        (Some e, s') \<Rightarrow> (Some e, s')
      | (None, s') \<Rightarrow> for_each body xs s')"

lemma for_each_append:
  "for_each body (xs @ ys) s =
     (case for_each body xs s of
        (Some e, s') \<Rightarrow> (Some e, s')
      | (None, s') \<Rightarrow> for_each body ys s')"
  by (induction xs arbitrary: s) (auto split: prod.splits option.splits)

lemma for_each_total:
  assumes "\<And>x s. x \<in> set xs \<Longrightarrow> body x s = (None, step x s)"
  shows "for_each body xs s = (None, fold step xs s)"
  using assms by (induction xs arbitrary: s) auto

lemma for_each_invariant:
  assumes "P s" and "\<And>x s. x \<in> set xs \<Longrightarrow> P s \<Longrightarrow> P (snd (body x s))"
  shows "P (snd (for_each body xs s))"
  using assms
proof (induction xs arbitrary: s)
  case Nil
  then show ?case by simp
next
  case (Cons x xs)
  obtain r s' where b: "body x s = (r, s')" by fastforce
  from Cons.prems(2) [of x s] Cons.prems(1) b have "P s'" by simp
  with b Cons show ?case by (cases r) auto
qed

section \<open>Go maps\<close>

type_synonym 'v gomap = "(string \<times> 'v) list"

abbreviation gomap_ok :: "'v gomap \<Rightarrow> bool" where
  "gomap_ok m \<equiv> distinct (map fst m)"

lemma gomap_ok_update [simp, intro]: "gomap_ok m \<Longrightarrow> gomap_ok (AList.update k v m)"
  by (rule distinct_update)

lemma gomap_ok_delete [simp, intro]: "gomap_ok m \<Longrightarrow> gomap_ok (AList.delete k m)"
  by (rule distinct_delete)

lemma map_of_update_eq [gomap_simps]: "map_of (AList.update k v m) = (map_of m)(k \<mapsto> v)"
  by (rule update_conv')

lemma map_of_delete_eq [gomap_simps]: "map_of (AList.delete k m) = (map_of m)(k := None)"
  by (rule delete_conv')

lemma keys_delete [gomap_simps]: "fst ` set (AList.delete k m) = fst ` set m - {k}"
  using dom_map_of_conv_image_fst [of "AList.delete k m"] dom_map_of_conv_image_fst [of m]
  by (simp add: delete_conv')

lemma keys_update [gomap_simps]: "fst ` set (AList.update k v m) = insert k (fst ` set m)"
  using dom_update [of k v m] by (simp add: dom_map_of_conv_image_fst)

lemma in_set_updateD: "x \<in> set (AList.update k v m) \<Longrightarrow> x = (k, v) \<or> x \<in> set m"
  by (induction m) (auto split: if_splits)

lemma in_set_deleteD: "x \<in> set (AList.delete k m) \<Longrightarrow> x \<in> set m \<and> fst x \<noteq> k"
  by (auto simp: AList.delete_eq)

lemma gomap_update_new: "k \<notin> fst ` set m \<Longrightarrow> AList.update k v m = m @ [(k, v)]"
  by (induction m) auto

lemma filter_other_keys:
  assumes "distinct (map fst (xs @ ys))"
  shows "filter (\<lambda>x. fst x \<notin> fst ` set xs) (xs @ ys) = ys"
proof -
  have "filter (\<lambda>x. fst x \<notin> fst ` set xs) xs = []" by (simp add: filter_empty_conv)
  moreover have "filter (\<lambda>x. fst x \<notin> fst ` set xs) ys = ys" using assms by (auto simp: filter_id_conv)
  ultimately show ?thesis by simp
qed

lemma in_keys_iff: "k \<in> fst ` set m \<longleftrightarrow> map_of m k \<noteq> None"
  by (simp add: map_of_eq_None_iff)

text \<open>\<open>len(m)\<close> of a Go map is the number of its keys.\<close>

lemma gomap_length: "gomap_ok m \<Longrightarrow> length m = card (dom (map_of m))"
  using distinct_card [of "map fst m"] by (simp add: dom_map_of_conv_image_fst)

text \<open>\<open>sortedKeys\<close> of a map: the keys in byte order (\<open>sort.Strings\<close>).\<close>

lemma sort_keys_eq:
  fixes m m' :: "(('k::linorder) \<times> 'v) list"
  assumes "distinct (map fst m)" and "distinct (map fst m')" and "fst ` set m = fst ` set m'"
  shows "sort (map fst m) = sort (map fst m')"
proof -
  have "mset (map fst m) = mset (map fst m')"
    using assms set_eq_iff_mset_eq_distinct [of "map fst m" "map fst m'"] by simp
  then show ?thesis by (simp add: properties_for_sort)
qed

section \<open>Lists\<close>

lemma distinct_set_singleton: "set xs = {x} \<Longrightarrow> distinct xs \<Longrightarrow> xs = [x]"
  by (cases xs; cases "tl xs") auto

lemma distinct_concat_map:
  assumes "distinct xs" and "\<And>x. x \<in> set xs \<Longrightarrow> distinct (f x)"
    and "\<And>x y z. x \<in> set xs \<Longrightarrow> y \<in> set xs \<Longrightarrow> z \<in> set (f x) \<Longrightarrow> z \<in> set (f y) \<Longrightarrow> x = y"
  shows "distinct (concat (map f xs))"
  using assms
proof (induction xs)
  case (Cons x xs)
  have "set (f x) \<inter> (\<Union>y \<in> set xs. set (f y)) = {}"
    using Cons.prems(1) Cons.prems(3) [of x] by fastforce
  with Cons show ?case by auto
qed simp

lemma filter_sort_commute:
  "filter P (sort xs) = sort (filter P (xs :: 'a::linorder list))"
  by (simp add: filter_sort)

lemma fold_count_of_nat:
  "fold (\<lambda>x n. if P x then n + 1 else n) xs (n0 :: 'w::len word) =
     n0 + of_nat (length (filter P xs))"
  by (induction xs arbitrary: n0) (auto simp: algebra_simps)

end
