(* ===== verification/Go_Path.thy ===== *)
theory Go_Path
  imports Fsr_Prelude
begin

text \<open>
  Go's \<open>path/filepath\<close> on Unix as fsrecon uses it (\<open>Clean\<close>, \<open>IsAbs\<close>, \<open>Join\<close>, \<open>Dir\<close>,
  \<open>Rel\<close>, \<open>strings.Split\<close> at the separator), and the path predicates the components define on
  top of it: \<open>pathHasPrefix\<close> and \<open>pathParts\<close> of \<open>store.go\<close> and the four copies of
  \<open>within\<close>. The canonical absolute paths are the strings \<open>abs_path ps\<close> over good
  parts; on them \<open>within\<close> and (without a backslash) \<open>pathHasPrefix\<close> are the prefix order
  of the part lists.
\<close>

section \<open>Splitting and joining at the separator\<close>

fun split_sep :: "string \<Rightarrow> string list" where
  "split_sep [] = [[]]"
| "split_sep (c # cs) =
     (if c = CHR ''/'' then [] # split_sep cs
      else (c # hd (split_sep cs)) # tl (split_sep cs))"

fun join_sep :: "string list \<Rightarrow> string" where
  "join_sep [] = []"
| "join_sep [w] = w"
| "join_sep (w # v # ws) = w @ CHR ''/'' # join_sep (v # ws)"

abbreviation no_sep :: "string \<Rightarrow> bool" where
  "no_sep w \<equiv> CHR ''/'' \<notin> set w"

lemma split_sep_not_Nil [simp]: "split_sep s \<noteq> []"
  by (cases s) auto

lemma split_sep_no_sep: "w \<in> set (split_sep s) \<Longrightarrow> no_sep w"
proof (induction s arbitrary: w)
  case Nil
  then show ?case by simp
next
  case (Cons c cs)
  have "hd (split_sep cs) \<in> set (split_sep cs)" by simp
  then show ?case
    using Cons list.set_sel(2) [OF split_sep_not_Nil, of w cs] by (auto split: if_splits)
qed

lemma split_sep_word: "no_sep w \<Longrightarrow> split_sep w = [w]"
  by (induction w) auto

lemma split_sep_append: "no_sep w \<Longrightarrow> split_sep (w @ CHR ''/'' # s) = w # split_sep s"
  by (induction w) auto

lemma split_join: "ws \<noteq> [] \<Longrightarrow> list_all no_sep ws \<Longrightarrow> split_sep (join_sep ws) = ws"
  by (induction ws rule: join_sep.induct) (auto simp: split_sep_word split_sep_append)

lemma join_sep_Cons: "join_sep (w # ws) = w @ (if ws = [] then [] else CHR ''/'' # join_sep ws)"
  by (cases ws) auto

lemma join_sep_append:
  "join_sep (ws @ vs) =
     (if ws = [] then join_sep vs else if vs = [] then join_sep ws
      else join_sep ws @ CHR ''/'' # join_sep vs)"
  by (induction ws) (auto simp: join_sep_Cons)

section \<open>path/filepath\<close>

definition IsAbs :: "string \<Rightarrow> bool" where
  "IsAbs p = (case p of [] \<Rightarrow> False | c # _ \<Rightarrow> c = CHR ''/'')"

fun clean_step :: "bool \<Rightarrow> string \<Rightarrow> string list \<Rightarrow> string list" where
  "clean_step rooted w st =
     (if w = [] \<or> w = ''.'' then st
      else if w = ''..'' then
        (case st of
           [] \<Rightarrow> if rooted then [] else [''..'']
         | v # vs \<Rightarrow> if v = ''..'' then ''..'' # st else vs)
      else w # st)"

definition clean_parts :: "bool \<Rightarrow> string list \<Rightarrow> string list" where
  "clean_parts rooted ws = rev (fold (clean_step rooted) ws [])"

definition Clean :: "string \<Rightarrow> string" where
  "Clean p =
     (let rooted = IsAbs p; ws = clean_parts rooted (split_sep p) in
      if rooted then CHR ''/'' # join_sep ws
      else if ws = [] then ''.'' else join_sep ws)"

definition Join :: "string \<Rightarrow> string \<Rightarrow> string" where
  "Join a b =
     (if a = [] then (if b = [] then [] else Clean b)
      else if b = [] then Clean a else Clean (a @ CHR ''/'' # b))"

definition Dir :: "string \<Rightarrow> string" where
  "Dir p = Clean (rev (dropWhile (\<lambda>c. c \<noteq> CHR ''/'') (rev p)))"

definition elems :: "string \<Rightarrow> string list" where
  "elems p = filter (\<lambda>w. w \<noteq> []) (split_sep p)"

fun rel_strip :: "string list \<Rightarrow> string list \<Rightarrow> string list \<times> string list" where
  "rel_strip (b # bs) (t # ts) = (if b = t then rel_strip bs ts else (b # bs, t # ts))"
| "rel_strip bs ts = (bs, ts)"

definition Rel :: "string \<Rightarrow> string \<Rightarrow> string option" where
  "Rel basepath targpath =
     (let base = Clean basepath; targ = Clean targpath in
      if targ = base then Some ''.''
      else
        let base = (if base = ''.'' then [] else base) in
        if IsAbs base \<noteq> IsAbs targ then None
        else
          (case rel_strip (elems base) (elems targ) of
             (bs, ts) \<Rightarrow>
               if bs \<noteq> [] \<and> ts \<noteq> [] \<and> hd bs = ''..'' then None
               else Some (join_sep (replicate (length bs) ''..'' @ ts))))"

section \<open>Path predicates of the repository\<close>

definition strings_HasPrefix :: "string \<Rightarrow> string \<Rightarrow> bool" where
  "strings_HasPrefix s p = (take (length p) s = p)"

definition pathHasPrefix :: "string \<Rightarrow> string \<Rightarrow> bool" where
  "pathHasPrefix path pre =
     (if pre = [] \<or> path = pre then True
      else if \<not> strings_HasPrefix path pre then False
      else last pre = CHR ''/'' \<or> last pre = CHR 0x5C \<or>
           length path > length pre \<and>
             (path ! length pre = CHR ''/'' \<or> path ! length pre = CHR 0x5C))"

text \<open>
  \<open>filepath.VolumeName\<close> is empty on Unix, so the anchor is \<open>"/"\<close> or \<open>"."\<close>.
\<close>

definition pathParts :: "string \<Rightarrow> string list" where
  "pathParts path0 =
     (let path = Clean path0;
          anchor = (if IsAbs path then ''/'' else ''.'')
      in anchor # filter (\<lambda>part. part \<noteq> [] \<and> part \<noteq> ''.'') (split_sep path))"

text \<open>
  \<open>within\<close> of \<open>internal/dirtyset\<close>, \<open>internal/normalize\<close> and \<open>internal/watchtree\<close>
  (with \<open>startsWithParent\<close>), and \<open>withinObserver\<close>, which bounds the length differently.
\<close>

definition startsWithParent :: "string \<Rightarrow> bool" where
  "startsWithParent path = (length path > 3 \<and> take 3 path = ''../'')"

definition within :: "string \<Rightarrow> string \<Rightarrow> bool" where
  "within root path =
     (case Rel root path of
        None \<Rightarrow> False
      | Some relative \<Rightarrow> relative \<noteq> ''..'' \<and> \<not> startsWithParent relative)"

definition withinObserver :: "string \<Rightarrow> string \<Rightarrow> bool" where
  "withinObserver root path =
     (case Rel root path of
        None \<Rightarrow> False
      | Some rel \<Rightarrow> rel \<noteq> ''..'' \<and> \<not> (length rel \<ge> 3 \<and> take 3 rel = ''../''))"

section \<open>Canonical absolute paths\<close>

definition good_part :: "string \<Rightarrow> bool" where
  "good_part w = (w \<noteq> [] \<and> no_sep w \<and> w \<noteq> ''.'' \<and> w \<noteq> ''..'')"

definition abs_path :: "string list \<Rightarrow> string" where
  "abs_path ps = CHR ''/'' # join_sep ps"

definition canonical :: "string \<Rightarrow> bool" where
  "canonical p = (IsAbs p \<and> list_all good_part (elems p) \<and> p = abs_path (elems p))"

lemma list_all_good_no_sep: "list_all good_part ps \<Longrightarrow> list_all no_sep ps"
  by (induction ps) (auto simp: good_part_def)

lemma IsAbs_abs_path [simp]: "IsAbs (abs_path ps)"
  by (simp add: IsAbs_def abs_path_def)

lemma abs_path_neq [simp]: "abs_path ps \<noteq> []" "abs_path ps \<noteq> ''.''" "[] \<noteq> abs_path ps"
  by (simp_all add: abs_path_def)

lemma split_abs_path:
  "list_all good_part ps \<Longrightarrow> split_sep (abs_path ps) = (if ps = [] then [[], []] else [] # ps)"
  using split_join [of ps] list_all_good_no_sep [of ps] by (auto simp: abs_path_def)

lemma filter_good: "list_all good_part ps \<Longrightarrow> filter (\<lambda>w. w \<noteq> []) ps = ps"
  "list_all good_part ps \<Longrightarrow> filter (\<lambda>w. w \<noteq> [] \<and> w \<noteq> ''.'') ps = ps"
  by (induction ps) (auto simp: good_part_def)

lemma elems_abs_path [path_simps]: "list_all good_part ps \<Longrightarrow> elems (abs_path ps) = ps"
  by (auto simp: elems_def split_abs_path filter_good)

lemma canonical_abs_path [path_intros]: "list_all good_part ps \<Longrightarrow> canonical (abs_path ps)"
  by (simp add: canonical_def elems_abs_path)

lemma canonicalE:
  assumes "canonical p"
  obtains ps where "list_all good_part ps" and "p = abs_path ps" and "elems p = ps"
  using assms by (auto simp: canonical_def)

lemma canonical_IsAbs [dest]: "canonical p \<Longrightarrow> IsAbs p"
  by (simp add: canonical_def)

lemma abs_path_inject [path_simps]:
  "list_all good_part ps \<Longrightarrow> list_all good_part qs \<Longrightarrow> abs_path ps = abs_path qs \<longleftrightarrow> ps = qs"
  using elems_abs_path by metis

lemma canonical_elems_inject:
  "canonical p \<Longrightarrow> canonical q \<Longrightarrow> elems p = elems q \<longleftrightarrow> p = q"
  unfolding canonical_def by metis

lemma canonical_elems_good: "canonical p \<Longrightarrow> list_all good_part (elems p)"
  by (simp add: canonical_def)

subsection \<open>Clean\<close>

lemma fold_clean_good:
  "list_all good_part ws \<Longrightarrow> fold (clean_step r) ws st = rev ws @ st"
  by (induction ws arbitrary: st) (auto simp: good_part_def)

lemma clean_step_good:
  assumes "list_all good_part st" and "no_sep w"
  shows "list_all good_part (clean_step True w st)"
  using assms by (cases st) (auto simp: good_part_def)

lemma fold_clean_step_good:
  "list_all good_part st \<Longrightarrow> \<forall>w \<in> set ws. no_sep w \<Longrightarrow>
   list_all good_part (fold (clean_step True) ws st)"
proof (induction ws arbitrary: st)
  case Nil
  then show ?case by simp
next
  case (Cons w ws)
  from Cons.prems have "list_all good_part (clean_step True w st)"
    by (intro clean_step_good) auto
  with Cons show ?case by simp
qed

lemma Clean_abs: "IsAbs p \<Longrightarrow> Clean p = abs_path (clean_parts True (split_sep p))"
  by (simp add: Clean_def abs_path_def Let_def)

lemma clean_parts_good: "list_all good_part (clean_parts True (split_sep p))"
proof -
  have "list_all good_part (fold (clean_step True) (split_sep p) [])"
    by (rule fold_clean_step_good) (auto dest: split_sep_no_sep)
  then show ?thesis by (simp add: clean_parts_def list_all_iff)
qed

lemma canonical_Clean [path_intros]: "IsAbs p \<Longrightarrow> canonical (Clean p)"
  by (simp add: Clean_abs canonical_abs_path clean_parts_good)

lemma Clean_abs_path [path_simps]:
  assumes "list_all good_part ps"
  shows "Clean (abs_path ps) = abs_path ps"
proof -
  have "clean_parts True (split_sep (abs_path ps)) = ps"
    using assms by (auto simp: split_abs_path clean_parts_def fold_clean_good)
  then show ?thesis by (simp add: Clean_abs)
qed

lemma Clean_canonical [path_simps]: "canonical p \<Longrightarrow> Clean p = p"
  by (auto elim!: canonicalE simp: Clean_abs_path)

lemma Clean_idem: "IsAbs p \<Longrightarrow> Clean (Clean p) = Clean p"
  by (simp add: Clean_canonical canonical_Clean)

subsection \<open>Join and Dir\<close>

lemma abs_path_snoc:
  "abs_path (ps @ [w]) = (if ps = [] then abs_path [w] else abs_path ps @ CHR ''/'' # w)"
  by (simp add: abs_path_def join_sep_append)

lemma split_abs_path_join:
  assumes "list_all good_part ps" and "no_sep w"
  shows "split_sep (abs_path ps @ CHR ''/'' # w) =
     (if ps = [] then [[], [], w] else [] # ps @ [w])"
proof (cases "ps = []")
  case True
  with assms show ?thesis by (simp add: abs_path_def split_sep_word)
next
  case False
  then have "abs_path ps @ CHR ''/'' # w = CHR ''/'' # join_sep (ps @ [w])"
    by (simp add: abs_path_def join_sep_append)
  with False assms show ?thesis
    by (simp add: split_join list_all_good_no_sep)
qed

lemma Join_abs_path [path_simps]:
  assumes "list_all good_part ps" and "good_part w"
  shows "Join (abs_path ps) w = abs_path (ps @ [w])"
proof -
  from assms(2) have w: "w \<noteq> []" "no_sep w" by (auto simp: good_part_def)
  let ?q = "abs_path ps @ CHR ''/'' # w"
  have "IsAbs ?q" by (simp add: IsAbs_def abs_path_def)
  moreover have "clean_parts True (split_sep ?q) = ps @ [w]"
    using assms w by (auto simp: split_abs_path_join clean_parts_def fold_clean_good good_part_def)
  ultimately show ?thesis using w by (simp add: Join_def Clean_abs)
qed

lemma Dir_abs_path [path_simps]:
  assumes "list_all good_part ps" and "good_part w"
  shows "Dir (abs_path (ps @ [w])) = abs_path ps"
proof -
  from assms(2) have w: "\<forall>c \<in> set (rev w). c \<noteq> CHR ''/''" by (auto simp: good_part_def)
  have cut: "dropWhile (\<lambda>c. c \<noteq> CHR ''/'') (rev w @ CHR ''/'' # xs) = CHR ''/'' # xs" for xs
    using w by (subst dropWhile_append2) auto
  have "Dir (abs_path (ps @ [w])) = Clean (if ps = [] then ''/'' else abs_path ps @ ''/'')"
    using cut [of "[]"] cut [of "rev (abs_path ps)"]
    by (auto simp: Dir_def abs_path_snoc) (simp_all add: abs_path_def)
  also have "\<dots> = abs_path ps"
  proof (cases "ps = []")
    case True
    then show ?thesis using Clean_abs_path [of "[]"] by (simp add: abs_path_def)
  next
    case False
    have "IsAbs (abs_path ps @ ''/'')" by (simp add: IsAbs_def abs_path_def)
    moreover have "split_sep (abs_path ps @ ''/'') = [] # ps @ [[]]"
      using split_abs_path_join [OF assms(1), of "[]"] False by simp
    moreover have "clean_parts True ([] # ps @ [[]]) = ps"
      using assms(1) by (simp add: clean_parts_def fold_clean_good)
    ultimately show ?thesis using False by (simp add: Clean_abs)
  qed
  finally show ?thesis .
qed

lemma Dir_root [path_simps]: "Dir (abs_path []) = abs_path []"
proof -
  have "Dir (abs_path []) = Clean (abs_path [])"
    by (simp add: Dir_def abs_path_def)
  then show ?thesis by (simp add: Clean_abs_path)
qed

subsection \<open>Rel and within\<close>

lemma rel_strip_prefix: "rel_strip bs (bs @ ts) = ([], ts)"
  by (induction bs) (cases ts, auto)

lemma rel_strip_Nil: "fst (rel_strip bs ts) = [] \<Longrightarrow> \<exists>us. ts = bs @ us"
  by (induction bs ts rule: rel_strip.induct) (auto split: if_splits)

lemma rel_strip_good:
  "list_all good_part bs \<Longrightarrow> list_all good_part (fst (rel_strip bs ts))"
  "list_all good_part ts \<Longrightarrow> list_all good_part (snd (rel_strip bs ts))"
  by (induction bs ts rule: rel_strip.induct) auto

lemma Rel_abs_path [path_simps]:
  assumes "list_all good_part bs" and "list_all good_part ts"
  shows "Rel (abs_path bs) (abs_path ts) =
     Some (if bs = ts then ''.''
           else join_sep (replicate (length (fst (rel_strip bs ts))) ''..'' @ snd (rel_strip bs ts)))"
proof -
  obtain b t where bt: "rel_strip bs ts = (b, t)" by fastforce
  with rel_strip_good(1) [OF assms(1), of ts] have "list_all good_part b" by simp
  then have "\<not> (b \<noteq> [] \<and> hd b = ''..'')" by (cases b) (auto simp: good_part_def)
  then show ?thesis
    using assms bt by (auto simp: Rel_def Clean_abs_path elems_abs_path abs_path_inject Let_def)
qed

lemma join_sep_dotdot:
  assumes "0 < n" and "list_all good_part ts"
  shows "join_sep (replicate n ''..'' @ ts) = ''..'' \<or>
     (length (join_sep (replicate n ''..'' @ ts)) > 3 \<and>
      take 3 (join_sep (replicate n ''..'' @ ts)) = ''../'')"
proof -
  obtain m where n: "n = Suc m" using assms(1) by (cases n) auto
  let ?r = "replicate m ''..'' @ ts"
  show ?thesis
  proof (cases "?r = []")
    case True
    then show ?thesis by (simp add: n)
  next
    case False
    then obtain w ws where r: "?r = w # ws" by (cases ?r) auto
    have "w \<in> set ?r" using r by simp
    then have "w \<noteq> []" using assms(2) by (auto simp: list_all_iff good_part_def)
    then have "join_sep ?r \<noteq> []" using r by (simp add: join_sep_Cons)
    moreover have "join_sep (replicate n ''..'' @ ts) = ''..'' @ CHR ''/'' # join_sep ?r"
      using False by (simp add: n join_sep_Cons)
    ultimately show ?thesis by (auto simp: numeral_3_eq_3 neq_Nil_conv)
  qed
qed

lemma good_not_dotdot:
  assumes "list_all good_part ts" and "ts \<noteq> []"
  shows "join_sep ts \<noteq> ''..'' \<and> take 3 (join_sep ts) \<noteq> ''../''"
proof -
  obtain w ws where ts: "ts = w # ws" using assms(2) by (cases ts) auto
  with assms(1) have w: "good_part w" by simp
  have "split_sep (join_sep ts) = ts"
    using assms by (intro split_join list_all_good_no_sep) auto
  moreover have "split_sep ''..'' = [''..'']" by simp
  moreover have "take 3 s = ''../'' \<Longrightarrow> hd (split_sep s) = ''..''" for s
  proof -
    assume "take 3 s = ''../''"
    then have "s = ''..'' @ CHR ''/'' # drop 3 s"
      using append_take_drop_id [of 3 s] by simp
    then show ?thesis using split_sep_append [of "''..''" "drop 3 s"] by force
  qed
  ultimately show ?thesis using ts w by (metis good_part_def list.sel(1))
qed

lemma within_abs_path [path_simps]:
  assumes "list_all good_part rs" and "list_all good_part ps"
  shows "within (abs_path rs) (abs_path ps) \<longleftrightarrow> prefix rs ps"
proof (cases "prefix rs ps")
  case True
  then obtain us where us: "ps = rs @ us" by (auto simp: prefix_def)
  with assms good_not_dotdot [of us] show ?thesis
    by (auto simp: within_def Rel_abs_path rel_strip_prefix startsWithParent_def)
next
  case False
  then have "rs \<noteq> ps" and "fst (rel_strip rs ps) \<noteq> []"
    using rel_strip_Nil [of rs ps] by (auto simp: prefix_def)
  with assms False rel_strip_good(2) [OF assms(2), of rs]
    join_sep_dotdot [of "length (fst (rel_strip rs ps))" "snd (rel_strip rs ps)"]
  show ?thesis
    by (auto simp: within_def Rel_abs_path startsWithParent_def)
qed

lemma within_canonical [path_simps]:
  "canonical r \<Longrightarrow> canonical p \<Longrightarrow> within r p \<longleftrightarrow> prefix (elems r) (elems p)"
  by (auto elim!: canonicalE simp: within_abs_path elems_abs_path)


subsection \<open>pathHasPrefix and pathParts\<close>

definition no_backslash :: "string \<Rightarrow> bool" where
  "no_backslash p = (CHR 0x5C \<notin> set p)"

lemma abs_path_last:
  assumes "list_all good_part rs" and "rs \<noteq> []"
  shows "last (abs_path rs) \<noteq> CHR ''/''"
proof -
  from assms(2) obtain qs w where rs: "rs = qs @ [w]" by (metis rev_exhaust)
  with assms(1) have w: "w \<noteq> []" "no_sep w" by (auto simp: good_part_def)
  then have "last w \<noteq> CHR ''/''" using last_in_set by metis
  with rs w show ?thesis by (auto simp: abs_path_def join_sep_append)
qed

lemma abs_path_append:
  "rs \<noteq> [] \<Longrightarrow> us \<noteq> [] \<Longrightarrow> abs_path (rs @ us) = abs_path rs @ CHR ''/'' # join_sep us"
  by (simp add: abs_path_def join_sep_append)

lemma split_sep_slash:
  "split_sep (s @ CHR ''/'' # t) = split_sep s @ split_sep t"
  by (induction s) (auto simp: hd_append tl_append split: list.splits)

lemma abs_path_prefix_iff:
  assumes "list_all good_part rs" and "list_all good_part ps" and "rs \<noteq> []"
  shows "(\<exists>t. abs_path ps = abs_path rs @ CHR ''/'' # t) \<longleftrightarrow> strict_prefix rs ps"
proof
  assume "\<exists>t. abs_path ps = abs_path rs @ CHR ''/'' # t"
  then obtain t where t: "abs_path ps = abs_path rs @ CHR ''/'' # t" ..
  then have "split_sep (abs_path ps) = [] # rs @ split_sep t"
    using assms by (simp add: split_sep_slash split_abs_path)
  then have eq: "split_sep (abs_path ps) = [] # rs @ split_sep t" .
  have "2 < length (split_sep (abs_path ps))"
    unfolding eq using assms(3) by (cases rs; cases "split_sep t") auto
  then have "ps \<noteq> []" using assms(2) by (auto simp: split_abs_path)
  with eq assms(2) show "strict_prefix rs ps"
    by (auto simp: split_abs_path strict_prefix_def prefix_def)
next
  assume "strict_prefix rs ps"
  then obtain us where "ps = rs @ us" and "us \<noteq> []"
    by (auto simp: strict_prefix_def prefix_def)
  with assms(3) show "\<exists>t. abs_path ps = abs_path rs @ CHR ''/'' # t"
    by (auto simp: abs_path_append)
qed

text \<open>
  On canonical paths without a backslash \<open>pathHasPrefix\<close> is the prefix order of the parts.
\<close>

lemma pathHasPrefix_slash:
  assumes "no_backslash path" and "no_backslash pre" and "pre \<noteq> []"
  shows "pathHasPrefix path pre \<longleftrightarrow>
     path = pre \<or> (\<exists>t. path = pre @ t \<and> (last pre = CHR ''/'' \<or> (\<exists>u. t = CHR ''/'' # u)))"
proof -
  have bs: "last pre \<noteq> CHR 0x5C" using assms(2,3) last_in_set by (metis no_backslash_def)
  have "strings_HasPrefix path pre \<longleftrightarrow> (\<exists>t. path = pre @ t)"
    by (metis strings_HasPrefix_def append_eq_conv_conj append_take_drop_id)
  moreover have "length (pre @ t) > length pre \<and> (pre @ t) ! length pre = CHR ''/'' \<longleftrightarrow>
      (\<exists>u. t = CHR ''/'' # u)" for t
    by (cases t) auto
  moreover have "path = pre @ t \<Longrightarrow> length path > length pre \<Longrightarrow> path ! length pre \<noteq> CHR 0x5C" for t
    using assms(1) nth_mem [of "length pre" path] by (auto simp: no_backslash_def)
  ultimately show ?thesis
    using assms(3) bs by (auto simp: pathHasPrefix_def) blast+
qed

lemma pathHasPrefix_abs_path [path_simps]:
  assumes "list_all good_part rs" and "list_all good_part ps"
    and "no_backslash (abs_path rs)" and "no_backslash (abs_path ps)"
  shows "pathHasPrefix (abs_path ps) (abs_path rs) \<longleftrightarrow> prefix rs ps"
proof (cases "rs = []")
  case True
  moreover have "abs_path ps = abs_path [] @ join_sep ps" "last (abs_path []) = CHR ''/''"
    by (simp_all add: abs_path_def)
  ultimately show ?thesis using pathHasPrefix_slash [OF assms(4,3)] by (metis abs_path_neq(1) Nil_prefix)
next
  case False
  have "pathHasPrefix (abs_path ps) (abs_path rs) \<longleftrightarrow>
      ps = rs \<or> (\<exists>t. abs_path ps = abs_path rs @ CHR ''/'' # t)"
    using abs_path_last [OF assms(1) False] assms(1,2)
    by (auto simp: pathHasPrefix_slash [OF assms(4,3)] abs_path_inject)
  also have "\<dots> \<longleftrightarrow> prefix rs ps"
    using abs_path_prefix_iff [OF assms(1,2) False] by (auto simp: prefix_order.le_less)
  finally show ?thesis .
qed

lemma pathHasPrefix_canonical [path_simps]:
  "canonical r \<Longrightarrow> canonical p \<Longrightarrow> no_backslash r \<Longrightarrow> no_backslash p \<Longrightarrow>
   pathHasPrefix p r \<longleftrightarrow> prefix (elems r) (elems p)"
  by (auto elim!: canonicalE simp: pathHasPrefix_abs_path elems_abs_path)

lemma pathParts_abs_path [path_simps]:
  "list_all good_part ps \<Longrightarrow> pathParts (abs_path ps) = ''/'' # ps"
  by (simp add: pathParts_def Clean_abs_path split_abs_path filter_good Let_def)

lemma pathParts_canonical [path_simps]: "canonical p \<Longrightarrow> pathParts p = ''/'' # elems p"
  by (auto elim!: canonicalE simp: pathParts_abs_path elems_abs_path)

lemma pathParts_inject:
  "canonical p \<Longrightarrow> canonical q \<Longrightarrow> pathParts p = pathParts q \<longleftrightarrow> p = q"
  by (simp add: pathParts_canonical canonical_elems_inject)


subsection \<open>Relative paths and the copies of within\<close>

lemma join_sep_last_not_slash:
  "list_all (\<lambda>w. w \<noteq> [] \<and> no_sep w) ws \<Longrightarrow> ws \<noteq> [] \<Longrightarrow>
   join_sep ws \<noteq> [] \<and> last (join_sep ws) \<noteq> CHR ''/'' \<and> hd (join_sep ws) \<noteq> CHR ''/''"
proof (induction ws rule: join_sep.induct)
  case (2 w)
  then show ?case by simp (metis last_in_set hd_in_set)
next
  case (3 w v ws)
  then show ?case by (auto simp: neq_Nil_conv)
qed simp

lemma elems_words: "list_all (\<lambda>w. w \<noteq> [] \<and> no_sep w) (elems p)"
  by (auto simp: elems_def list_all_iff dest: split_sep_no_sep)

lemma rel_strip_words:
  "list_all P ts \<Longrightarrow> list_all P (snd (rel_strip bs ts))"
  by (induction bs ts rule: rel_strip.induct) auto

lemma Rel_not_parent_slash: "Rel r p \<noteq> Some ''../''"
proof
  assume "Rel r p = Some ''../''"
  then obtain b bs ts where rs: "rel_strip (elems b) (elems (Clean p)) = (bs, ts)"
    and j: "join_sep (replicate (length bs) ''..'' @ ts) = ''../''"
    by (auto simp: Rel_def Let_def split: if_splits prod.splits)
  have "list_all (\<lambda>w. w \<noteq> [] \<and> no_sep w) (replicate (length bs) ''..'' @ ts)"
    using rel_strip_words [OF elems_words, of "elems b" "Clean p"] rs
    by (auto simp: list_all_iff)
  moreover have "replicate (length bs) ''..'' @ ts \<noteq> []" using j by (metis join_sep.simps(1) list.distinct(1))
  ultimately have "last (join_sep (replicate (length bs) ''..'' @ ts)) \<noteq> CHR ''/''"
    using join_sep_last_not_slash by blast
  with j show False by simp
qed

lemma clean_step_words:
  "list_all (\<lambda>w. w \<noteq> [] \<and> no_sep w) st \<Longrightarrow> no_sep w \<Longrightarrow>
   list_all (\<lambda>w. w \<noteq> [] \<and> no_sep w) (clean_step r w st)"
  by (cases st) auto

lemma clean_parts_words:
  assumes "\<forall>w \<in> set ws. no_sep w"
  shows "list_all (\<lambda>w. w \<noteq> [] \<and> no_sep w) (clean_parts r ws)"
proof -
  have "list_all (\<lambda>w. w \<noteq> [] \<and> no_sep w) st \<Longrightarrow> \<forall>w \<in> set ws. no_sep w \<Longrightarrow>
     list_all (\<lambda>w. w \<noteq> [] \<and> no_sep w) (fold (clean_step r) ws st)" for st
  proof (induction ws arbitrary: st)
    case (Cons w ws)
    then show ?case using clean_step_words [of st w r] by simp
  qed simp
  from this [of "[]"] assms show ?thesis by (simp add: clean_parts_def list_all_iff)
qed

lemma IsAbs_Clean [simp]: "IsAbs (Clean p) = IsAbs p"
proof (cases "IsAbs p")
  case True
  then show ?thesis by (simp add: Clean_abs)
next
  case False
  let ?ws = "clean_parts False (split_sep p)"
  have "list_all (\<lambda>w. w \<noteq> [] \<and> no_sep w) ?ws"
    by (rule clean_parts_words) (auto dest: split_sep_no_sep)
  then have "?ws \<noteq> [] \<Longrightarrow> join_sep ?ws \<noteq> [] \<and> hd (join_sep ?ws) \<noteq> CHR ''/''"
    using join_sep_last_not_slash by blast
  with False show ?thesis
    by (auto simp: Clean_def Let_def) (auto simp: IsAbs_def split: list.splits)
qed

lemma Rel_abs_relative: "canonical r \<Longrightarrow> \<not> IsAbs p \<Longrightarrow> Rel r p = None"
proof -
  assume r: "canonical r" and p: "\<not> IsAbs p"
  have "IsAbs r" using r by blast
  moreover have "r \<noteq> ''.''" using \<open>IsAbs r\<close> by (auto simp: IsAbs_def)
  moreover have "Clean p \<noteq> r" using \<open>IsAbs r\<close> p IsAbs_Clean by metis
  ultimately show ?thesis using r p by (simp add: Rel_def Let_def Clean_canonical)
qed

lemma within_relative [path_simps]: "canonical r \<Longrightarrow> \<not> IsAbs p \<Longrightarrow> \<not> within r p"
  by (simp add: within_def Rel_abs_relative)

lemma Rel_Clean: "canonical r \<Longrightarrow> IsAbs p \<Longrightarrow> Rel r (Clean p) = Rel r p"
  by (simp add: Rel_def Clean_canonical canonical_Clean)

end
