(* ===== verification/Core_Types.thy ===== *)
theory Core_Types
  imports Go_Path
begin

text \<open>
  The public data of the package: file identities, types and states (\<open>state.go\<close>), events and
  change batches (\<open>event.go\<close>), configuration (\<open>config.go\<close>), expected entries
  (\<open>expected.go\<close>), reports and statistics (\<open>report.go\<close>), the pending generation
  (\<open>pending.go\<close>), and the conversions of \<open>tracker.go\<close> that build states from scanner
  entries. A \<open>uint8\<close> enumeration that callers can fill freely has one more constructor for the
  undeclared values. A \<open>time.Time\<close> is its instant in nanoseconds since the epoch.
\<close>

unbundle bit_operations_syntax

type_synonym Time = int

section \<open>state.go\<close>

datatype FileID = FileID (id_value: string)

definition newFileID :: "string \<Rightarrow> FileID" where
  "newFileID value = FileID value"

definition IsZero :: "FileID \<Rightarrow> bool" where
  "IsZero ident = (id_value ident = [])"

definition FileID_Equal :: "FileID \<Rightarrow> FileID \<Rightarrow> bool" where
  "FileID_Equal ident other = (id_value ident \<noteq> [] \<and> id_value ident = id_value other)"

definition MarshalText :: "FileID \<Rightarrow> GoError + string" where
  "MarshalText ident = Inr (id_value ident)"

text \<open>The receiver is a pointer; \<open>None\<close> is the nil receiver.\<close>

definition UnmarshalText :: "FileID option \<Rightarrow> string \<Rightarrow> GoError + FileID" where
  "UnmarshalText ident txt =
     (case ident of
        None \<Rightarrow> Inl (ErrMsg ''fsrecon: unmarshal FileID into nil receiver'')
      | Some _ \<Rightarrow> Inr (FileID txt))"

datatype FileType =
    FileTypeUnknown | FileTypeRegular | FileTypeDirectory | FileTypeSymlink | FileTypeOther
  | FileTypeUndeclared "8 word"

primrec FileType_String :: "FileType \<Rightarrow> string" where
  "FileType_String FileTypeUnknown = ''UNKNOWN''"
| "FileType_String FileTypeRegular = ''REGULAR''"
| "FileType_String FileTypeDirectory = ''DIRECTORY''"
| "FileType_String FileTypeSymlink = ''SYMLINK''"
| "FileType_String FileTypeOther = ''OTHER''"
| "FileType_String (FileTypeUndeclared w) = ''UNKNOWN''"

record FileState =
  st_Path :: string
  st_ID :: FileID
  st_Type :: FileType
  st_Size :: "64 word"
  st_ModTime :: Time
  st_Mode :: "32 word"

definition zero_FileState :: FileState where
  "zero_FileState = \<lparr>st_Path = [], st_ID = FileID [], st_Type = FileTypeUnknown, st_Size = 0,
     st_ModTime = 0, st_Mode = 0\<rparr>"

section \<open>event.go\<close>

datatype EventKind =
    EventCreated | EventModified | EventDeleted | EventMoved | EventAttributeChanged
  | EventMissing | EventOrphan | EventReplaced | EventInvalid | EventCorrupt
  | EventOverflow | EventRescanRequired | EventUndeclared "8 word"

primrec EventKind_String :: "EventKind \<Rightarrow> string" where
  "EventKind_String EventCreated = ''CREATED''"
| "EventKind_String EventModified = ''MODIFIED''"
| "EventKind_String EventDeleted = ''DELETED''"
| "EventKind_String EventMoved = ''MOVED''"
| "EventKind_String EventAttributeChanged = ''ATTRIBUTE_CHANGED''"
| "EventKind_String EventMissing = ''MISSING''"
| "EventKind_String EventOrphan = ''ORPHAN''"
| "EventKind_String EventReplaced = ''REPLACED''"
| "EventKind_String EventInvalid = ''INVALID''"
| "EventKind_String EventCorrupt = ''CORRUPT''"
| "EventKind_String EventOverflow = ''OVERFLOW''"
| "EventKind_String EventRescanRequired = ''RESCAN_REQUIRED''"
| "EventKind_String (EventUndeclared w) = ''UNKNOWN''"

datatype EventSource = SourceWatcher | SourceReconcile | SourceIntegrity | SourceUndeclared "8 word"

primrec EventSource_String :: "EventSource \<Rightarrow> string" where
  "EventSource_String SourceWatcher = ''WATCHER''"
| "EventSource_String SourceReconcile = ''RECONCILE''"
| "EventSource_String SourceIntegrity = ''INTEGRITY''"
| "EventSource_String (SourceUndeclared w) = ''UNKNOWN''"

record Event =
  ev_Kind :: EventKind
  ev_Path :: string
  ev_OldPath :: string
  ev_Before :: "FileState option"
  ev_After :: "FileState option"
  ev_Source :: EventSource
  ev_Time :: Time

record ChangeBatch =
  cb_SessionID :: string
  cb_Generation :: "64 word"
  cb_Sequence :: "64 word"
  cb_Final :: bool
  cb_Events :: "Event list"

section \<open>config.go and expected.go\<close>

datatype SymlinkPolicy =
    IgnoreSymlinks | ReportSymlinks | FollowSymlinks | RejectSymlinks
  | SymlinkPolicyUndeclared "8 word"

datatype HardlinkPolicy =
    AllowHardlinks | ReportHardlinks | RejectHardlinks | HardlinkPolicyUndeclared "8 word"

datatype ExpectedEntryScope =
    ExpectedRegularFiles | ExpectedAllEntries | ExpectedScopeUndeclared "8 word"

record ExpectedEntry =
  ee_Path :: string
  ee_Type :: "FileType option"
  ee_Size :: "64 word option"
  ee_Fingerprint :: "8 word list"

record IntegrityResult =
  ir_Valid :: bool
  ir_Fingerprint :: "8 word list"
  ir_Reason :: string

text \<open>
  A provider streams entries to a callback and may then fail: the entries and the error. The
  scoped interface is optional.
\<close>

record ExpectedProvider =
  ep_WalkExpected :: "string \<Rightarrow> ExpectedEntry list \<times> GoError option"
  ep_WalkExpectedScope :: "(string \<Rightarrow> string \<Rightarrow> ExpectedEntry list \<times> GoError option) option"

definition defaultEventBuffer :: int where "defaultEventBuffer = 256"
definition defaultDebounceWindow :: int where "defaultDebounceWindow = 100 * 1000000"
definition defaultReportEventLimit :: int where "defaultReportEventLimit = 10000"
definition defaultChangeBatchSize :: int where "defaultChangeBatchSize = 256"

section \<open>report.go and pending.go\<close>

record ReconcileReport =
  rr_Generation :: "64 word"
  rr_StartedAt :: Time
  rr_Duration :: Time
  rr_Scanned :: "64 word"
  rr_Healthy :: "64 word"
  rr_Created :: "64 word"
  rr_Modified :: "64 word"
  rr_Deleted :: "64 word"
  rr_Moved :: "64 word"
  rr_Replaced :: "64 word"
  rr_Missing :: "64 word"
  rr_Orphan :: "64 word"
  rr_Invalid :: "64 word"
  rr_Corrupt :: "64 word"
  rr_Events :: "Event list"
  rr_EventsTruncated :: "64 word"

definition zero_report :: ReconcileReport where
  "zero_report = \<lparr>rr_Generation = 0, rr_StartedAt = 0, rr_Duration = 0, rr_Scanned = 0,
     rr_Healthy = 0, rr_Created = 0, rr_Modified = 0, rr_Deleted = 0, rr_Moved = 0, rr_Replaced = 0,
     rr_Missing = 0, rr_Orphan = 0, rr_Invalid = 0, rr_Corrupt = 0, rr_Events = [],
     rr_EventsTruncated = 0\<rparr>"

record IntegrityReport =
  ig_Generation :: "64 word"
  ig_StartedAt :: Time
  ig_Duration :: Time
  ig_Scanned :: "64 word"
  ig_Healthy :: "64 word"
  ig_Corrupt :: "64 word"
  ig_Events :: "Event list"
  ig_EventsTruncated :: "64 word"

definition zero_integrity :: IntegrityReport where
  "zero_integrity = \<lparr>ig_Generation = 0, ig_StartedAt = 0, ig_Duration = 0, ig_Scanned = 0,
     ig_Healthy = 0, ig_Corrupt = 0, ig_Events = [], ig_EventsTruncated = 0\<rparr>"

datatype pendingKind = pendingReconcile | pendingIntegrity

record pendingGeneration =
  pg_kind :: pendingKind
  pg_sessionID :: string
  pg_generation :: "64 word"
  pg_report :: ReconcileReport
  pg_events :: "Event list"
  pg_puts :: "FileState list"
  pg_deletes :: "string list"
  pg_integrity :: "IntegrityReport option"

section \<open>File modes (io/fs) and the conversions of tracker.go\<close>

definition ModeDir :: "32 word" where "ModeDir = push_bit 31 1"
definition ModeSymlink :: "32 word" where "ModeSymlink = push_bit 27 1"

text \<open>\<open>fs.ModeType\<close>: directory, symlink, named pipe, socket, device, char device, irregular.\<close>

definition ModeType :: "32 word" where
  "ModeType = push_bit 31 1 OR push_bit 27 1 OR push_bit 25 1 OR push_bit 24 1 OR
     push_bit 26 1 OR push_bit 21 1 OR push_bit 19 1"

definition IsRegular :: "32 word \<Rightarrow> bool" where
  "IsRegular mode = (mode AND ModeType = 0)"

definition IsDir :: "32 word \<Rightarrow> bool" where
  "IsDir mode = (mode AND ModeDir \<noteq> 0)"

definition IsSymlink :: "32 word \<Rightarrow> bool" where
  "IsSymlink mode = (mode AND ModeSymlink \<noteq> 0)"

definition fileType :: "32 word \<Rightarrow> FileType" where
  "fileType mode =
     (if IsRegular mode then FileTypeRegular
      else if IsDir mode then FileTypeDirectory
      else if IsSymlink mode then FileTypeSymlink
      else FileTypeOther)"

section \<open>Lemmas\<close>

lemma IsDir_fileType: "IsDir mode \<Longrightarrow> fileType mode = FileTypeDirectory"
proof -
  assume d: "IsDir mode"
  have "\<not> bit mode 31 \<Longrightarrow> mode AND push_bit 31 1 = 0"
  proof (rule bit_word_eqI)
    fix n
    assume "\<not> bit mode 31"
    moreover have "bit (push_bit 31 1 :: 32 word) n \<Longrightarrow> n = 31"
      by (simp only: bit_push_bit_iff bit_1_iff) linarith
    ultimately show "bit (mode AND push_bit 31 1) n = bit 0 n"
      by (auto simp only: bit_and_iff bit_0_eq bot_apply bot_bool_def)
  qed
  with d have "bit mode 31" by (auto simp: IsDir_def ModeDir_def)
  then have "bit (mode AND ModeType) 31"
    by (simp add: ModeType_def bit_simps)
  then have "\<not> IsRegular mode" by (auto simp: IsRegular_def)
  with d show ?thesis by (simp add: fileType_def)
qed

lemma fileType_Directory_iff: "fileType mode = FileTypeDirectory \<longleftrightarrow> IsDir mode"
  using IsDir_fileType [of mode] by (auto simp: fileType_def split: if_splits)

end
