(* ===== verification/Delivery.thy ===== *)
theory Delivery
  imports Core_Types
begin

text \<open>
  \<open>delivery.go\<close>: the change batcher that cuts the events of a generation into bounded
  batches for a \<open>ChangeSink\<close>. The sink belongs to the application: it is a parameter, a
  function from its own state and a batch to an optional error and its next state.
\<close>

section \<open>Data and operations\<close>

type_synonym 'k ChangeSink = "'k \<Rightarrow> ChangeBatch \<Rightarrow> GoError option \<times> 'k"

text \<open>The limit is Go's \<open>int\<close>; \<open>New\<close> makes it positive.\<close>

record changeBatcher =
  b_sessionID :: string
  b_generation :: "64 word"
  b_sequence :: "64 word"
  b_limit :: int
  b_pending :: "Event list"

definition newChangeBatcher :: "string \<Rightarrow> 64 word \<Rightarrow> int \<Rightarrow> changeBatcher" where
  "newChangeBatcher sessionID generation limit =
     \<lparr>b_sessionID = sessionID, b_generation = generation, b_sequence = 0, b_limit = limit,
      b_pending = []\<rparr>"

definition batch_of :: "changeBatcher \<Rightarrow> bool \<Rightarrow> ChangeBatch" where
  "batch_of b final =
     \<lparr>cb_SessionID = b_sessionID b, cb_Generation = b_generation b, cb_Sequence = b_sequence b,
      cb_Final = final, cb_Events = b_pending b\<rparr>"

definition flush ::
  "'k ChangeSink \<Rightarrow> bool \<Rightarrow> changeBatcher \<times> 'k \<Rightarrow> GoError option \<times> changeBatcher \<times> 'k" where
  "flush sink final bk =
     (case bk of (b, k) \<Rightarrow>
        (case sink k (batch_of b final) of
           (Some err, k') \<Rightarrow> (Some (ErrWrap (''fsrecon: deliver generation '' @ fmt_d (b_generation b) @ '' batch '' @
              fmt_d (b_sequence b) @ '': '') err []), b, k')
         | (None, k') \<Rightarrow> (None, b\<lparr>b_sequence := b_sequence b + 1, b_pending := []\<rparr>, k')))"

text \<open>A nil sink is \<open>None\<close>.\<close>

definition Add_event ::
  "'k ChangeSink option \<Rightarrow> Event \<Rightarrow> changeBatcher \<times> 'k \<Rightarrow> GoError option \<times> changeBatcher \<times> 'k" where
  "Add_event sink event bk =
     (case sink of
        None \<Rightarrow> (None, bk)
      | Some snk \<Rightarrow>
          (case (if int (length (b_pending (fst bk))) = b_limit (fst bk)
                 then flush snk False bk else (None, bk)) of
             (Some err, bk') \<Rightarrow> (Some err, bk')
           | (None, b, k) \<Rightarrow> (None, b\<lparr>b_pending := b_pending b @ [event]\<rparr>, k)))"

definition Finish ::
  "'k ChangeSink option \<Rightarrow> changeBatcher \<times> 'k \<Rightarrow> GoError option \<times> changeBatcher \<times> 'k" where
  "Finish sink bk =
     (case sink of
        None \<Rightarrow> (None, bk)
      | Some snk \<Rightarrow> if b_pending (fst bk) = [] then (None, bk) else flush snk True bk)"

text \<open>
  The loop that \<open>deliverPending\<close> and \<open>resumePendingIntegrity\<close> run over the events of a
  generation: add each, then finish.
\<close>

definition deliver ::
  "'k ChangeSink option \<Rightarrow> string \<Rightarrow> 64 word \<Rightarrow> int \<Rightarrow> Event list \<Rightarrow> 'k \<Rightarrow> GoError option \<times> 'k" where
  "deliver sink sessionID generation limit events k =
     (case for_each (Add_event sink) events (newChangeBatcher sessionID generation limit, k) of
        (Some err, b, k') \<Rightarrow> (Some err, k')
      | (None, b, k') \<Rightarrow> (case Finish sink (b, k') of (err, b', k'') \<Rightarrow> (err, k'')))"

section \<open>The batches of a generation\<close>

text \<open>
  The specification: the events in chunks of the limit, numbered from zero, the last one final.
\<close>

fun chunks :: "nat \<Rightarrow> 'a list \<Rightarrow> 'a list list" where
  "chunks n xs = (if xs = [] then [] else if n = 0 then [xs] else take n xs # chunks n (drop n xs))"

declare chunks.simps [simp del]

definition batches :: "string \<Rightarrow> 64 word \<Rightarrow> nat \<Rightarrow> Event list \<Rightarrow> ChangeBatch list" where
  "batches sid gen n events =
     (let cs = chunks n events in
      map (\<lambda>i. \<lparr>cb_SessionID = sid, cb_Generation = gen, cb_Sequence = of_nat i,
                cb_Final = (Suc i = length cs), cb_Events = cs ! i\<rparr>) [0..<length cs])"

text \<open>A sink that records what it receives and fails when the oracle says so.\<close>

fun log_sink :: "(ChangeBatch list \<Rightarrow> ChangeBatch \<Rightarrow> GoError option) \<Rightarrow> ChangeBatch list ChangeSink" where
  "log_sink fails log b = (fails log b, log @ [b])"

declare log_sink.simps [simp del]

lemma chunks_Nil [simp]: "chunks n [] = []"
  by (simp add: chunks.simps)

lemma chunks_step: "xs \<noteq> [] \<Longrightarrow> 0 < n \<Longrightarrow> chunks n xs = take n xs # chunks n (drop n xs)"
  by (subst chunks.simps) simp

lemma chunks_props:
  assumes "0 < n"
  shows "concat (chunks n xs) = xs \<and> (\<forall>c \<in> set (chunks n xs). c \<noteq> [] \<and> length c \<le> n)"
  using assms
proof (induction n xs rule: chunks.induct)
  case (1 n xs)
  show ?case
  proof (cases "xs = []")
    case False
    with 1 show ?thesis
      unfolding chunks_step [OF False \<open>0 < n\<close>] by auto
  qed simp
qed


text \<open>
  What the sink sees on success. A general lemma about a batcher that has already delivered
  \<open>s\<close> batches and holds \<open>pending\<close>: with a sink that records, the rest of the run appends the
  chunks of \<open>pending @ events\<close>, numbered from \<open>s\<close>.
\<close>

definition numbered :: "string \<Rightarrow> 64 word \<Rightarrow> nat \<Rightarrow> Event list list \<Rightarrow> ChangeBatch list" where
  "numbered sid gen s cs =
     map (\<lambda>i. \<lparr>cb_SessionID = sid, cb_Generation = gen, cb_Sequence = of_nat (s + i),
               cb_Final = (Suc i = length cs), cb_Events = cs ! i\<rparr>) [0..<length cs]"

lemma batches_numbered: "batches sid gen n events = numbered sid gen 0 (chunks n events)"
  by (simp add: batches_def numbered_def Let_def)

lemma numbered_Nil [simp]: "numbered sid gen s [] = []"
  by (simp add: numbered_def)

lemma numbered_Cons:
  "numbered sid gen s (c # cs) =
     \<lparr>cb_SessionID = sid, cb_Generation = gen, cb_Sequence = of_nat s, cb_Final = (cs = []), cb_Events = c\<rparr> #
     numbered sid gen (Suc s) cs"
  by (simp add: numbered_def map_upt_Suc del: upt_Suc)

lemma chunks_full:
  assumes "0 < n" and "length xs = n" and "ys \<noteq> []"
  shows "chunks n (xs @ ys) = xs # chunks n ys"
  using assms by (subst chunks_step) auto

lemma chunks_short:
  assumes "xs \<noteq> []" and "length xs \<le> n"
  shows "chunks n xs = [xs]"
proof -
  have "0 < n" using assms by (cases xs) auto
  with assms show ?thesis by (simp add: chunks_step)
qed

text \<open>The batches that a run with a given sink offers, in order, up to the first failure.\<close>

fun offer :: "'k ChangeSink \<Rightarrow> ChangeBatch list \<Rightarrow> 'k \<Rightarrow> bool \<times> 'k" where
  "offer snk [] k = (True, k)"
| "offer snk (b # bs) k =
     (case snk k b of (Some e, k') \<Rightarrow> (False, k') | (None, k') \<Rightarrow> offer snk bs k')"

lemma deliver_from:
  assumes "0 < n" and "b_limit b = int n" and "length (b_pending b) \<le> n" and "b_sequence b = of_nat s"
  shows "(case for_each (Add_event (Some snk)) events (b, k) of
       (Some err, b', k') \<Rightarrow> (False, k')
     | (None, b', k') \<Rightarrow> (case Finish (Some snk) (b', k') of (err, _, k'') \<Rightarrow> (err = None, k''))) =
   offer snk (numbered (b_sessionID b) (b_generation b) s (chunks n (b_pending b @ events))) k"
  using assms(2-)
proof (induction events arbitrary: b k s)
  case Nil
  show ?case
  proof (cases "b_pending b = []")
    case True
    then show ?thesis by (simp add: Finish_def)
  next
    case False
    with Nil show ?thesis
      by (auto simp: Finish_def flush_def batch_of_def chunks_short numbered_Cons split: prod.splits option.splits)
  qed
next
  case (Cons ev events)
  show ?case
  proof (cases "length (b_pending b) = n")
    case False
    let ?b = "b\<lparr>b_pending := b_pending b @ [ev]\<rparr>"
    have "Add_event (Some snk) ev (b, k) = (None, ?b, k)"
      using False Cons.prems by (simp add: Add_event_def)
    moreover have "length (b_pending ?b) \<le> n" using False Cons.prems(2) by simp
    ultimately show ?thesis
      using Cons.IH [of ?b s k] Cons.prems by simp
  next
    case True
    have ch: "chunks n (b_pending b @ ev # events) = b_pending b # chunks n (ev # events)"
      using True assms(1) by (intro chunks_full) auto
    have ne: "chunks n (ev # events) \<noteq> []"
      using assms(1) by (simp add: chunks_step)
    obtain r k' where s: "snk k (batch_of b False) = (r, k')" by fastforce
    have bo: "batch_of b False = \<lparr>cb_SessionID = b_sessionID b, cb_Generation = b_generation b,
        cb_Sequence = of_nat s, cb_Final = False, cb_Events = b_pending b\<rparr>"
      by (simp add: batch_of_def Cons.prems(3))
    show ?thesis
    proof (cases r)
      case (Some e)
      with True s bo ch ne Cons.prems show ?thesis
        by (simp add: Add_event_def flush_def numbered_Cons)
    next
      case None
      let ?b = "b\<lparr>b_sequence := b_sequence b + 1, b_pending := [ev]\<rparr>"
      have "Add_event (Some snk) ev (b, k) = (None, ?b, k')"
        using True None s Cons.prems by (simp add: Add_event_def flush_def)
      moreover have "length (b_pending ?b) \<le> n" using assms(1) by simp
      moreover have "b_sequence ?b = of_nat (Suc s)" using Cons.prems(3) by simp
      ultimately show ?thesis
        using Cons.IH [of ?b "Suc s" k'] Cons.prems(1) None s bo ch ne
        by (simp add: numbered_Cons)
    qed
  qed
qed

lemma deliver_offer:
  assumes "0 < n"
  shows "(case deliver (Some snk) sid gen (int n) events k of (err, k') \<Rightarrow> (err = None, k')) =
    offer snk (batches sid gen n events) k"
  using deliver_from [OF assms, of "newChangeBatcher sid gen (int n)" 0 snk events k]
  by (auto simp: deliver_def newChangeBatcher_def batches_numbered split: prod.splits option.splits)

lemma offer_log:
  "\<exists>m \<le> length bs. snd (offer (log_sink fails) bs log) = log @ take m bs \<and>
     (fst (offer (log_sink fails) bs log) \<longrightarrow> m = length bs)"
proof (induction bs arbitrary: log)
  case (Cons b bs)
  show ?case
  proof (cases "fails log b")
    case None
    from Cons [of "log @ [b]"] obtain m where "m \<le> length bs"
      "snd (offer (log_sink fails) bs (log @ [b])) = (log @ [b]) @ take m bs"
      "fst (offer (log_sink fails) bs (log @ [b])) \<longrightarrow> m = length bs" by blast
    moreover have "offer (log_sink fails) (b # bs) log = offer (log_sink fails) bs (log @ [b])"
      by (simp only: offer.simps log_sink.simps None prod.case option.case)
    ultimately show ?thesis by (intro exI [of _ "Suc m"]) (simp del: offer.simps)
  next
    case (Some e)
    have "offer (log_sink fails) (b # bs) log = (False, log @ [b])"
      by (simp only: offer.simps log_sink.simps Some prod.case option.case)
    then show ?thesis by (intro exI [of _ 1]) (simp del: offer.simps)
  qed
qed simp


section \<open>Properties\<close>

text \<open>C16: delivery hands the sink the events of a generation in order, cut into batches of at
  most the limit that are never empty, numbered 0, 1, 2 and so on, with \<open>Final\<close> on the last
  batch only; it reports success exactly when the sink accepted every one of them, and stops at
  the first refusal. The sink is arbitrary.\<close>

theorem deliver_batches:
  assumes "0 < n"
  shows "(case deliver (Some snk) sid gen (int n) events k of (err, k') \<Rightarrow> (err = None, k')) =
       offer snk (batches sid gen n events) k \<and>
     concat (map cb_Events (batches sid gen n events)) = events \<and>
     (\<forall>i < length (batches sid gen n events).
        let b = batches sid gen n events ! i in
        cb_SessionID b = sid \<and> cb_Generation b = gen \<and> cb_Sequence b = of_nat i \<and>
        (cb_Final b \<longleftrightarrow> Suc i = length (batches sid gen n events)) \<and>
        cb_Events b \<noteq> [] \<and> length (cb_Events b) \<le> n)"
proof -
  let ?cs = "chunks n events"
  have len: "length (batches sid gen n events) = length ?cs" by (simp add: batches_def Let_def)
  have ev: "map cb_Events (batches sid gen n events) = ?cs"
    by (simp add: batches_def Let_def comp_def map_nth)
  have "?cs ! i \<noteq> [] \<and> length (?cs ! i) \<le> n" if "i < length ?cs" for i
    using chunks_props [OF assms, of events] that by auto
  then show ?thesis
    using deliver_offer [OF assms, of snk sid gen events k] chunks_props [OF assms, of events] ev len
    by (auto simp: batches_def Let_def)
qed

definition ex_event :: "string \<Rightarrow> Event" where
  "ex_event p = \<lparr>ev_Kind = EventDeleted, ev_Path = p, ev_OldPath = [], ev_Before = None, ev_After = None,
     ev_Source = SourceReconcile, ev_Time = 0\<rparr>"

theorem deliver_batches_witness:
  "0 < (2::nat) \<and>
   map (\<lambda>b. (cb_Sequence b, cb_Final b, map ev_Path (cb_Events b)))
     (snd (deliver (Some (log_sink (\<lambda>_ _. None))) ''s'' 7 2 (map ex_event [''a'', ''b'', ''c'']) [])) =
     [(0, False, [''a'', ''b'']), (1, True, [''c''])] \<and>
   concat (map cb_Events (batches ''s'' 7 2 (map ex_event [''a'', ''b'', ''c'']))) =
     map ex_event [''a'', ''b'', ''c'']"
proof -
  have h: "0 < (2::nat)" by simp
  have v: "map (\<lambda>b. (cb_Sequence b, cb_Final b, map ev_Path (cb_Events b)))
     (snd (deliver (Some (log_sink (\<lambda>_ _. None))) ''s'' 7 2 (map ex_event [''a'', ''b'', ''c'']) [])) =
     [(0, False, [''a'', ''b'']), (1, True, [''c''])]" by code_simp
  show ?thesis
    using h v deliver_batches [OF h, of "log_sink (\<lambda>_ _. None)" "''s''" 7 "map ex_event [''a'', ''b'', ''c'']" "[]"]
    by blast
qed

end
