(* ===== verification/Snapshot_Spec.thy ===== *)
theory Snapshot_Spec
  imports Core_Types
begin

text \<open>
  The interface \<open>SnapshotStore\<close> of \<open>store.go\<close> with its optional extensions
  \<open>ScopedSnapshotStore\<close> and \<open>BatchSnapshotStore\<close>: the record of its operations, as
  \<open>Tracker\<close> calls them, and its laws as the locales \<open>snapshot_kv\<close> (lookups and atomic
  writes) and \<open>scoped_snapshot\<close> (the walk of a subtree). The client lemmas are those of the
  tracker: the commit of one reconciliation, in one batch or operation by operation, and the
  collection of the previous state of a list of scopes.
\<close>

section \<open>The interface\<close>

type_synonym 'a callback = "FileState \<Rightarrow> 'a \<Rightarrow> GoError option \<times> 'a"

text \<open>
  The state of the store is a type parameter, and so is what the callback of a walk accumulates.
  \<open>None\<close> says that the store does not implement the optional interface.
\<close>

record ('s, 'a) SnapshotStore =
  ss_Get :: "Ctx \<Rightarrow> 's \<Rightarrow> string \<Rightarrow> GoError + FileState option"
  ss_Put :: "Ctx \<Rightarrow> FileState \<Rightarrow> 's \<Rightarrow> GoError option \<times> 's"
  ss_Delete :: "Ctx \<Rightarrow> string \<Rightarrow> 's \<Rightarrow> GoError option \<times> 's"
  ss_Walk :: "Ctx \<Rightarrow> 's \<Rightarrow> string \<Rightarrow> 'a callback \<Rightarrow> 'a \<Rightarrow> GoError option \<times> 'a"
  ss_WalkScope :: "(Ctx \<Rightarrow> 's \<Rightarrow> string \<Rightarrow> 'a callback \<Rightarrow> 'a \<Rightarrow> GoError option \<times> 'a) option"
  ss_Apply :: "(Ctx \<Rightarrow> FileState list \<Rightarrow> string list \<Rightarrow> 's \<Rightarrow> GoError option \<times> 's) option"

text \<open>\<open>walkSnapshotScope\<close> of \<open>reconcile.go\<close>.\<close>

definition walkSnapshotScope ::
  "Ctx \<Rightarrow> ('s, 'a) SnapshotStore \<Rightarrow> 's \<Rightarrow> string \<Rightarrow> 'a callback \<Rightarrow> 'a \<Rightarrow> GoError option \<times> 'a" where
  "walkSnapshotScope ctx store s scope fn a =
     (case ss_WalkScope store of
        Some walk \<Rightarrow> walk ctx s scope fn a
      | None \<Rightarrow> ss_Walk store ctx s scope fn a)"

section \<open>Writes on maps\<close>

definition put_map :: "FileState \<Rightarrow> (string \<rightharpoonup> FileState) \<Rightarrow> (string \<rightharpoonup> FileState)" where
  "put_map st m = m(st_Path st \<mapsto> st)"

definition delete_map :: "string \<Rightarrow> (string \<rightharpoonup> FileState) \<Rightarrow> (string \<rightharpoonup> FileState)" where
  "delete_map p m = m(p := None)"

definition apply_map ::
  "FileState list \<Rightarrow> string list \<Rightarrow> (string \<rightharpoonup> FileState) \<Rightarrow> (string \<rightharpoonup> FileState)" where
  "apply_map puts deletes m = fold put_map puts (fold delete_map deletes m)"

definition states_within :: "(string \<rightharpoonup> FileState) \<Rightarrow> string \<Rightarrow> FileState list" where
  "states_within m scope =
     map (\<lambda>p. the (m p)) (sorted_list_of_set {p \<in> dom m. prefix (elems scope) (elems p)})"

lemma fold_delete_map: "fold delete_map ps m = m |` (- set ps)"
  by (induction ps arbitrary: m) (auto simp: delete_map_def restrict_map_def fun_eq_iff)

lemma fold_put_map: "fold put_map sts m = m ++ map_of (rev (map (\<lambda>st. (st_Path st, st)) sts))"
  by (induction sts arbitrary: m) (auto simp: put_map_def map_add_def fun_eq_iff split: option.split)

lemma map_of_states:
  assumes "distinct (map st_Path sts)"
  shows "map_of (rev (map (\<lambda>st. (st_Path st, st)) sts)) = map_of (map (\<lambda>st. (st_Path st, st)) sts)"
  using assms by (intro map_of_inject_set [THEN iffD2]) (auto simp: comp_def simp flip: rev_map)

text \<open>
  The writes of one reconciliation: the observed states of a part of the tree are put, and the
  recorded paths of that part that were not observed are deleted. Inside the part the snapshot
  becomes what was observed, outside it is unchanged.
\<close>

lemma apply_map_commit:
  assumes "\<And>st. st \<in> set puts \<longleftrightarrow> actual (st_Path st) = Some st"
    and "\<And>p st. actual p = Some st \<Longrightarrow> st_Path st = p"
    and "distinct (map st_Path puts)"
    and "\<And>p. p \<in> set deletes \<longleftrightarrow> p \<in> part \<and> p \<in> dom m \<and> actual p = None"
  shows "apply_map puts deletes m p =
    (if p \<in> dom actual then actual p else if p \<in> part then None else m p)"
proof -
  have puts: "map_of (rev (map (\<lambda>st. (st_Path st, st)) puts)) p = actual p"
  proof (cases "actual p")
    case (Some st)
    have path: "st_Path st = p" by (rule assms(2) [OF Some])
    with Some have "st \<in> set puts" by (simp only: assms(1))
    with path have "(p, st) \<in> set (map (\<lambda>st. (st_Path st, st)) puts)" by force
    with Some show ?thesis
      using assms(3) unfolding map_of_states [OF assms(3)] by (simp add: comp_def)
  next
    case None
    then have "p \<notin> st_Path ` set puts" using assms(1) by auto
    with None show ?thesis unfolding map_of_states [OF assms(3)] by (auto simp: map_of_eq_None_iff)
  qed
  have "apply_map puts deletes m = m |` (- set deletes) ++ map_of (rev (map (\<lambda>st. (st_Path st, st)) puts))"
    by (simp add: apply_map_def fold_put_map fold_delete_map)
  then show ?thesis
    using puts assms(4) [of p] by (auto simp: map_add_def restrict_map_def dom_def split: option.splits)
qed

section \<open>Laws\<close>

text \<open>
  A store with an invariant, the map it stands for and the states it can hold. A write either
  succeeds and has its effect on the map, or fails and leaves the map as it was.
\<close>

locale snapshot_kv =
  fixes admissible :: "FileState \<Rightarrow> bool"
    and invar :: "'s \<Rightarrow> bool"
    and lookup :: "'s \<Rightarrow> string \<rightharpoonup> FileState"
    and get :: "Ctx \<Rightarrow> 's \<Rightarrow> string \<Rightarrow> GoError + FileState option"
    and put :: "Ctx \<Rightarrow> FileState \<Rightarrow> 's \<Rightarrow> GoError option \<times> 's"
    and delete :: "Ctx \<Rightarrow> string \<Rightarrow> 's \<Rightarrow> GoError option \<times> 's"
    and batch :: "Ctx \<Rightarrow> FileState list \<Rightarrow> string list \<Rightarrow> 's \<Rightarrow> GoError option \<times> 's"
  assumes get_lookup: "invar s \<Longrightarrow> get ctx s p = Inr r \<Longrightarrow> r = lookup s p"
    and put_invar: "invar s \<Longrightarrow> admissible st \<Longrightarrow> invar (snd (put ctx st s))"
    and put_lookup: "invar s \<Longrightarrow> admissible st \<Longrightarrow> put ctx st s = (err, s') \<Longrightarrow>
      lookup s' = (if err = None then put_map st (lookup s) else lookup s)"
    and delete_invar: "invar s \<Longrightarrow> canonical p \<Longrightarrow> invar (snd (delete ctx p s))"
    and delete_lookup: "invar s \<Longrightarrow> canonical p \<Longrightarrow> delete ctx p s = (err, s') \<Longrightarrow>
      lookup s' = (if err = None then delete_map p (lookup s) else lookup s)"
    and batch_invar: "invar s \<Longrightarrow> list_all admissible puts \<Longrightarrow> list_all canonical deletes \<Longrightarrow>
      invar (snd (batch ctx puts deletes s))"
    and batch_lookup: "invar s \<Longrightarrow> list_all admissible puts \<Longrightarrow> list_all canonical deletes \<Longrightarrow>
      batch ctx puts deletes s = (err, s') \<Longrightarrow>
      lookup s' = (if err = None then apply_map puts deletes (lookup s) else lookup s)"
begin

lemma get_after_put:
  assumes "invar s" and "admissible st" and "put ctx st s = (None, s')" and "get ctx' s' (st_Path st) = Inr r"
  shows "r = Some st"
  using get_lookup [OF _ assms(4)] put_invar [OF assms(1,2), of ctx] put_lookup [OF assms(1-3)] assms(3)
  by (simp add: put_map_def)

lemma delete_loop:
  assumes "invar s" and "list_all canonical ps"
    and "for_each (\<lambda>p s. case delete (ctx p) p s of (Some e, s') \<Rightarrow> (Some (wrap p e), s') | (None, s') \<Rightarrow> (None, s')) ps s = (None, s')"
  shows "invar s' \<and> lookup s' = fold delete_map ps (lookup s)"
  using assms
proof (induction ps arbitrary: s)
  case (Cons p ps)
  obtain r s1 where d: "delete (ctx p) p s = (r, s1)" by fastforce
  with Cons.prems(3) have r: "r = None" by (auto split: option.splits)
  have "invar s1" using delete_invar [OF Cons.prems(1), of p "ctx p"] Cons.prems(2) d by simp
  moreover have "lookup s1 = delete_map p (lookup s)"
    using delete_lookup [OF Cons.prems(1) _ d] Cons.prems(2) r by simp
  ultimately show ?case using Cons d r by simp
qed simp

lemma put_loop:
  assumes "invar s" and "list_all admissible sts"
    and "for_each (\<lambda>st s. case put (ctx st) st s of (Some e, s') \<Rightarrow> (Some (wrap st e), s') | (None, s') \<Rightarrow> (None, s')) sts s = (None, s')"
  shows "invar s' \<and> lookup s' = fold put_map sts (lookup s)"
  using assms
proof (induction sts arbitrary: s)
  case (Cons st sts)
  obtain r s1 where d: "put (ctx st) st s = (r, s1)" by fastforce
  with Cons.prems(3) have r: "r = None" by (auto split: option.splits)
  have "invar s1" using put_invar [OF Cons.prems(1), of st "ctx st"] Cons.prems(2) d by simp
  moreover have "lookup s1 = put_map st (lookup s)"
    using put_lookup [OF Cons.prems(1) _ d] Cons.prems(2) r by simp
  ultimately show ?case using Cons d r by simp
qed simp

end

text \<open>The walk of a subtree: the recorded states at and below the scope, in path order.\<close>

locale scoped_snapshot = snapshot_kv admissible invar lookup get put delete batch
  for admissible :: "FileState \<Rightarrow> bool"
    and invar :: "'s \<Rightarrow> bool"
    and lookup :: "'s \<Rightarrow> string \<rightharpoonup> FileState"
    and get :: "Ctx \<Rightarrow> 's \<Rightarrow> string \<Rightarrow> GoError + FileState option"
    and put :: "Ctx \<Rightarrow> FileState \<Rightarrow> 's \<Rightarrow> GoError option \<times> 's"
    and delete :: "Ctx \<Rightarrow> string \<Rightarrow> 's \<Rightarrow> GoError option \<times> 's"
    and batch :: "Ctx \<Rightarrow> FileState list \<Rightarrow> string list \<Rightarrow> 's \<Rightarrow> GoError option \<times> 's" +
  fixes walk :: "Ctx \<Rightarrow> 's \<Rightarrow> string \<Rightarrow> 'a callback \<Rightarrow> 'a \<Rightarrow> GoError option \<times> 'a"
  assumes lookup_finite: "invar s \<Longrightarrow> finite (dom (lookup s))"
    and lookup_path: "invar s \<Longrightarrow> lookup s p = Some st \<Longrightarrow> canonical p \<and> st_Path st = p"
    and walk_states: "invar s \<Longrightarrow> canonical scope \<Longrightarrow>
      walk ctx s scope (\<lambda>st a. (None, step st a)) a = (None, a') \<Longrightarrow>
      a' = fold step (states_within (lookup s) scope) a"
begin

lemma set_states_within:
  assumes "invar s"
  shows "st \<in> set (states_within (lookup s) scope) \<longleftrightarrow>
    lookup s (st_Path st) = Some st \<and> prefix (elems scope) (elems (st_Path st))"
proof -
  let ?S = "{p \<in> dom (lookup s). prefix (elems scope) (elems p)}"
  have "set (states_within (lookup s) scope) = (\<lambda>p. the (lookup s p)) ` ?S"
    using lookup_finite [OF assms] by (simp add: states_within_def)
  moreover have "st \<in> (\<lambda>p. the (lookup s p)) ` ?S \<longleftrightarrow>
      (\<exists>p. lookup s p = Some st \<and> prefix (elems scope) (elems p))"
    by force
  ultimately show ?thesis using lookup_path [OF assms] by metis
qed

end

text \<open>
  Collecting states into a Go map keyed by their path, as \<open>previous[state.Path] = state\<close>.
\<close>

definition record_state :: "FileState \<Rightarrow> FileState gomap \<Rightarrow> FileState gomap" where
  "record_state st m = AList.update (st_Path st) st m"

lemma map_of_record_states:
  "map_of (fold record_state sts m) = fold put_map sts (map_of m)"
  by (induction sts arbitrary: m) (simp_all add: record_state_def put_map_def gomap_simps)

lemma gomap_ok_record_states: "gomap_ok m \<Longrightarrow> gomap_ok (fold record_state sts m)"
  by (induction sts arbitrary: m) (simp_all add: record_state_def)

end
