(* ===== verification/Memory_Store.thy ===== *)
theory Memory_Store
  imports Snapshot_Spec
begin

text \<open>
  \<open>store.go\<close>: the in-memory snapshot store, a map of states and a trie of their paths. The
  mutex makes every method atomic, so a method is one function from store to store. A nil entries
  map reads as the empty map, and \<open>ensureInitialized\<close> precedes every write. The store
  invariant ties the trie to the map; with it the store meets the laws of
  \<open>Snapshot_Spec\<close>.
\<close>

section \<open>Data and operations\<close>

datatype memoryPathNode =
  PNode (terminal: bool) (npath: string) (nchildren: "(string \<times> memoryPathNode) list")

record MemoryStore =
  ms_entries :: "FileState gomap"
  ms_paths :: memoryPathNode

definition empty_node :: memoryPathNode where
  "empty_node = PNode False [] []"

definition NewMemoryStore :: MemoryStore where
  "NewMemoryStore = \<lparr>ms_entries = [], ms_paths = empty_node\<rparr>"

fun node_insert :: "string list \<Rightarrow> string \<Rightarrow> memoryPathNode \<Rightarrow> memoryPathNode" where
  "node_insert [] path (PNode t p cs) = PNode True path cs"
| "node_insert (part # parts) path (PNode t p cs) =
     (let child = (case map_of cs part of None \<Rightarrow> empty_node | Some c \<Rightarrow> c) in
      PNode t p (AList.update part (node_insert parts path child) cs))"

fun node_find :: "string list \<Rightarrow> memoryPathNode \<Rightarrow> memoryPathNode option" where
  "node_find [] n = Some n"
| "node_find (part # parts) (PNode t p cs) =
     (case map_of cs part of None \<Rightarrow> None | Some c \<Rightarrow> node_find parts c)"

text \<open>The result says whether the caller drops the node.\<close>

fun removeMemoryPath :: "string list \<Rightarrow> memoryPathNode \<Rightarrow> bool \<times> memoryPathNode" where
  "removeMemoryPath [] (PNode t p cs) = (cs = [], PNode False [] cs)"
| "removeMemoryPath (part # parts) (PNode t p cs) =
     (case map_of cs part of
        None \<Rightarrow> (False, PNode t p cs)
      | Some child \<Rightarrow>
          (case removeMemoryPath parts child of
             (drop_child, child') \<Rightarrow>
               let cs' = (if drop_child then AList.delete part cs else AList.update part child' cs)
               in (\<not> t \<and> cs' = [], PNode t p cs')))"

definition node_remove :: "string list \<Rightarrow> memoryPathNode \<Rightarrow> memoryPathNode" where
  "node_remove parts n = snd (removeMemoryPath parts n)"

fun node_collect :: "memoryPathNode \<Rightarrow> string list" where
  "node_collect (PNode t p cs) =
     (if t then [p] else []) @ concat (map (\<lambda>(name, child). node_collect child) cs)"

definition ms_Get :: "Ctx \<Rightarrow> MemoryStore \<Rightarrow> string \<Rightarrow> GoError + FileState option" where
  "ms_Get ctx s path =
     (case ctx PollEnter of Some err \<Rightarrow> Inl err | None \<Rightarrow> Inr (map_of (ms_entries s) path))"

definition put_entry :: "FileState \<Rightarrow> MemoryStore \<Rightarrow> MemoryStore" where
  "put_entry state s =
     s\<lparr>ms_paths :=
         (if map_of (ms_entries s) (st_Path state) = None
          then node_insert (pathParts (st_Path state)) (st_Path state) (ms_paths s)
          else ms_paths s),
       ms_entries := AList.update (st_Path state) state (ms_entries s)\<rparr>"

definition delete_entry :: "string \<Rightarrow> MemoryStore \<Rightarrow> MemoryStore" where
  "delete_entry path s =
     s\<lparr>ms_entries := AList.delete path (ms_entries s),
       ms_paths := node_remove (pathParts path) (ms_paths s)\<rparr>"

definition ms_Put :: "Ctx \<Rightarrow> FileState \<Rightarrow> MemoryStore \<Rightarrow> GoError option \<times> MemoryStore" where
  "ms_Put ctx state s =
     (case ctx PollEnter of Some err \<Rightarrow> (Some err, s) | None \<Rightarrow> (None, put_entry state s))"

definition ms_Delete :: "Ctx \<Rightarrow> string \<Rightarrow> MemoryStore \<Rightarrow> GoError option \<times> MemoryStore" where
  "ms_Delete ctx path s =
     (case ctx PollEnter of Some err \<Rightarrow> (Some err, s) | None \<Rightarrow> (None, delete_entry path s))"

text \<open>The states that \<open>WalkScope\<close> copies out under the lock, in path order.\<close>

definition scope_states :: "MemoryStore \<Rightarrow> string \<Rightarrow> FileState list" where
  "scope_states s scope =
     (case node_find (pathParts scope) (ms_paths s) of
        None \<Rightarrow> []
      | Some node \<Rightarrow>
          map (\<lambda>path. case map_of (ms_entries s) path of None \<Rightarrow> zero_FileState | Some st \<Rightarrow> st)
            (sort (node_collect node)))"

definition ms_WalkScope ::
  "Ctx \<Rightarrow> MemoryStore \<Rightarrow> string \<Rightarrow> (FileState \<Rightarrow> 'a \<Rightarrow> GoError option \<times> 'a) \<Rightarrow> 'a \<Rightarrow> GoError option \<times> 'a" where
  "ms_WalkScope ctx s scope fn a =
     (case ctx PollEnter of
        Some err \<Rightarrow> (Some err, a)
      | None \<Rightarrow>
          for_each
            (\<lambda>(i, state) a. case ctx (PollIter i) of Some err \<Rightarrow> (Some err, a) | None \<Rightarrow> fn state a)
            (zip [0..<length (scope_states s scope)] (scope_states s scope)) a)"

definition ms_Walk ::
  "Ctx \<Rightarrow> MemoryStore \<Rightarrow> string \<Rightarrow> (FileState \<Rightarrow> 'a \<Rightarrow> GoError option \<times> 'a) \<Rightarrow> 'a \<Rightarrow> GoError option \<times> 'a" where
  "ms_Walk ctx s pre fn a = ms_WalkScope ctx s pre fn a"

definition ms_Apply ::
  "Ctx \<Rightarrow> FileState list \<Rightarrow> string list \<Rightarrow> MemoryStore \<Rightarrow> GoError option \<times> MemoryStore" where
  "ms_Apply ctx puts deletes s =
     (case ctx PollEnter of
        Some err \<Rightarrow> (Some err, s)
      | None \<Rightarrow> (None, fold put_entry puts (fold delete_entry deletes s)))"

section \<open>The trie as a set of labelled paths\<close>

lemma pnode_induct [case_names PNode]:
  "(\<And>t p cs. (\<And>k c. (k, c) \<in> set cs \<Longrightarrow> P c) \<Longrightarrow> P (PNode t p cs)) \<Longrightarrow> P n"
  by induction_schema (pat_completeness, lexicographic_order)

fun node_terms :: "memoryPathNode \<Rightarrow> string list \<rightharpoonup> string" where
  "node_terms (PNode t p cs) [] = (if t then Some p else None)"
| "node_terms (PNode t p cs) (k # ks) =
     (case map_of cs k of None \<Rightarrow> None | Some c \<Rightarrow> node_terms c ks)"

text \<open>Child maps are maps, and every subtree below the root holds a terminal node.\<close>

fun node_live :: "memoryPathNode \<Rightarrow> bool" where
  "node_live (PNode t p cs) =
     (gomap_ok cs \<and> (\<forall>(k, c) \<in> set cs. node_live c \<and> (\<exists>ks. node_terms c ks \<noteq> None)))"

lemma node_terms_empty [simp]: "node_terms empty_node ks = None"
  by (cases ks) (auto simp: empty_node_def)

lemma node_live_empty [simp]: "node_live empty_node"
  by (simp add: empty_node_def)

lemma node_terms_insert:
  "node_terms (node_insert parts path n) = (node_terms n)(parts \<mapsto> path)"
proof (induction parts path n rule: node_insert.induct)
  case (1 path t p cs)
  show ?case by (rule ext, rename_tac ks, case_tac ks) auto
next
  case (2 part parts path t p cs)
  show ?case
    by (rule ext, rename_tac ks, case_tac ks) (auto simp: 2 gomap_simps split: option.splits)
qed

lemma node_live_insert: "node_live n \<Longrightarrow> node_live (node_insert parts path n)"
proof (induction parts path n rule: node_insert.induct)
  case (2 part parts path t p cs)
  let ?child = "case map_of cs part of None \<Rightarrow> empty_node | Some c \<Rightarrow> c"
  have "node_live ?child" using 2 by (auto split: option.splits dest!: map_of_SomeD)
  then have "node_live (node_insert parts path ?child)" using 2 by blast
  moreover have "node_terms (node_insert parts path ?child) parts \<noteq> None"
    by (simp add: node_terms_insert)
  ultimately show ?case using 2 by (auto simp: Let_def dest!: in_set_updateD)
qed auto

lemma node_terms_find:
  "(case node_find parts n of None \<Rightarrow> None | Some m \<Rightarrow> node_terms m ks) = node_terms n (parts @ ks)"
  by (induction parts n rule: node_find.induct) (auto split: option.splits)

lemma node_live_find: "node_live n \<Longrightarrow> node_find parts n = Some m \<Longrightarrow> node_live m"
  by (induction parts n rule: node_find.induct) (auto split: option.splits dest!: map_of_SomeD)

lemma node_terms_None_iff:
  assumes "node_live (PNode t p cs)"
  shows "(\<forall>ks. node_terms (PNode t p cs) ks = None) \<longleftrightarrow> \<not> t \<and> cs = []"
proof
  assume none: "\<forall>ks. node_terms (PNode t p cs) ks = None"
  then have "\<not> t" using none [rule_format, of "[]"] by (simp split: if_splits)
  moreover have "cs = []"
  proof (rule ccontr)
    assume "cs \<noteq> []"
    then obtain k c where kc: "(k, c) \<in> set cs" by (metis list.set_intros(1) neq_Nil_conv surj_pair)
    with assms obtain ks where "node_terms c ks \<noteq> None" and "map_of cs k = Some c" by fastforce
    with none [rule_format, of "k # ks"] show False by simp
  qed
  ultimately show "\<not> t \<and> cs = []" ..
next
  assume "\<not> t \<and> cs = []"
  then show "\<forall>ks. node_terms (PNode t p cs) ks = None"
    by (intro allI, rename_tac ks, case_tac ks) auto
qed

lemma removeMemoryPath_spec:
  assumes "node_live n"
  shows "node_live (snd (removeMemoryPath parts n)) \<and>
    node_terms (snd (removeMemoryPath parts n)) = (node_terms n)(parts := None) \<and>
    ((\<exists>ks. node_terms n ks \<noteq> None) \<longrightarrow>
      (fst (removeMemoryPath parts n) \<longleftrightarrow> (\<forall>ks. node_terms (snd (removeMemoryPath parts n)) ks = None)))"
  using assms
proof (induction parts n rule: removeMemoryPath.induct)
  case (1 t p cs)
  have live: "node_live (PNode False [] cs)" using 1 by simp
  have "node_terms (PNode False [] cs) ks = ((node_terms (PNode t p cs))([] := None)) ks" for ks
    by (cases ks) auto
  then have terms: "node_terms (PNode False [] cs) = (node_terms (PNode t p cs))([] := None)"
    by (rule ext)
  show ?case
    unfolding removeMemoryPath.simps fst_conv snd_conv terms [symmetric] node_terms_None_iff [OF live]
    using live by simp
next
  case (2 part parts t p cs)
  show ?case
  proof (cases "map_of cs part")
    case None
    have "node_terms (PNode t p cs) = (node_terms (PNode t p cs))(part # parts := None)"
      using None by (auto simp: fun_eq_iff)
    with None 2 show ?thesis by (auto simp: fun_eq_iff)
  next
    case (Some child)
    then have kc: "(part, child) \<in> set cs" by (rule map_of_SomeD)
    with 2 have live: "node_live child" "\<exists>ks. node_terms child ks \<noteq> None" by auto
    obtain d child' where r: "removeMemoryPath parts child = (d, child')" by fastforce
    have IH: "node_live child'" "node_terms child' = (node_terms child)(parts := None)"
      "d \<longleftrightarrow> (\<forall>ks. node_terms child' ks = None)"
      using 2 Some live r by auto
    let ?cs = "if d then AList.delete part cs else AList.update part child' cs"
    have res: "removeMemoryPath (part # parts) (PNode t p cs) = (\<not> t \<and> ?cs = [], PNode t p ?cs)"
      using Some r by (simp add: Let_def)
    have ok: "node_live (PNode t p ?cs)"
      using 2(2) IH(1,3) by (auto dest!: in_set_updateD in_set_deleteD)
    have "node_terms (PNode t p ?cs) ks = ((node_terms (PNode t p cs))(part # parts := None)) ks" for ks
      using Some IH by (cases ks) (auto simp: gomap_simps)
    then have terms: "node_terms (PNode t p ?cs) = (node_terms (PNode t p cs))(part # parts := None)"
      by (rule ext)
    show ?thesis
      unfolding res fst_conv snd_conv terms [symmetric] node_terms_None_iff [OF ok] using ok by simp
  qed
qed

lemma set_node_collect: "node_live n \<Longrightarrow> set (node_collect n) = ran (node_terms n)"
proof (induction n rule: pnode_induct)
  case (PNode t p cs)
  have IH: "set (node_collect c) = ran (node_terms c)" if "(k, c) \<in> set cs" for k c
    using PNode that by auto
  have m: "(k, c) \<in> set cs \<longleftrightarrow> map_of cs k = Some c" for k c using PNode.prems by simp
  have "q \<in> ran (node_terms (PNode t p cs)) \<longleftrightarrow>
      (t \<and> q = p) \<or> (\<exists>k c. (k, c) \<in> set cs \<and> q \<in> ran (node_terms c))" for q
  proof
    assume "q \<in> ran (node_terms (PNode t p cs))"
    then obtain ks where "node_terms (PNode t p cs) ks = Some q" by (auto simp: ran_def)
    then show "(t \<and> q = p) \<or> (\<exists>k c. (k, c) \<in> set cs \<and> q \<in> ran (node_terms c))"
      using m by (cases ks) (auto simp: ran_def split: if_splits option.splits)
  next
    assume "(t \<and> q = p) \<or> (\<exists>k c. (k, c) \<in> set cs \<and> q \<in> ran (node_terms c))"
    then show "q \<in> ran (node_terms (PNode t p cs))"
    proof
      assume "t \<and> q = p"
      then have "node_terms (PNode t p cs) [] = Some q" by simp
      then show ?thesis by (rule ranI)
    next
      assume "\<exists>k c. (k, c) \<in> set cs \<and> q \<in> ran (node_terms c)"
      then obtain k c ks where "map_of cs k = Some c" "node_terms c ks = Some q"
        using m by (auto simp: ran_def)
      then have "node_terms (PNode t p cs) (k # ks) = Some q" by simp
      then show ?thesis by (rule ranI)
    qed
  qed
  moreover have "q \<in> set (node_collect (PNode t p cs)) \<longleftrightarrow>
      (t \<and> q = p) \<or> (\<exists>k c. (k, c) \<in> set cs \<and> q \<in> set (node_collect c))" for q
    by force
  ultimately show ?case using IH by (simp only: set_eq_iff) metis
qed


lemma distinct_node_collect:
  assumes "node_live n" and "\<And>ks ks' q. node_terms n ks = Some q \<Longrightarrow> node_terms n ks' = Some q \<Longrightarrow> ks = ks'"
  shows "distinct (node_collect n)"
  using assms
proof (induction n rule: pnode_induct)
  case (PNode t p cs)
  have live: "node_live c" if "(k, c) \<in> set cs" for k c using PNode.prems(1) that by auto
  have m: "map_of cs k = Some c" if "(k, c) \<in> set cs" for k c using PNode.prems(1) that by simp
  have child: "node_terms (PNode t p cs) (k # ks) = node_terms c ks" if "(k, c) \<in> set cs" for k c ks
    using m [OF that] by simp
  have d: "distinct (node_collect c)" if kc: "(k, c) \<in> set cs" for k c
  proof (rule PNode.IH [OF kc live [OF kc]])
    fix ks ks' q
    assume "node_terms c ks = Some q" and "node_terms c ks' = Some q"
    then show "ks = ks'"
      using PNode.prems(2) [of "k # ks" q "k # ks'"] child [OF kc] by simp
  qed
  have "distinct (concat (map (\<lambda>(name, child). node_collect child) cs))"
  proof (rule distinct_concat_map)
    show "distinct cs" using PNode.prems(1) by (simp add: distinct_map)
    fix x y z
    assume x: "x \<in> set cs" and y: "y \<in> set cs"
      and zx: "z \<in> set (case x of (name, child) \<Rightarrow> node_collect child)"
      and zy: "z \<in> set (case y of (name, child) \<Rightarrow> node_collect child)"
    obtain k c k' c' where xy: "x = (k, c)" "y = (k', c')" by fastforce
    from zx zy x y xy obtain ks ks' where "node_terms c ks = Some z" "node_terms c' ks' = Some z"
      using set_node_collect [OF live] by (auto simp: ran_def)
    with x y xy have "k # ks = k' # ks'"
      using PNode.prems(2) [of "k # ks" z "k' # ks'"] child by auto
    with x y xy m show "x = y" by (metis list.inject option.inject)
  qed (use d in auto)
  moreover have "p \<notin> set (concat (map (\<lambda>(name, child). node_collect child) cs))" if t
  proof
    assume "p \<in> set (concat (map (\<lambda>(name, child). node_collect child) cs))"
    then obtain k c where kc: "(k, c) \<in> set cs" and "p \<in> set (node_collect c)" by auto
    then obtain ks where "node_terms c ks = Some p"
      using set_node_collect [OF live [OF kc]] by (auto simp: ran_def)
    with kc that PNode.prems(2) [of "k # ks" p "[]"] child [OF kc] show False by simp
  qed
  ultimately show ?case by simp
qed

section \<open>The store invariant\<close>

definition store_ok :: "MemoryStore \<Rightarrow> bool" where
  "store_ok s =
     (gomap_ok (ms_entries s) \<and> node_live (ms_paths s) \<and>
      (\<forall>k st. map_of (ms_entries s) k = Some st \<longrightarrow> canonical k \<and> st_Path st = k) \<and>
      (\<forall>ks p. node_terms (ms_paths s) ks = Some p \<longleftrightarrow>
         (\<exists>st. map_of (ms_entries s) p = Some st) \<and> ks = pathParts p))"

abbreviation ms_lookup :: "MemoryStore \<Rightarrow> string \<rightharpoonup> FileState" where
  "ms_lookup s \<equiv> map_of (ms_entries s)"

lemma store_ok_New: "store_ok NewMemoryStore"
  by (simp add: store_ok_def NewMemoryStore_def)

lemma store_okD:
  assumes "store_ok s"
  shows "gomap_ok (ms_entries s)" "node_live (ms_paths s)"
    "ms_lookup s k = Some st \<Longrightarrow> canonical k" "ms_lookup s k = Some st \<Longrightarrow> st_Path st = k"
    "node_terms (ms_paths s) ks = Some p \<longleftrightarrow> (\<exists>st. ms_lookup s p = Some st) \<and> ks = pathParts p"
  using assms unfolding store_ok_def by blast+

lemma lookup_put_entry [simp]: "ms_lookup (put_entry st s) = (ms_lookup s)(st_Path st \<mapsto> st)"
  by (simp add: put_entry_def gomap_simps)

lemma lookup_delete_entry [simp]: "ms_lookup (delete_entry p s) = (ms_lookup s)(p := None)"
  by (simp add: delete_entry_def gomap_simps)

lemma store_ok_put:
  assumes "store_ok s" and "canonical (st_Path st)"
  shows "store_ok (put_entry st s)"
proof -
  note s = store_okD [OF assms(1)]
  have live: "node_live (ms_paths (put_entry st s))"
    using s(2) by (simp add: put_entry_def node_live_insert)
  have terms: "node_terms (ms_paths (put_entry st s)) = (node_terms (ms_paths s))(pathParts (st_Path st) \<mapsto> st_Path st)"
    using s(5) [of "pathParts (st_Path st)" "st_Path st"]
    by (auto simp: put_entry_def node_terms_insert fun_eq_iff)
  have "(node_terms (ms_paths (put_entry st s)) ks = Some p) =
      ((\<exists>st'. ms_lookup (put_entry st s) p = Some st') \<and> ks = pathParts p)" for ks p
    using s(3,5) assms(2) pathParts_inject [OF assms(2), of p] by (auto simp: terms)
  then show ?thesis
    unfolding store_ok_def using s(1,3,4) live assms(2) by (simp add: put_entry_def gomap_simps)
qed

lemma store_ok_delete:
  assumes "store_ok s" and "canonical p"
  shows "store_ok (delete_entry p s)"
proof -
  note s = store_okD [OF assms(1)]
  have live: "node_live (ms_paths (delete_entry p s))"
    and terms: "node_terms (ms_paths (delete_entry p s)) = (node_terms (ms_paths s))(pathParts p := None)"
    using removeMemoryPath_spec [OF s(2), of "pathParts p"]
    by (simp_all add: delete_entry_def node_remove_def)
  have "(node_terms (ms_paths (delete_entry p s)) ks = Some q) =
      ((\<exists>st'. ms_lookup (delete_entry p s) q = Some st') \<and> ks = pathParts q)" for ks q
    using s(3,5) assms(2) pathParts_inject [OF assms(2), of q] by (auto simp: terms)
  then show ?thesis
    unfolding store_ok_def using s(1,3,4) live by (simp add: delete_entry_def gomap_simps)
qed

lemma scope_states_spec:
  assumes "store_ok s" and "canonical scope"
  shows "scope_states s scope = states_within (ms_lookup s) scope"
proof -
  note s = store_okD [OF assms(1)]
  let ?S = "{p \<in> dom (ms_lookup s). prefix (elems scope) (elems p)}"
  have below: "node_terms (ms_paths s) (pathParts scope @ ks) = Some p \<longleftrightarrow>
      p \<in> dom (ms_lookup s) \<and> elems p = elems scope @ ks" for p ks
    using s(3,5) by (auto simp: pathParts_canonical [OF assms(2)] dom_def pathParts_canonical)
  have S: "p \<in> ?S \<longleftrightarrow> (\<exists>ks. node_terms (ms_paths s) (pathParts scope @ ks) = Some p)" for p
    unfolding below by (auto simp: prefix_def)
  show ?thesis
  proof (cases "node_find (pathParts scope) (ms_paths s)")
    case None
    then have "node_terms (ms_paths s) (pathParts scope @ ks) = None" for ks
      using node_terms_find [where parts = "pathParts scope" and n = "ms_paths s" and ks = ks] by simp
    then have "?S = {}" using S by auto
    with None show ?thesis by (simp only: states_within_def scope_states_def option.case sorted_list_of_set_empty list.map)
  next
    case (Some node)
    have live: "node_live node" using s(2) Some by (rule node_live_find)
    have t: "node_terms node ks = node_terms (ms_paths s) (pathParts scope @ ks)" for ks
      using node_terms_find [where parts = "pathParts scope" and n = "ms_paths s" and ks = ks] Some by simp
    have "set (node_collect node) = ?S"
      using S t set_node_collect [OF live] by (auto simp: ran_def)
    moreover have "distinct (node_collect node)"
      by (rule distinct_node_collect [OF live]) (auto simp: t below)
    ultimately have "sort (node_collect node) = sorted_list_of_set ?S"
      using sorted_list_of_set_sort_remdups [of "node_collect node"] by (simp only: distinct_remdups_id)
    moreover have "map (\<lambda>path. case ms_lookup s path of None \<Rightarrow> zero_FileState | Some st \<Rightarrow> st)
        (sort (node_collect node)) = map (\<lambda>p. the (ms_lookup s p)) (sort (node_collect node))"
      using \<open>set (node_collect node) = ?S\<close> by (intro map_cong) (auto simp: dom_def)
    ultimately show ?thesis using Some by (simp add: states_within_def scope_states_def)
  qed
qed

lemma for_each_zip_background:
  "for_each (\<lambda>(i, state) a. case background (PollIter i) of Some err \<Rightarrow> (Some err, a) | None \<Rightarrow> fn state a)
     (zip is xs) a = for_each fn (take (length is) xs) a"
  by (induction "is" xs arbitrary: a rule: list_induct2') (auto split: prod.split option.split)

lemma ms_WalkScope_background:
  "ms_WalkScope background s scope fn a = for_each fn (scope_states s scope) a"
  using for_each_zip_background [of fn "[0..<length (scope_states s scope)]" "scope_states s scope" a]
  by (simp add: ms_WalkScope_def)

lemma for_each_zip_polls:
  assumes "for_each (\<lambda>(i, state) a. case ctx (PollIter i) of Some err \<Rightarrow> (Some err, a) | None \<Rightarrow> (None, step state a))
     (zip ns xs) a = (None, a')"
  shows "a' = fold step (take (length ns) xs) a"
  using assms
  by (induction ns xs arbitrary: a rule: list_induct2') (auto split: option.splits)

lemma walk_states_memory:
  assumes "store_ok s" and "canonical scope"
    and "ms_WalkScope ctx s scope (\<lambda>st a. (None, step st a)) a = (None, a')"
  shows "a' = fold step (states_within (ms_lookup s) scope) a"
  using assms(3) for_each_zip_polls [where ctx = ctx and step = step and a = a and a' = a' and xs = "scope_states s scope" and
      ns = "[0..<length (scope_states s scope)]"]
  by (simp add: ms_WalkScope_def scope_states_spec [OF assms(1,2)] split: option.splits)

lemma fold_delete_entry:
  assumes "store_ok s" and "list_all canonical ps"
  shows "store_ok (fold delete_entry ps s) \<and> ms_lookup (fold delete_entry ps s) = fold delete_map ps (ms_lookup s)"
  using assms by (induction ps arbitrary: s) (simp_all add: store_ok_delete delete_map_def)

lemma fold_put_entry:
  assumes "store_ok s" and "list_all (\<lambda>st. canonical (st_Path st)) sts"
  shows "store_ok (fold put_entry sts s) \<and> ms_lookup (fold put_entry sts s) = fold put_map sts (ms_lookup s)"
  using assms by (induction sts arbitrary: s) (simp_all add: store_ok_put put_map_def)

lemma ms_Apply_spec:
  assumes "store_ok s" and "list_all (\<lambda>st. canonical (st_Path st)) puts" and "list_all canonical deletes"
    and "ms_Apply ctx puts deletes s = (err, s')"
  shows "store_ok s'" and "ms_lookup s' = (if err = None then apply_map puts deletes (ms_lookup s) else ms_lookup s)"
  using assms(1,4) fold_delete_entry [OF assms(1,3)] fold_put_entry [OF _ assms(2), of "fold delete_entry deletes s"]
  by (auto simp: ms_Apply_def apply_map_def split: option.splits)

interpretation memory: scoped_snapshot "\<lambda>st. canonical (st_Path st)" store_ok ms_lookup ms_Get ms_Put ms_Delete ms_Apply ms_WalkScope
proof
  fix s :: MemoryStore and ctx p r
  assume "ms_Get ctx s p = Inr r"
  then show "r = ms_lookup s p" by (simp add: ms_Get_def split: option.splits)
next
  fix s :: MemoryStore and ctx :: Ctx and st :: FileState
  assume "store_ok s" and "canonical (st_Path st)"
  then show "store_ok (snd (ms_Put ctx st s))"
    by (simp add: ms_Put_def store_ok_put split: option.split)
next
  fix s s' :: MemoryStore and ctx :: Ctx and st :: FileState and err
  assume "ms_Put ctx st s = (err, s')"
  then show "ms_lookup s' = (if err = None then put_map st (ms_lookup s) else ms_lookup s)"
    by (auto simp: ms_Put_def put_map_def split: option.splits)
next
  fix s :: MemoryStore and ctx p
  assume "store_ok s" and "canonical p"
  then show "store_ok (snd (ms_Delete ctx p s))"
    by (simp add: ms_Delete_def store_ok_delete split: option.split)
next
  fix s s' :: MemoryStore and ctx p err
  assume "ms_Delete ctx p s = (err, s')"
  then show "ms_lookup s' = (if err = None then delete_map p (ms_lookup s) else ms_lookup s)"
    by (auto simp: ms_Delete_def delete_map_def split: option.splits)
next
  fix s :: MemoryStore and ctx :: Ctx and puts :: "FileState list" and deletes
  assume "store_ok s" "list_all (\<lambda>st. canonical (st_Path st)) puts" "list_all canonical deletes"
  then show "store_ok (snd (ms_Apply ctx puts deletes s))"
    by (rule ms_Apply_spec(1)) (rule prod.collapse [symmetric])
next
  fix s s' :: MemoryStore and ctx :: Ctx and puts :: "FileState list" and deletes err
  assume "store_ok s" "list_all (\<lambda>st. canonical (st_Path st)) puts" "list_all canonical deletes"
    "ms_Apply ctx puts deletes s = (err, s')"
  then show "ms_lookup s' = (if err = None then apply_map puts deletes (ms_lookup s) else ms_lookup s)"
    by (rule ms_Apply_spec(2))
next
  fix s :: MemoryStore
  show "finite (dom (ms_lookup s))" by (simp add: finite_dom_map_of)
next
  fix s :: MemoryStore and p st
  assume "store_ok s" and "ms_lookup s p = Some st"
  then show "canonical p \<and> st_Path st = p" using store_okD(3,4) by blast
next
  fix s :: MemoryStore and ctx scope a a' and step :: "FileState \<Rightarrow> 'a \<Rightarrow> 'a"
  assume "store_ok s" "canonical scope" "ms_WalkScope ctx s scope (\<lambda>st a. (None, step st a)) a = (None, a')"
  then show "a' = fold step (states_within (ms_lookup s) scope) a" by (rule walk_states_memory)
qed

section \<open>Properties\<close>

text \<open>The writes of the store as one step, and the same writes on a map.\<close>

datatype store_op = PutOp Ctx FileState | DeleteOp Ctx string | ApplyOp Ctx "FileState list" "string list"

primrec store_step :: "store_op \<Rightarrow> MemoryStore \<Rightarrow> MemoryStore" where
  "store_step (PutOp ctx st) s = snd (ms_Put ctx st s)"
| "store_step (DeleteOp ctx p) s = snd (ms_Delete ctx p s)"
| "store_step (ApplyOp ctx puts deletes) s = snd (ms_Apply ctx puts deletes s)"

primrec map_step :: "store_op \<Rightarrow> (string \<rightharpoonup> FileState) \<Rightarrow> (string \<rightharpoonup> FileState)" where
  "map_step (PutOp ctx st) m = (if ctx PollEnter = None then put_map st m else m)"
| "map_step (DeleteOp ctx p) m = (if ctx PollEnter = None then delete_map p m else m)"
| "map_step (ApplyOp ctx puts deletes) m = (if ctx PollEnter = None then apply_map puts deletes m else m)"

primrec op_canonical :: "store_op \<Rightarrow> bool" where
  "op_canonical (PutOp ctx st) = canonical (st_Path st)"
| "op_canonical (DeleteOp ctx p) = canonical p"
| "op_canonical (ApplyOp ctx puts deletes) =
     (list_all (\<lambda>st. canonical (st_Path st)) puts \<and> list_all canonical deletes)"

lemma store_step_refines:
  assumes "store_ok s" and "op_canonical op"
  shows "store_ok (store_step op s) \<and> ms_lookup (store_step op s) = map_step op (ms_lookup s)"
proof (cases op)
  case (ApplyOp ctx puts deletes)
  with assms have "store_ok (snd (ms_Apply ctx puts deletes s))"
    "ms_lookup (snd (ms_Apply ctx puts deletes s)) =
      (if fst (ms_Apply ctx puts deletes s) = None then apply_map puts deletes (ms_lookup s) else ms_lookup s)"
    using ms_Apply_spec [of s puts deletes ctx "fst (ms_Apply ctx puts deletes s)"] by simp_all
  with ApplyOp show ?thesis by (auto simp: ms_Apply_def split: option.splits)
qed (use assms in \<open>auto simp: ms_Put_def ms_Delete_def put_map_def delete_map_def store_ok_put store_ok_delete split: option.split\<close>)

lemma store_steps_refine:
  assumes "store_ok s" and "list_all op_canonical ops"
  shows "store_ok (fold store_step ops s) \<and> ms_lookup (fold store_step ops s) = fold map_step ops (ms_lookup s)"
  using assms by (induction ops arbitrary: s) (simp_all add: store_step_refines)

text \<open>C11: a memory store refines a map from paths to states. After any sequence of Put, Delete
  and Apply calls on clean absolute paths, each under an arbitrary context, the trie and the map
  of the store agree, a lookup finds what the calls recorded on a map (a call whose context is
  already cancelled changing nothing), and the walk of any scope visits exactly the recorded
  states at and below the scope, in path order.\<close>

theorem memory_store_refines_map:
  assumes "list_all op_canonical ops" and "canonical scope"
  shows "store_ok (fold store_step ops NewMemoryStore) \<and>
    ms_Get background (fold store_step ops NewMemoryStore) p = Inr (fold map_step ops Map.empty p) \<and>
    ms_WalkScope background (fold store_step ops NewMemoryStore) scope fn a =
      for_each fn (states_within (fold map_step ops Map.empty) scope) a"
proof -
  let ?s = "fold store_step ops NewMemoryStore"
  have ok: "store_ok ?s" and look: "ms_lookup ?s = fold map_step ops Map.empty"
    using store_steps_refine [OF store_ok_New assms(1)] by (simp_all add: NewMemoryStore_def)
  show ?thesis
    using ok by (simp add: ms_Get_def ms_WalkScope_background scope_states_spec [OF ok assms(2)] look)
qed

definition ex_file :: "string \<Rightarrow> FileState" where
  "ex_file p = zero_FileState\<lparr>st_Path := p\<rparr>"

definition ex_store_ops :: "store_op list" where
  "ex_store_ops = [ApplyOp background [ex_file ''/d/b'', ex_file ''/d/a/x'', ex_file ''/d/a'', ex_file ''/d/a-b''] [],
     PutOp (\<lambda>_. Some ContextCanceled) (ex_file ''/d/c''), DeleteOp background ''/d/b'']"

theorem memory_store_refines_map_witness:
  "list_all op_canonical ex_store_ops \<and> canonical ''/d/a'' \<and>
   store_ok (fold store_step ex_store_ops NewMemoryStore) \<and>
   ms_WalkScope background (fold store_step ex_store_ops NewMemoryStore) ''/d/a'' (\<lambda>st a. (None, a @ [st_Path st])) [] =
     (None, [''/d/a'', ''/d/a/x''])"
proof -
  have h: "list_all op_canonical ex_store_ops" "canonical ''/d/a''" by code_simp+
  have "ms_WalkScope background (fold store_step ex_store_ops NewMemoryStore) ''/d/a'' (\<lambda>st a. (None, a @ [st_Path st])) [] =
     (None, [''/d/a'', ''/d/a/x''])" by code_simp
  with h memory_store_refines_map [OF h, of "[]" "\<lambda>st a. (None, a @ [st_Path st])" "[]"] show ?thesis by blast
qed

end
