(* ===== verification/Watch_Tree.thy ===== *)
theory Watch_Tree
  imports Core_Types
begin

text \<open>
  \<open>internal/watchtree\<close>: the registrations of recursive native watches. The native backend is
  a parameter, a state type with its \<open>Add\<close> and \<open>Remove\<close>. The mutex makes every method
  atomic. The set of watched paths is a Go map; its list order is the iteration order, and as it
  ranges over all orders, so do the ties that the unstable \<open>sort.Slice\<close> leaves open.
\<close>

section \<open>Data and operations\<close>

type_synonym stringset = "unit gomap"

record 'b WatchBackend =
  wb_Add :: "string \<Rightarrow> 'b \<Rightarrow> GoError option \<times> 'b"
  wb_Remove :: "string \<Rightarrow> 'b \<Rightarrow> GoError option \<times> 'b"

record WatchTree =
  wt_root :: string
  wt_watched :: stringset

definition wt_New :: "string \<Rightarrow> WatchTree" where
  "wt_New root = \<lparr>wt_root = Clean root, wt_watched = [(Clean root, ())]\<rparr>"

definition wt_Add ::
  "'b WatchBackend \<Rightarrow> string \<Rightarrow> WatchTree \<times> 'b \<Rightarrow> GoError option \<times> WatchTree \<times> 'b" where
  "wt_Add be path0 tb =
     (case tb of (t, b) \<Rightarrow>
        let path = Clean path0 in
        if \<not> within (wt_root t) path then
          (Some (ErrMsg (''watch path '' @ quote path @ '' is outside root '' @ quote (wt_root t))), t, b)
        else if map_of (wt_watched t) path \<noteq> None then (None, t, b)
        else
          (case wb_Add be path b of
             (Some err, b') \<Rightarrow> (Some err, t, b')
           | (None, b') \<Rightarrow> (None, t\<lparr>wt_watched := AList.update path () (wt_watched t)\<rparr>, b')))"

definition inAnyScope :: "string \<Rightarrow> string list \<Rightarrow> bool" where
  "inAnyScope path scopes = list_ex (\<lambda>scope. within (Clean scope) path) scopes"

text \<open>The paths to remove, longest first.\<close>

definition longest_first :: "string list \<Rightarrow> string list" where
  "longest_first ps = sort_key (\<lambda>p. - int (length p)) ps"

definition sync_remove :: "WatchTree \<Rightarrow> string list \<Rightarrow> stringset \<Rightarrow> string list" where
  "sync_remove t scopes observed =
     longest_first (filter (\<lambda>path. \<not> (path = wt_root t \<or> \<not> inAnyScope path scopes) \<and> map_of observed path = None)
       (map fst (wt_watched t)))"

definition unwatch_step ::
  "'b WatchBackend \<Rightarrow> (GoError \<Rightarrow> bool) \<Rightarrow> string \<Rightarrow> WatchTree \<times> 'b \<Rightarrow> GoError option \<times> WatchTree \<times> 'b" where
  "unwatch_step be ignored path tb =
     (case tb of (t, b) \<Rightarrow>
        (case wb_Remove be path b of (err, b') \<Rightarrow>
           (case err of
              Some e \<Rightarrow>
                if \<not> ignored e then (Some e, t, b')
                else (None, t\<lparr>wt_watched := AList.delete path (wt_watched t)\<rparr>, b')
            | None \<Rightarrow> (None, t\<lparr>wt_watched := AList.delete path (wt_watched t)\<rparr>, b'))))"

definition wt_Sync ::
  "'b WatchBackend \<Rightarrow> string list \<Rightarrow> stringset \<Rightarrow> WatchTree \<times> 'b \<Rightarrow> GoError option \<times> WatchTree \<times> 'b" where
  "wt_Sync be scopes observed tb =
     for_each (unwatch_step be (\<lambda>_. False)) (sync_remove (fst tb) scopes observed) tb"

definition wt_Count :: "WatchTree \<Rightarrow> int" where
  "wt_Count t = int (length (wt_watched t))"

definition wt_IsWatched :: "string \<Rightarrow> WatchTree \<Rightarrow> bool" where
  "wt_IsWatched path t = (map_of (wt_watched t) (Clean path) \<noteq> None)"

definition strings_Contains :: "string \<Rightarrow> string \<Rightarrow> bool" where
  "strings_Contains s sub = sublist sub s"

definition isAlreadyGone :: "GoError \<Rightarrow> bool" where
  "isAlreadyGone err =
     (strings_Contains (error_text err) ''not found'' \<or> strings_Contains (error_text err) ''invalid argument'')"

definition subtree_remove :: "WatchTree \<Rightarrow> string \<Rightarrow> string list" where
  "subtree_remove t path =
     longest_first (filter (\<lambda>watched. watched \<noteq> wt_root t \<and> within path watched) (map fst (wt_watched t)))"

definition wt_RemoveSubtree ::
  "'b WatchBackend \<Rightarrow> string \<Rightarrow> WatchTree \<times> 'b \<Rightarrow> GoError option \<times> WatchTree \<times> 'b" where
  "wt_RemoveSubtree be path tb =
     for_each (unwatch_step be isAlreadyGone) (subtree_remove (fst tb) (Clean path)) tb"

section \<open>Invariant\<close>

definition watched_paths :: "WatchTree \<Rightarrow> string set" where
  "watched_paths t = fst ` set (wt_watched t)"

definition tree_ok :: "WatchTree \<Rightarrow> bool" where
  "tree_ok t = (canonical (wt_root t) \<and> gomap_ok (wt_watched t) \<and> wt_root t \<in> watched_paths t \<and>
     (\<forall>p \<in> watched_paths t. canonical p \<and> prefix (elems (wt_root t)) (elems p)))"

lemma tree_okD:
  assumes "tree_ok t"
  shows "canonical (wt_root t)" "gomap_ok (wt_watched t)" "wt_root t \<in> watched_paths t"
    "p \<in> watched_paths t \<Longrightarrow> canonical p" "p \<in> watched_paths t \<Longrightarrow> prefix (elems (wt_root t)) (elems p)"
  using assms by (auto simp: tree_ok_def)

lemma tree_ok_New: "IsAbs root \<Longrightarrow> tree_ok (wt_New root)"
  by (simp add: tree_ok_def wt_New_def watched_paths_def canonical_Clean)

lemma IsWatched_iff: "wt_IsWatched path t \<longleftrightarrow> Clean path \<in> watched_paths t"
  by (simp add: wt_IsWatched_def watched_paths_def in_keys_iff)

lemma Count_card: "tree_ok t \<Longrightarrow> wt_Count t = int (card (watched_paths t))"
  using distinct_card [of "map fst (wt_watched t)"] by (simp add: wt_Count_def watched_paths_def tree_ok_def)

lemma watch_Add_spec:
  assumes "tree_ok t" and "IsAbs path" and "wt_Add be path (t, b) = (err, t', b')"
  shows "tree_ok t'" and "wt_root t' = wt_root t"
    and "watched_paths t' = watched_paths t \<or> err = None \<and> watched_paths t' = insert (Clean path) (watched_paths t)"
    and "err = None \<Longrightarrow> Clean path \<in> watched_paths t'"
proof -
  note t = tree_okD [OF assms(1)]
  have c: "canonical (Clean path)" using assms(2) by (rule canonical_Clean)
  let ?w = "t\<lparr>wt_watched := AList.update (Clean path) () (wt_watched t)\<rparr>"
  have w: "watched_paths ?w = insert (Clean path) (watched_paths t)"
    by (simp add: watched_paths_def gomap_simps)
  have known: "Clean path \<in> watched_paths t" if "map_of (wt_watched t) (Clean path) = Some u" for u
    using that in_keys_iff [of "Clean path" "wt_watched t"] by (simp add: watched_paths_def)
  have ok: "tree_ok ?w" if "within (wt_root t) (Clean path)"
    using t that c by (auto simp: tree_ok_def w within_canonical simp flip: watched_paths_def)
  have "tree_ok t' \<and> wt_root t' = wt_root t \<and>
      (watched_paths t' = watched_paths t \<or> err = None \<and> watched_paths t' = insert (Clean path) (watched_paths t)) \<and>
      (err = None \<longrightarrow> Clean path \<in> watched_paths t')"
    using assms(1,3) ok w known
    by (auto simp: wt_Add_def Let_def split: if_splits prod.splits option.splits)
  then show "tree_ok t'" and "wt_root t' = wt_root t"
    and "watched_paths t' = watched_paths t \<or> err = None \<and> watched_paths t' = insert (Clean path) (watched_paths t)"
    and "err = None \<Longrightarrow> Clean path \<in> watched_paths t'" by blast+
qed

lemma unwatch_steps:
  assumes "for_each (unwatch_step be ignored) ps (t, b) = (err, t', b')" and "distinct ps" and "gomap_ok (wt_watched t)"
  shows "wt_root t' = wt_root t \<and> gomap_ok (wt_watched t') \<and>
    (\<exists>n \<le> length ps. watched_paths t' = watched_paths t - set (take n ps) \<and> (err = None \<longleftrightarrow> n = length ps))"
  using assms
proof (induction ps arbitrary: t b)
  case Nil
  then show ?case by simp
next
  case (Cons p ps)
  obtain r b1 where rm: "wb_Remove be p b = (r, b1)" by fastforce
  let ?t = "t\<lparr>wt_watched := AList.delete p (wt_watched t)\<rparr>"
  show ?case
  proof (cases "\<exists>e. r = Some e \<and> \<not> ignored e")
    case True
    with rm Cons.prems show ?thesis
      by (intro conjI exI [of _ 0]) (auto simp: unwatch_step_def)
  next
    case False
    then have step: "unwatch_step be ignored p (t, b) = (None, ?t, b1)"
      using rm by (auto simp: unwatch_step_def split: option.splits)
    with Cons.prems(1) have run: "for_each (unwatch_step be ignored) ps (?t, b1) = (err, t', b')" by simp
    have ok: "gomap_ok (wt_watched ?t)" using Cons.prems(3) by simp
    have w: "watched_paths ?t = watched_paths t - {p}" by (simp add: watched_paths_def gomap_simps)
    from Cons.IH [OF run _ ok] Cons.prems(2) obtain n where n: "wt_root t' = wt_root t" "gomap_ok (wt_watched t')"
      "n \<le> length ps" "watched_paths t' = watched_paths ?t - set (take n ps)" "err = None \<longleftrightarrow> n = length ps" by auto
    then show ?thesis using w by (intro conjI exI [of _ "Suc n"]) auto
  qed
qed

lemma longest_first_props [simp]:
  "set (longest_first ps) = set ps" "distinct (longest_first ps) = distinct ps"
  by (simp_all add: longest_first_def)

lemma longest_first_sorted:
  assumes "i < j" and "j < length (longest_first ps)"
  shows "length (longest_first ps ! j) \<le> length (longest_first ps ! i)"
proof -
  have "sorted (map (\<lambda>p. - int (length p)) (longest_first ps))" by (simp add: longest_first_def)
  then have "map (\<lambda>p. - int (length p)) (longest_first ps) ! i \<le> map (\<lambda>p. - int (length p)) (longest_first ps) ! j"
    using assms by (intro sorted_nth_mono) auto
  with assms show ?thesis by simp
qed

lemma canonical_prefix_length:
  assumes "canonical p" and "canonical q" and "strict_prefix (elems p) (elems q)"
  shows "length p < length q"
proof -
  obtain ps qs where p: "p = abs_path ps" "list_all good_part ps" and q: "q = abs_path qs" "list_all good_part qs"
    using assms(1,2) by (auto elim!: canonicalE)
  with assms(3) have "strict_prefix ps qs" by (simp add: elems_abs_path)
  then obtain z zs where "qs = ps @ z # zs" by (rule strict_prefixE')
  moreover have "0 < length z" using q(2) calculation by (auto simp: good_part_def)
  ultimately show ?thesis using p(1) q(1) by (auto simp: abs_path_def join_sep_append join_sep_Cons)
qed

lemma tree_ok_removed:
  assumes "tree_ok t" and "wt_root t' = wt_root t" and "gomap_ok (wt_watched t')"
    and "watched_paths t' = watched_paths t - R" and "wt_root t \<notin> R"
  shows "tree_ok t'"
  using assms by (auto simp: tree_ok_def)

lemma sync_remove_props:
  assumes "tree_ok t"
  shows "distinct (sync_remove t scopes observed)"
    and "set (sync_remove t scopes observed) =
      {p \<in> watched_paths t. p \<noteq> wt_root t \<and> inAnyScope p scopes \<and> map_of observed p = None}"
  using assms by (auto simp: sync_remove_def tree_ok_def watched_paths_def)

lemma subtree_remove_props:
  assumes "tree_ok t"
  shows "distinct (subtree_remove t path)"
    and "set (subtree_remove t path) = {p \<in> watched_paths t. p \<noteq> wt_root t \<and> within path p}"
  using assms by (auto simp: subtree_remove_def tree_ok_def watched_paths_def)

lemma children_first:
  assumes "distinct (longest_first ps)" and "list_all canonical ps" and "i < length (longest_first ps)" "j < length (longest_first ps)"
    and "strict_prefix (elems (longest_first ps ! i)) (elems (longest_first ps ! j))"
  shows "j < i"
proof -
  have "canonical (longest_first ps ! k)" if "k < length (longest_first ps)" for k
    using assms(2) that nth_mem [of k "longest_first ps"] by (simp add: list_all_iff)
  then have "length (longest_first ps ! i) < length (longest_first ps ! j)"
    using assms canonical_prefix_length by blast
  then show ?thesis using longest_first_sorted [of i j ps] assms(4) by (cases "i = j"; force)
qed

section \<open>Properties\<close>

text \<open>C23: synchronising the watches of a tree with what a scan observed. Only registrations of
  the scopes that were not observed are removed, never the root, and each is removed before the
  directories above it; when the native backend refuses a removal, the registrations removed so
  far are gone and the others stay; on success a path is watched exactly when it was watched and
  is the root, outside the scopes, or observed. The tree invariant is kept for every backend.\<close>

theorem sync_exact:
  assumes "tree_ok t" and "wt_Sync be scopes observed (t, b) = (err, t', b')"
  shows "tree_ok t' \<and>
    (\<exists>n \<le> length (sync_remove t scopes observed).
       watched_paths t' = watched_paths t - set (take n (sync_remove t scopes observed)) \<and>
       (err = None \<longleftrightarrow> n = length (sync_remove t scopes observed))) \<and>
    (err = None \<longrightarrow> watched_paths t' =
       {p \<in> watched_paths t. p = wt_root t \<or> \<not> inAnyScope p scopes \<or> map_of observed p \<noteq> None}) \<and>
    (\<forall>i < length (sync_remove t scopes observed). \<forall>j < length (sync_remove t scopes observed).
       strict_prefix (elems (sync_remove t scopes observed ! i)) (elems (sync_remove t scopes observed ! j)) \<longrightarrow> j < i)"
proof -
  let ?rs = "sync_remove t scopes observed"
  have run: "for_each (unwatch_step be (\<lambda>_. False)) ?rs (t, b) = (err, t', b')"
    using assms(2) by (simp add: wt_Sync_def)
  note rs = sync_remove_props [OF assms(1), of scopes observed]
  from unwatch_steps [OF run rs(1) tree_okD(2) [OF assms(1)]] obtain n where n: "wt_root t' = wt_root t"
    "gomap_ok (wt_watched t')" "n \<le> length ?rs" "watched_paths t' = watched_paths t - set (take n ?rs)"
    "err = None \<longleftrightarrow> n = length ?rs" by blast
  have "wt_root t \<notin> set (take n ?rs)" using rs(2) by (auto dest: in_set_takeD)
  with tree_ok_removed [OF assms(1) n(1,2,4)] have ok: "tree_ok t'" .
  have succ: "err = None \<longrightarrow> watched_paths t' =
       {p \<in> watched_paths t. p = wt_root t \<or> \<not> inAnyScope p scopes \<or> map_of observed p \<noteq> None}"
    using n(4,5) rs(2) by auto
  have canon: "list_all canonical (filter (\<lambda>path. \<not> (path = wt_root t \<or> \<not> inAnyScope path scopes) \<and>
      map_of observed path = None) (map fst (wt_watched t)))"
    using tree_okD(4) [OF assms(1)] by (auto simp: list_all_iff watched_paths_def)
  have order: "j < i" if "i < length ?rs" "j < length ?rs" "strict_prefix (elems (?rs ! i)) (elems (?rs ! j))" for i j
    using rs(1) canon that unfolding sync_remove_def by (rule children_first)
  show ?thesis
  proof (intro conjI allI impI)
    show "\<exists>n \<le> length ?rs. watched_paths t' = watched_paths t - set (take n ?rs) \<and> (err = None \<longleftrightarrow> n = length ?rs)"
      using n(3-5) by (intro exI [of _ n] conjI)
  qed (fact ok, erule succ [THEN mp], erule (2) order)
qed

definition ex_backend :: "string list WatchBackend" where
  "ex_backend = \<lparr>wb_Add = (\<lambda>p b. (None, b @ [p])),
     wb_Remove = (\<lambda>p b. if p = ''/r/a'' then (Some (ErrMsg ''busy''), b) else (None, removeAll p b))\<rparr>"

definition ex_tree :: WatchTree where
  "ex_tree = \<lparr>wt_root = ''/r'', wt_watched = [(''/r'', ()), (''/r/a'', ()), (''/r/b'', ()), (''/r/a/x'', ())]\<rparr>"

theorem sync_exact_witness:
  "tree_ok ex_tree \<and>
   wt_Sync ex_backend [''/r''] [(''/r/b'', ())] (ex_tree, [''/r/a/x'']) =
     (Some (ErrMsg ''busy''), ex_tree\<lparr>wt_watched := [(''/r'', ()), (''/r/a'', ()), (''/r/b'', ())]\<rparr>, []) \<and>
   wt_Sync ex_backend [''/r/a/x''] [] (ex_tree, [''/r/a/x'']) =
     (None, ex_tree\<lparr>wt_watched := [(''/r'', ()), (''/r/a'', ()), (''/r/b'', ())]\<rparr>, []) \<and>
   tree_ok (ex_tree\<lparr>wt_watched := [(''/r'', ()), (''/r/a'', ()), (''/r/b'', ())]\<rparr>)"
proof -
  have h: "tree_ok ex_tree" by code_simp
  have r1: "wt_Sync ex_backend [''/r''] [(''/r/b'', ())] (ex_tree, [''/r/a/x'']) =
     (Some (ErrMsg ''busy''), ex_tree\<lparr>wt_watched := [(''/r'', ()), (''/r/a'', ()), (''/r/b'', ())]\<rparr>, [])"
    by code_simp
  have r2: "wt_Sync ex_backend [''/r/a/x''] [] (ex_tree, [''/r/a/x'']) =
     (None, ex_tree\<lparr>wt_watched := [(''/r'', ()), (''/r/a'', ()), (''/r/b'', ())]\<rparr>, [])"
    by code_simp
  show ?thesis using h r1 r2 sync_exact [OF h r1] sync_exact [OF h r2] by blast
qed

text \<open>Removing a subtree. When it reports success, no path at or below the given one is
  watched except possibly the root, and all others are watched as before; a removal that fails
  because the watch is already gone counts as done.\<close>

lemma remove_subtree_exact:
  assumes "tree_ok t" and "IsAbs path" and "wt_RemoveSubtree be path (t, b) = (None, t', b')"
  shows "tree_ok t' \<and> watched_paths t' =
    {p \<in> watched_paths t. p = wt_root t \<or> \<not> prefix (elems (Clean path)) (elems p)}"
proof -
  let ?rs = "subtree_remove t (Clean path)"
  have run: "for_each (unwatch_step be isAlreadyGone) ?rs (t, b) = (None, t', b')"
    using assms(3) by (simp add: wt_RemoveSubtree_def)
  note rs = subtree_remove_props [OF assms(1), of "Clean path"]
  from unwatch_steps [OF run rs(1) tree_okD(2) [OF assms(1)]] have n: "wt_root t' = wt_root t"
    "gomap_ok (wt_watched t')" "watched_paths t' = watched_paths t - set ?rs" by auto
  have "wt_root t \<notin> set ?rs" using rs(2) by auto
  with tree_ok_removed [OF assms(1) n] have "tree_ok t'" .
  moreover have "within (Clean path) p \<longleftrightarrow> prefix (elems (Clean path)) (elems p)" if "p \<in> watched_paths t" for p
    using that tree_okD(4) [OF assms(1)] canonical_Clean [OF assms(2)] by (simp add: within_canonical)
  ultimately show ?thesis using n(3) rs(2) by auto
qed

end
