(* ===== verification/Tracker_State.thy ===== *)
theory Tracker_State
  imports Delivery Memory_Store Watch_Tree
begin

text \<open>
  \<open>tracker.go\<close> without its goroutines: the configuration and its validation in \<open>New\<close>, the
  state of a tracker, and the operations on its life-cycle state, its channels and its counters,
  each atomic under \<open>mu\<close>. The snapshot store, the sink and the native backend keep states of
  their own, which are type parameters.
\<close>

section \<open>Channels\<close>

text \<open>
  A buffered channel: its queue, its capacity and whether it is closed. A send on a closed channel
  panics, which the last field records.
\<close>

record 'a Chan =
  ch_queue :: "'a list"
  ch_cap :: int
  ch_closed :: bool
  ch_panicked :: bool

definition make_chan :: "int \<Rightarrow> 'a Chan" where
  "make_chan n = \<lparr>ch_queue = [], ch_cap = n, ch_closed = False, ch_panicked = False\<rparr>"

text \<open>\<open>select { case ch <- v: default: }\<close>: whether the value was sent.\<close>

definition try_send :: "'a \<Rightarrow> 'a Chan \<Rightarrow> bool \<times> 'a Chan" where
  "try_send v ch =
     (if ch_closed ch then (True, ch\<lparr>ch_panicked := True\<rparr>)
      else if int (length (ch_queue ch)) < ch_cap ch then (True, ch\<lparr>ch_queue := ch_queue ch @ [v]\<rparr>)
      else (False, ch))"

definition close_chan :: "'a Chan \<Rightarrow> 'a Chan" where
  "close_chan ch = ch\<lparr>ch_closed := True\<rparr>"

section \<open>Configuration\<close>

record ('s, 'k) Config =
  cf_Root :: string
  cf_Recursive :: bool
  cf_Expected :: "ExpectedProvider option"
  cf_ExpectedScope :: ExpectedEntryScope
  cf_ChangeSink :: "'k ChangeSink option"
  cf_Integrity :: "(FileState \<Rightarrow> GoError + IntegrityResult) option"
  cf_Store :: "(('s, FileState gomap) SnapshotStore \<times> 's) option"
  cf_Filter :: "(string \<Rightarrow> FileState \<Rightarrow> bool) option"
  cf_SymlinkPolicy :: SymlinkPolicy
  cf_HardlinkPolicy :: HardlinkPolicy
  cf_DebounceWindow :: int
  cf_ReconcileInterval :: int
  cf_EventBuffer :: int
  cf_ReportEventLimit :: int
  cf_ChangeBatchSize :: int

section \<open>Tracker\<close>

datatype TrackerState =
    StateCreated | StateStarting | StateSyncing | StateSynced | StateDirty | StateReconciling
  | StateStopped | StateDegraded

primrec TrackerState_String :: "TrackerState \<Rightarrow> string" where
  "TrackerState_String StateCreated = ''CREATED''"
| "TrackerState_String StateStarting = ''STARTING''"
| "TrackerState_String StateSyncing = ''SYNCING''"
| "TrackerState_String StateSynced = ''SYNCED''"
| "TrackerState_String StateDirty = ''DIRTY''"
| "TrackerState_String StateReconciling = ''RECONCILING''"
| "TrackerState_String StateStopped = ''STOPPED''"
| "TrackerState_String StateDegraded = ''DEGRADED''"

record trackerStats =
  ts_eventsReceived :: "64 word"
  ts_eventsCoalesced :: "64 word"
  ts_reconciliations :: "64 word"
  ts_filesScanned :: "64 word"
  ts_missingDetected :: "64 word"
  ts_orphansDetected :: "64 word"
  ts_dirtyPaths :: "64 word"
  ts_integrityScanned :: "64 word"
  ts_corruptDetected :: "64 word"
  ts_publicEventsDropped :: "64 word"
  ts_reportEventsTruncated :: "64 word"
  ts_backendOverflows :: "64 word"

definition zero_stats :: trackerStats where
  "zero_stats = \<lparr>ts_eventsReceived = 0, ts_eventsCoalesced = 0, ts_reconciliations = 0, ts_filesScanned = 0,
     ts_missingDetected = 0, ts_orphansDetected = 0, ts_dirtyPaths = 0, ts_integrityScanned = 0,
     ts_corruptDetected = 0, ts_publicEventsDropped = 0, ts_reportEventsTruncated = 0, ts_backendOverflows = 0\<rparr>"

record Stats =
  s_EventsReceived :: "64 word"
  s_EventsCoalesced :: "64 word"
  s_EventsDropped :: "64 word"
  s_PublicEventsDropped :: "64 word"
  s_ReportEventsTruncated :: "64 word"
  s_BackendOverflows :: "64 word"
  s_Reconciliations :: "64 word"
  s_FilesScanned :: "64 word"
  s_MissingDetected :: "64 word"
  s_OrphansDetected :: "64 word"
  s_DirtyPaths :: "64 word"
  s_QueueDepth :: "64 word"
  s_IntegrityScanned :: "64 word"
  s_CorruptDetected :: "64 word"

text \<open>
  The state of the store and of the sink stand beside their operations. The backend is what the
  watch tree calls; \<open>None\<close> for the watch tree before \<open>Start\<close>.
\<close>

record ('s, 'k, 'b) Tracker =
  t_config :: "('s, 'k) Config"
  t_root :: string
  t_store :: "('s, FileState gomap) SnapshotStore"
  t_snapshot :: 's
  t_sinkState :: 'k
  t_state :: TrackerState
  t_started :: bool
  t_closed :: bool
  t_backendHealthy :: bool
  t_sessionID :: string
  t_backendOps :: "'b WatchBackend"
  t_backend :: 'b
  t_watchTree :: "WatchTree option"
  t_events :: "Event Chan"
  t_errors :: "GoError Chan"
  t_channelsClosed :: bool
  t_stats :: trackerStats
  t_generation :: "64 word"
  t_pending :: "pendingGeneration option"
  t_dirtyPending :: bool

section \<open>New\<close>

text \<open>\<open>hex.EncodeToString\<close> of the random bytes, an argument.\<close>

definition hex_byte :: "8 word \<Rightarrow> string" where
  "hex_byte w = [digit_char (unat w div 16), digit_char (unat w mod 16)]"

definition newSessionID :: "GoError + 8 word list \<Rightarrow> GoError + string" where
  "newSessionID random = (case random of Inl err \<Rightarrow> Inl err | Inr value \<Rightarrow> Inr (concat (map hex_byte value)))"

text \<open>\<open>filepath.Abs\<close>: the working directory is an argument.\<close>

definition Abs_path :: "GoError + string \<Rightarrow> string \<Rightarrow> GoError + string" where
  "Abs_path getwd path =
     (if IsAbs path then Inr (Clean path)
      else case getwd of Inl err \<Rightarrow> Inl err | Inr wd \<Rightarrow> Inr (Join wd path))"

definition memory_store :: "(MemoryStore, 'a) SnapshotStore" where
  "memory_store = \<lparr>ss_Get = ms_Get, ss_Put = ms_Put, ss_Delete = ms_Delete, ss_Walk = ms_Walk,
     ss_WalkScope = Some ms_WalkScope, ss_Apply = Some ms_Apply\<rparr>"

fun policy_declared :: "SymlinkPolicy \<Rightarrow> bool" where
  "policy_declared (SymlinkPolicyUndeclared _) = False"
| "policy_declared _ = True"

fun hardlink_declared :: "HardlinkPolicy \<Rightarrow> bool" where
  "hardlink_declared (HardlinkPolicyUndeclared _) = False"
| "hardlink_declared _ = True"

fun scope_declared :: "ExpectedEntryScope \<Rightarrow> bool" where
  "scope_declared (ExpectedScopeUndeclared _) = False"
| "scope_declared _ = True"

definition config_error :: "('s, 'k) Config \<Rightarrow> GoError option" where
  "config_error config =
     (if blank (cf_Root config) then Some (ErrMsg ''fsrecon: root is required'')
      else if cf_EventBuffer config < 0 then Some (ErrMsg ''fsrecon: event buffer cannot be negative'')
      else if cf_ReportEventLimit config < 0 then Some (ErrMsg ''fsrecon: report event limit cannot be negative'')
      else if cf_ChangeBatchSize config < 0 then Some (ErrMsg ''fsrecon: change batch size cannot be negative'')
      else if cf_ReconcileInterval config < 0 then Some (ErrMsg ''fsrecon: reconcile interval cannot be negative'')
      else if cf_DebounceWindow config < 0 then Some (ErrMsg ''fsrecon: debounce window cannot be negative'')
      else if \<not> policy_declared (cf_SymlinkPolicy config) then Some (ErrMsg ''fsrecon: invalid symlink policy'')
      else if \<not> hardlink_declared (cf_HardlinkPolicy config) then Some (ErrMsg ''fsrecon: invalid hardlink policy'')
      else if \<not> scope_declared (cf_ExpectedScope config) then Some (ErrMsg ''fsrecon: invalid expected entry scope'')
      else None)"

definition with_defaults :: "('s, 'k) Config \<Rightarrow> ('s, 'k) Config" where
  "with_defaults config = config
     \<lparr>cf_EventBuffer := (if cf_EventBuffer config = 0 then defaultEventBuffer else cf_EventBuffer config),
      cf_ReportEventLimit := (if cf_ReportEventLimit config = 0 then defaultReportEventLimit else cf_ReportEventLimit config),
      cf_ChangeBatchSize := (if cf_ChangeBatchSize config = 0 then defaultChangeBatchSize else cf_ChangeBatchSize config),
      cf_DebounceWindow := (if cf_DebounceWindow config = 0 then defaultDebounceWindow else cf_DebounceWindow config)\<rparr>"

text \<open>
  The default store is an argument, \<open>NewMemoryStore\<close> at the type of the model; the backend and
  the initial states of sink and backend come from outside.
\<close>

definition New ::
  "GoError + 8 word list \<Rightarrow> GoError + string \<Rightarrow> ('s, FileState gomap) SnapshotStore \<times> 's \<Rightarrow> 'k \<Rightarrow>
   'b WatchBackend \<Rightarrow> 'b \<Rightarrow> ('s, 'k) Config \<Rightarrow> GoError + ('s, 'k, 'b) Tracker" where
  "New random getwd default_store sink backend_ops backend config =
     (case config_error config of
        Some err \<Rightarrow> Inl err
      | None \<Rightarrow>
     (case newSessionID random of
        Inl err \<Rightarrow> Inl (ErrWrap ''fsrecon: create session id: '' err [])
      | Inr sessionID \<Rightarrow>
     (case Abs_path getwd (cf_Root config) of
        Inl err \<Rightarrow> Inl (ErrWrap ''fsrecon: resolve root: '' err [])
      | Inr root \<Rightarrow>
          let (store, snapshot) = (case cf_Store config of None \<Rightarrow> default_store | Some s \<Rightarrow> s);
              config = config\<lparr>cf_Root := Clean root, cf_Store := Some (store, snapshot)\<rparr>
          in if cf_ChangeSink config \<noteq> None \<and> ss_Apply store = None then Inl ErrAtomicStoreRequired
             else
               let config = with_defaults config in
               Inr \<lparr>t_config = config, t_root = cf_Root config, t_store = store, t_snapshot = snapshot,
                    t_sinkState = sink, t_state = StateCreated, t_started = False, t_closed = False,
                    t_backendHealthy = False, t_sessionID = sessionID, t_backendOps = backend_ops,
                    t_backend = backend, t_watchTree = None, t_events = make_chan (cf_EventBuffer config),
                    t_errors = make_chan 16, t_channelsClosed = False, t_stats = zero_stats,
                    t_generation = 0, t_pending = None, t_dirtyPending = False\<rparr>)))"

section \<open>Operations on the state\<close>

definition setState :: "TrackerState \<Rightarrow> ('s, 'k, 'b) Tracker \<Rightarrow> ('s, 'k, 'b) Tracker" where
  "setState state t = (if t_closed t then t else t\<lparr>t_state := state\<rparr>)"

definition markBackendUnhealthy :: "('s, 'k, 'b) Tracker \<Rightarrow> ('s, 'k, 'b) Tracker" where
  "markBackendUnhealthy t =
     (if t_closed t then t else t\<lparr>t_backendHealthy := False, t_state := StateDegraded\<rparr>)"

definition markDirty :: "('s, 'k, 'b) Tracker \<Rightarrow> ('s, 'k, 'b) Tracker" where
  "markDirty t =
     (if t_closed t then t
      else if t_started t \<and> \<not> t_backendHealthy t then t\<lparr>t_state := StateDegraded\<rparr>
      else t\<lparr>t_state := StateDirty\<rparr>)"

definition setConsistentState :: "('s, 'k, 'b) Tracker \<Rightarrow> ('s, 'k, 'b) Tracker" where
  "setConsistentState t =
     (if t_closed t then t
      else if t_started t \<and> \<not> t_backendHealthy t then t\<lparr>t_state := StateDegraded\<rparr>
      else if t_dirtyPending t then t\<lparr>t_state := StateDirty\<rparr>
      else t\<lparr>t_state := StateSynced\<rparr>)"

definition sendEvent :: "Event \<Rightarrow> ('s, 'k, 'b) Tracker \<Rightarrow> ('s, 'k, 'b) Tracker" where
  "sendEvent event t =
     (case try_send event (t_events t) of (sent, ch) \<Rightarrow>
        if sent then t\<lparr>t_events := ch\<rparr>
        else t\<lparr>t_stats := (t_stats t)\<lparr>ts_publicEventsDropped := ts_publicEventsDropped (t_stats t) + 1\<rparr>\<rparr>)"

definition sendError :: "GoError \<Rightarrow> ('s, 'k, 'b) Tracker \<Rightarrow> ('s, 'k, 'b) Tracker" where
  "sendError err t = t\<lparr>t_errors := snd (try_send err (t_errors t))\<rparr>"

text \<open>\<open>closeOnce.Do\<close>.\<close>

definition closeChannels :: "('s, 'k, 'b) Tracker \<Rightarrow> ('s, 'k, 'b) Tracker" where
  "closeChannels t =
     (if t_channelsClosed t then t
      else t\<lparr>t_events := close_chan (t_events t), t_errors := close_chan (t_errors t), t_channelsClosed := True\<rparr>)"

definition stopFromContext :: "('s, 'k, 'b) Tracker \<Rightarrow> ('s, 'k, 'b) Tracker" where
  "stopFromContext t = closeChannels (t\<lparr>t_closed := True, t_state := StateStopped\<rparr>)"

definition handleBackendError :: "Time \<Rightarrow> GoError \<Rightarrow> ('s, 'k, 'b) Tracker \<Rightarrow> ('s, 'k, 'b) Tracker" where
  "handleBackendError now err t0 =
     (let t = sendError (ErrWrap ''fsrecon: native watcher: '' err []) (markDirty t0) in
      if errors_Is err ErrOverflow then
        let t = t\<lparr>t_stats := (t_stats t)\<lparr>ts_backendOverflows := ts_backendOverflows (t_stats t) + 1\<rparr>\<rparr>;
            ev = (\<lambda>kind. \<lparr>ev_Kind = kind, ev_Path = t_root t, ev_OldPath = [], ev_Before = None,
                          ev_After = None, ev_Source = SourceWatcher, ev_Time = now\<rparr>)
        in sendEvent (ev EventRescanRequired) (sendEvent (ev EventOverflow) t)
      else t)"

definition tracker_State :: "('s, 'k, 'b) Tracker \<Rightarrow> TrackerState" where
  "tracker_State t = t_state t"

definition tracker_Stats :: "('s, 'k, 'b) Tracker \<Rightarrow> Stats" where
  "tracker_Stats t =
     (let s = t_stats t; publicDropped = ts_publicEventsDropped s in
      \<lparr>s_EventsReceived = ts_eventsReceived s, s_EventsCoalesced = ts_eventsCoalesced s,
       s_EventsDropped = publicDropped, s_PublicEventsDropped = publicDropped,
       s_ReportEventsTruncated = ts_reportEventsTruncated s, s_BackendOverflows = ts_backendOverflows s,
       s_Reconciliations = ts_reconciliations s, s_FilesScanned = ts_filesScanned s,
       s_MissingDetected = ts_missingDetected s, s_OrphansDetected = ts_orphansDetected s,
       s_DirtyPaths = ts_dirtyPaths s, s_QueueDepth = of_nat (length (ch_queue (t_events t))),
       s_IntegrityScanned = ts_integrityScanned s, s_CorruptDetected = ts_corruptDetected s\<rparr>)"

section \<open>Lemmas\<close>

lemma IsAbs_Join: "IsAbs a \<Longrightarrow> IsAbs (Join a b)"
  by (cases a) (auto simp: Join_def IsAbs_Clean, simp_all add: IsAbs_def)

lemma state_ops_keep [simp]:
  "t_pending (setState st t) = t_pending t" "t_pending (markDirty t) = t_pending t"
  "t_pending (setConsistentState t) = t_pending t" "t_pending (sendEvent e t) = t_pending t"
  "t_snapshot (setState st t) = t_snapshot t" "t_snapshot (markDirty t) = t_snapshot t"
  "t_snapshot (setConsistentState t) = t_snapshot t" "t_snapshot (sendEvent e t) = t_snapshot t"
  "t_generation (setState st t) = t_generation t" "t_generation (markDirty t) = t_generation t"
  "t_generation (setConsistentState t) = t_generation t" "t_generation (sendEvent e t) = t_generation t"
  "t_root (setState st t) = t_root t" "t_config (setState st t) = t_config t"
  "t_store (setState st t) = t_store t" "t_store (markDirty t) = t_store t"
  "t_watchTree (setState st t) = t_watchTree t" "t_watchTree (markDirty t) = t_watchTree t"
  "t_watchTree (setConsistentState t) = t_watchTree t" "t_watchTree (sendEvent e t) = t_watchTree t"
  "t_sinkState (setState st t) = t_sinkState t" "t_sinkState (markDirty t) = t_sinkState t"
  "t_sinkState (setConsistentState t) = t_sinkState t" "t_sinkState (sendEvent e t) = t_sinkState t"
  "t_closed (setState st t) = t_closed t" "t_closed (markDirty t) = t_closed t"
  "t_closed (setConsistentState t) = t_closed t" "t_closed (sendEvent e t) = t_closed t"
  "t_state (sendEvent e t) = t_state t"
  by (simp_all add: setState_def markDirty_def setConsistentState_def sendEvent_def split: prod.split)

lemma fold_sendEvent_keep [simp]:
  "t_pending (fold sendEvent es t) = t_pending t" "t_snapshot (fold sendEvent es t) = t_snapshot t"
  "t_generation (fold sendEvent es t) = t_generation t" "t_state (fold sendEvent es t) = t_state t"
  "t_watchTree (fold sendEvent es t) = t_watchTree t" "t_sinkState (fold sendEvent es t) = t_sinkState t"
  by (induction es arbitrary: t) simp_all

lemma fold_sendEvent_queue:
  assumes "\<not> ch_closed (t_events t)" and "int (length (ch_queue (t_events t))) \<le> ch_cap (t_events t)"
  shows "ch_queue (t_events (fold sendEvent es t)) =
      ch_queue (t_events t) @ take (nat (ch_cap (t_events t)) - length (ch_queue (t_events t))) es \<and>
    ts_publicEventsDropped (t_stats (fold sendEvent es t)) = ts_publicEventsDropped (t_stats t) +
      of_nat (length es - (nat (ch_cap (t_events t)) - length (ch_queue (t_events t)))) \<and>
    ch_panicked (t_events (fold sendEvent es t)) = ch_panicked (t_events t)"
  using assms
proof (induction es arbitrary: t)
  case (Cons e es)
  let ?ch = "t_events t"
  show ?case
  proof (cases "int (length (ch_queue ?ch)) < ch_cap ?ch")
    case True
    let ?t = "t\<lparr>t_events := ?ch\<lparr>ch_queue := ch_queue ?ch @ [e]\<rparr>\<rparr>"
    have s: "sendEvent e t = ?t" using True Cons.prems by (simp add: sendEvent_def try_send_def)
    have "nat (ch_cap ?ch) - length (ch_queue ?ch) = Suc (nat (ch_cap ?ch) - Suc (length (ch_queue ?ch)))"
      using True by linarith
    then show ?thesis using Cons.IH [of ?t] True Cons.prems by (simp add: s)
  next
    case False
    let ?t = "t\<lparr>t_stats := (t_stats t)\<lparr>ts_publicEventsDropped := ts_publicEventsDropped (t_stats t) + 1\<rparr>\<rparr>"
    have s: "sendEvent e t = ?t" using False Cons.prems by (simp add: sendEvent_def try_send_def)
    have "nat (ch_cap ?ch) - length (ch_queue ?ch) = 0" using False by linarith
    then show ?thesis using Cons.IH [of ?t] Cons.prems by (simp add: s)
  qed
qed simp

section \<open>Properties\<close>


definition ex_config :: "(MemoryStore, unit) Config" where
  "ex_config = \<lparr>cf_Root = ''d/../e'', cf_Recursive = True, cf_Expected = None, cf_ExpectedScope = ExpectedRegularFiles,
     cf_ChangeSink = None, cf_Integrity = None, cf_Store = None, cf_Filter = None, cf_SymlinkPolicy = IgnoreSymlinks,
     cf_HardlinkPolicy = AllowHardlinks, cf_DebounceWindow = 0, cf_ReconcileInterval = 0, cf_EventBuffer = 0,
     cf_ReportEventLimit = 0, cf_ChangeBatchSize = 0\<rparr>"

definition ex_backend_ops :: "unit WatchBackend" where
  "ex_backend_ops = \<lparr>wb_Add = (\<lambda>p b. (None, b)), wb_Remove = (\<lambda>p b. (None, b))\<rparr>"

definition ex_new :: "GoError + (MemoryStore, unit, unit) Tracker" where
  "ex_new = New (Inr [0x1F, 0xA0]) (Inr ''/w'') (memory_store, NewMemoryStore) () ex_backend_ops () ex_config"


end
