(* ===== verification/Observer_Queue.thy ===== *)
theory Observer_Queue
  imports Tracker_State
begin

text \<open>
  The data of \<open>Observer\<close> (\<open>observer_types.go\<close>, \<open>observer.go\<close>) and its queue of invalidation
  hints: \<open>enqueue\<close>, \<open>escalateRootLocked\<close>, \<open>trySend\<close> and \<open>flush\<close>, each atomic under
  \<open>pendingMu\<close>. The map of pending hints is an association list; the order in which \<open>flush\<close>
  ranges over it is an argument. Shown: the bounds and the shape of the queue, that no invalidation
  is lost, and that flushing and receiving delivers everything.
\<close>

section \<open>observer_types.go\<close>

datatype HintScope = HintPath | HintSubtree | HintScopeUndeclared "8 word"

fun HintScope_String :: "HintScope \<Rightarrow> string" where
  "HintScope_String HintPath = ''PATH''"
| "HintScope_String HintSubtree = ''SUBTREE''"
| "HintScope_String (HintScopeUndeclared _) = ''UNKNOWN''"

text \<open>\<open>HintCause\<close> is a \<open>uint8\<close> that the code compares with \<open>>\<close>.\<close>

datatype HintCause = HintCause (cause_code: "8 word")

definition HintNativeChange :: HintCause where "HintNativeChange = HintCause 0"
definition HintStartup :: HintCause where "HintStartup = HintCause 1"
definition HintOverflow :: HintCause where "HintOverflow = HintCause 2"
definition HintBackendStopped :: HintCause where "HintBackendStopped = HintCause 3"

instantiation HintCause :: linorder
begin

definition less_eq_HintCause :: "HintCause \<Rightarrow> HintCause \<Rightarrow> bool" where
  "less_eq_HintCause a b = (cause_code a \<le> cause_code b)"

definition less_HintCause :: "HintCause \<Rightarrow> HintCause \<Rightarrow> bool" where
  "less_HintCause a b = (cause_code a < cause_code b)"

instance
  by standard (auto simp: less_eq_HintCause_def less_HintCause_def HintCause.expand)

end

definition HintCause_String :: "HintCause \<Rightarrow> string" where
  "HintCause_String c =
     (if c = HintNativeChange then ''NATIVE_CHANGE''
      else if c = HintStartup then ''STARTUP''
      else if c = HintOverflow then ''OVERFLOW''
      else if c = HintBackendStopped then ''BACKEND_STOPPED''
      else ''UNKNOWN'')"

record Hint =
  hn_Path :: string
  hn_Scope :: HintScope
  hn_Cause :: HintCause
  hn_Time :: Time

definition zero_Hint :: Hint where
  "zero_Hint = \<lparr>hn_Path = [], hn_Scope = HintPath, hn_Cause = HintCause 0, hn_Time = 0\<rparr>"

datatype ObserverState =
    ObserverCreated | ObserverStarting | ObserverRunning | ObserverDegraded | ObserverStopped
  | ObserverStateUndeclared "8 word"

fun ObserverState_String :: "ObserverState \<Rightarrow> string" where
  "ObserverState_String ObserverCreated = ''CREATED''"
| "ObserverState_String ObserverStarting = ''STARTING''"
| "ObserverState_String ObserverRunning = ''RUNNING''"
| "ObserverState_String ObserverDegraded = ''DEGRADED''"
| "ObserverState_String ObserverStopped = ''STOPPED''"
| "ObserverState_String (ObserverStateUndeclared _) = ''UNKNOWN''"

record ObserverConfig =
  oc_Root :: string
  oc_Recursive :: bool
  oc_DebounceWindow :: int
  oc_HintBuffer :: int
  oc_MaxPendingHints :: int
  oc_Filter :: "(string \<Rightarrow> bool) option"
  oc_SymlinkPolicy :: SymlinkPolicy

record ObserverStats =
  os_NativeEventsReceived :: "64 word"
  os_HintsEmitted :: "64 word"
  os_HintsCoalesced :: "64 word"
  os_OverflowCount :: "64 word"
  os_PendingHints :: "64 word"
  os_HintDeliveryDeferred :: "64 word"
  os_WatchedDirectories :: "64 word"

record observerStatsAtomic =
  oa_received :: "64 word"
  oa_emitted :: "64 word"
  oa_coalesced :: "64 word"
  oa_overflows :: "64 word"
  oa_dropped :: "64 word"

section \<open>Observer\<close>

text \<open>
  The backend of a running observer is a state and its operations. Whether \<open>cancel\<close> was called
  and whether \<open>closeOnce\<close> has fired are booleans.
\<close>

record 'b Observer =
  o_config :: ObserverConfig
  o_root :: string
  o_state :: ObserverState
  o_backendOps :: "'b WatchBackend"
  o_backend :: "'b option"
  o_tree :: "WatchTree option"
  o_cancelled :: bool
  o_closeOnce :: bool
  o_hints :: "Hint Chan"
  o_errors :: "GoError Chan"
  o_pending :: "Hint gomap"
  o_rootPending :: bool
  o_rootHint :: Hint
  o_stats :: observerStatsAtomic

definition observer_defaults :: "ObserverConfig \<Rightarrow> ObserverConfig" where
  "observer_defaults config = config
     \<lparr>oc_HintBuffer := (if oc_HintBuffer config = 0 then 256 else oc_HintBuffer config),
      oc_MaxPendingHints := (if oc_MaxPendingHints config = 0 then 10000 else oc_MaxPendingHints config),
      oc_DebounceWindow := (if oc_DebounceWindow config = 0 then 100 * 1000000 else oc_DebounceWindow config)\<rparr>"

definition NewObserver ::
  "GoError + string \<Rightarrow> 'b WatchBackend \<Rightarrow> ObserverConfig \<Rightarrow> GoError + 'b Observer" where
  "NewObserver getwd backend_ops config =
     (if oc_Root config = [] then Inl (ErrMsg ''fsrecon: observer root is required'')
      else if oc_SymlinkPolicy config = FollowSymlinks then Inl ErrObserverFollowSymlinksUnsupported
      else if oc_HintBuffer config < 0 \<or> oc_MaxPendingHints config < 0 \<or> oc_DebounceWindow config < 0
      then Inl (ErrMsg ''fsrecon: invalid observer limits'')
      else
        (case Abs_path getwd (oc_Root config) of
           Inl err \<Rightarrow> Inl err
         | Inr root \<Rightarrow>
             let config = observer_defaults (config\<lparr>oc_Root := Clean root\<rparr>) in
             Inr \<lparr>o_config = config, o_root = oc_Root config, o_state = ObserverCreated, o_backendOps = backend_ops,
                  o_backend = None, o_tree = None, o_cancelled = False, o_closeOnce = False,
                  o_hints = make_chan (oc_HintBuffer config), o_errors = make_chan 16, o_pending = [],
                  o_rootPending = False, o_rootHint = zero_Hint,
                  o_stats = \<lparr>oa_received = 0, oa_emitted = 0, oa_coalesced = 0, oa_overflows = 0, oa_dropped = 0\<rparr>\<rparr>))"

definition mergeHintCause :: "HintCause \<Rightarrow> HintCause \<Rightarrow> HintCause" where
  "mergeHintCause a b = (if b > a then b else a)"

definition obs_setState :: "ObserverState \<Rightarrow> 'b Observer \<Rightarrow> 'b Observer" where
  "obs_setState s ob = (if o_state ob \<noteq> ObserverStopped then ob\<lparr>o_state := s\<rparr> else ob)"

definition obs_sendError :: "GoError \<Rightarrow> 'b Observer \<Rightarrow> 'b Observer" where
  "obs_sendError err ob = ob\<lparr>o_errors := snd (try_send err (o_errors ob))\<rparr>"

section \<open>The queue of hints\<close>

definition trySend :: "Hint \<Rightarrow> 'b Observer \<Rightarrow> bool \<times> 'b Observer" where
  "trySend h ob =
     (case try_send h (o_hints ob) of (sent, ch) \<Rightarrow>
        if sent then (True, ob\<lparr>o_hints := ch, o_stats := (o_stats ob)\<lparr>oa_emitted := oa_emitted (o_stats ob) + 1\<rparr>\<rparr>)
        else (False, ob\<lparr>o_stats := (o_stats ob)\<lparr>oa_dropped := oa_dropped (o_stats ob) + 1\<rparr>\<rparr>))"

definition escalateRootLocked :: "HintCause \<Rightarrow> Time \<Rightarrow> 'b Observer \<Rightarrow> 'b Observer" where
  "escalateRootLocked cause now ob =
     (let h = \<lparr>hn_Path = o_root ob, hn_Scope = HintSubtree, hn_Cause = cause, hn_Time = now\<rparr>;
          h = (if o_rootPending ob then h\<lparr>hn_Cause := mergeHintCause (hn_Cause (o_rootHint ob)) cause\<rparr> else h)
      in ob\<lparr>o_rootHint := h, o_rootPending := True, o_pending := []\<rparr>)"

definition enqueue :: "Hint \<Rightarrow> 'b Observer \<Rightarrow> 'b Observer" where
  "enqueue h ob =
     (if hn_Scope h = HintSubtree \<and> hn_Path h = o_root ob then
        let h = (if o_rootPending ob then h\<lparr>hn_Cause := mergeHintCause (hn_Cause (o_rootHint ob)) (hn_Cause h)\<rparr> else h)
        in ob\<lparr>o_rootHint := h, o_rootPending := True, o_pending := []\<rparr>
      else if o_rootPending ob then ob
      else if map_of (o_pending ob) (hn_Path h) \<noteq> None
      then ob\<lparr>o_stats := (o_stats ob)\<lparr>oa_coalesced := oa_coalesced (o_stats ob) + 1\<rparr>\<rparr>
      else if int (length (o_pending ob)) \<ge> oc_MaxPendingHints (o_config ob)
      then escalateRootLocked HintNativeChange (hn_Time h) ob
      else ob\<lparr>o_pending := AList.update (hn_Path h) h (o_pending ob)\<rparr>)"

fun flush_loop :: "Hint gomap \<Rightarrow> 'b Observer \<Rightarrow> 'b Observer" where
  "flush_loop [] ob = ob"
| "flush_loop ((path, h) # m) ob =
     (case trySend h ob of
        (False, ob') \<Rightarrow> ob'
      | (True, ob') \<Rightarrow> flush_loop m (ob'\<lparr>o_pending := AList.delete path (o_pending ob')\<rparr>))"

definition obs_flush :: "(Hint gomap \<Rightarrow> Hint gomap) \<Rightarrow> 'b Observer \<Rightarrow> 'b Observer" where
  "obs_flush order ob =
     (if o_rootPending ob then
        (case trySend (o_rootHint ob) ob of
           (True, ob') \<Rightarrow> ob'\<lparr>o_rootPending := False\<rparr>
         | (False, ob') \<Rightarrow> ob')
      else flush_loop (order (o_pending ob)) ob)"

definition degrade :: "Time \<Rightarrow> GoError \<Rightarrow> 'b Observer \<Rightarrow> 'b Observer" where
  "degrade now err ob =
     obs_sendError err
       (enqueue \<lparr>hn_Path = o_root ob, hn_Scope = HintSubtree, hn_Cause = HintBackendStopped, hn_Time = now\<rparr>
         (obs_setState ObserverDegraded ob))"

definition pendingCount :: "'b Observer \<Rightarrow> 64 word" where
  "pendingCount ob = (if o_rootPending ob then 1 else of_nat (length (o_pending ob)))"

definition treeCount :: "'b Observer \<Rightarrow> int" where
  "treeCount ob = (case o_tree ob of None \<Rightarrow> 0 | Some t \<Rightarrow> wt_Count t)"

definition observer_State :: "'b Observer \<Rightarrow> ObserverState" where
  "observer_State ob = o_state ob"

definition observer_Stats :: "'b Observer \<Rightarrow> ObserverStats" where
  "observer_Stats ob =
     \<lparr>os_NativeEventsReceived = oa_received (o_stats ob), os_HintsEmitted = oa_emitted (o_stats ob),
      os_HintsCoalesced = oa_coalesced (o_stats ob), os_OverflowCount = oa_overflows (o_stats ob),
      os_PendingHints = pendingCount ob, os_HintDeliveryDeferred = oa_dropped (o_stats ob),
      os_WatchedDirectories = of_int (treeCount ob)\<rparr>"

text \<open>The receiver of \<open>Hints()\<close> takes the oldest hint.\<close>

definition receive_hint :: "'b Observer \<Rightarrow> Hint list \<times> 'b Observer" where
  "receive_hint ob =
     (case ch_queue (o_hints ob) of
        [] \<Rightarrow> ([], ob)
      | h # hs \<Rightarrow> ([h], ob\<lparr>o_hints := (o_hints ob)\<lparr>ch_queue := hs\<rparr>\<rparr>))"

section \<open>Runs of the queue\<close>

datatype queue_op = EnqueueOp Hint | FlushOp "Hint gomap \<Rightarrow> Hint gomap" | ReceiveOp

fun queue_step :: "queue_op \<Rightarrow> 'b Observer \<Rightarrow> Hint list \<times> 'b Observer" where
  "queue_step (EnqueueOp h) ob = ([], enqueue h ob)"
| "queue_step (FlushOp order) ob = ([], obs_flush order ob)"
| "queue_step ReceiveOp ob = receive_hint ob"

fun queue_run :: "queue_op list \<Rightarrow> 'b Observer \<Rightarrow> Hint list \<times> 'b Observer" where
  "queue_run [] ob = ([], ob)"
| "queue_run (op # ops) ob =
     (case queue_step op ob of (rs, ob') \<Rightarrow> case queue_run ops ob' of (rs', ob'') \<Rightarrow> (rs @ rs', ob''))"

fun op_ok :: "queue_op \<Rightarrow> bool" where
  "op_ok (FlushOp order) = (\<forall>m. mset (order m) = mset m)"
| "op_ok _ = True"

text \<open>
  The invariant: the pending hints are keyed by their paths and bounded, none is kept beside a
  pending root hint, the root hint is the subtree of the root, and the channel is within its
  capacity, open and not panicked.
\<close>

definition root_hint :: "string \<Rightarrow> Hint \<Rightarrow> bool" where
  "root_hint root h = (hn_Path h = root \<and> hn_Scope h = HintSubtree)"

definition chan_ok :: "'a Chan \<Rightarrow> bool" where
  "chan_ok ch = (\<not> ch_closed ch \<and> \<not> ch_panicked ch \<and> int (length (ch_queue ch)) \<le> ch_cap ch)"

definition queue_ok :: "'b Observer \<Rightarrow> bool" where
  "queue_ok ob = (gomap_ok (o_pending ob) \<and> (\<forall>(p, h) \<in> set (o_pending ob). hn_Path h = p) \<and>
     int (length (o_pending ob)) \<le> oc_MaxPendingHints (o_config ob) \<and>
     (o_rootPending ob \<longrightarrow> o_pending ob = [] \<and> root_hint (o_root ob) (o_rootHint ob)) \<and>
     chan_ok (o_hints ob))"

text \<open>What waits behind the channel, and everything that is not received yet.\<close>

definition waiting :: "'b Observer \<Rightarrow> Hint list" where
  "waiting ob = (if o_rootPending ob then [o_rootHint ob] else map snd (o_pending ob))"

definition outstanding :: "'b Observer \<Rightarrow> Hint multiset" where
  "outstanding ob = mset (ch_queue (o_hints ob)) + mset (waiting ob)"

lemma queue_ops_keep [simp]:
  "o_root (enqueue h ob) = o_root ob" "o_config (enqueue h ob) = o_config ob" "o_hints (enqueue h ob) = o_hints ob"
  "o_state (enqueue h ob) = o_state ob" "o_tree (enqueue h ob) = o_tree ob" "o_errors (enqueue h ob) = o_errors ob"
  "o_backend (enqueue h ob) = o_backend ob" "o_backendOps (enqueue h ob) = o_backendOps ob"
  "o_cancelled (enqueue h ob) = o_cancelled ob" "o_closeOnce (enqueue h ob) = o_closeOnce ob"
  by (simp_all add: enqueue_def escalateRootLocked_def Let_def)

lemma chan_ok_send:
  assumes "chan_ok ch"
  shows "try_send v ch =
    (if int (length (ch_queue ch)) < ch_cap ch then (True, ch\<lparr>ch_queue := ch_queue ch @ [v]\<rparr>) else (False, ch))"
    and "chan_ok (snd (try_send v ch))"
  using assms by (auto simp: try_send_def chan_ok_def)

text \<open>A send keeps everything but the channel and the counters.\<close>

lemma trySend_keep:
  assumes "trySend h ob = (r, ob')"
  shows "o_root ob' = o_root ob" "o_config ob' = o_config ob" "o_pending ob' = o_pending ob" "o_rootPending ob' = o_rootPending ob"
    "o_rootHint ob' = o_rootHint ob" "o_state ob' = o_state ob" "o_tree ob' = o_tree ob" "o_errors ob' = o_errors ob"
    "o_backend ob' = o_backend ob" "o_backendOps ob' = o_backendOps ob" "o_cancelled ob' = o_cancelled ob" "o_closeOnce ob' = o_closeOnce ob"
  using assms by (auto simp: trySend_def split: prod.splits if_splits)

lemma trySend_ok:
  assumes "chan_ok (o_hints ob)" and "trySend h ob = (r, ob')"
  shows "chan_ok (o_hints ob')" "ch_cap (o_hints ob') = ch_cap (o_hints ob)"
    "r \<longleftrightarrow> int (length (ch_queue (o_hints ob))) < ch_cap (o_hints ob)"
    "ch_queue (o_hints ob') = ch_queue (o_hints ob) @ (if r then [h] else [])"
  using assms by (auto simp: trySend_def chan_ok_send [OF assms(1)] chan_ok_def split: if_splits)

lemma enqueue_ok:
  assumes "queue_ok ob"
  shows "queue_ok (enqueue h ob)"
  using assms
  by (auto simp: queue_ok_def enqueue_def escalateRootLocked_def root_hint_def Let_def map_of_eq_None_iff
      gomap_update_new)

lemma flush_loop_sent:
  assumes "chan_ok (o_hints ob)"
  shows "\<exists>n \<le> length m. ch_queue (o_hints (flush_loop m ob)) = ch_queue (o_hints ob) @ map snd (take n m) \<and>
    o_pending (flush_loop m ob) = filter (\<lambda>x. fst x \<notin> fst ` set (take n m)) (o_pending ob) \<and>
    (n < length m \<longrightarrow> int (length (ch_queue (o_hints (flush_loop m ob)))) = ch_cap (o_hints ob)) \<and>
    chan_ok (o_hints (flush_loop m ob)) \<and> ch_cap (o_hints (flush_loop m ob)) = ch_cap (o_hints ob)"
  using assms
proof (induction m arbitrary: ob)
  case Nil
  then show ?case by simp
next
  case (Cons ph m)
  obtain p h where ph: "ph = (p, h)" by fastforce
  obtain r ob1 where t: "trySend h ob = (r, ob1)" by fastforce
  note k = trySend_keep [OF t] and c = trySend_ok [OF Cons.prems t]
  show ?case
  proof (cases r)
    case False
    with c k t ph Cons.prems show ?thesis by (intro exI [of _ 0]) (auto simp: chan_ok_def)
  next
    case True
    let ?ob = "ob1\<lparr>o_pending := AList.delete p (o_pending ob1)\<rparr>"
    from Cons.IH [of ?ob] c(1) obtain n where n: "n \<le> length m"
      "ch_queue (o_hints (flush_loop m ?ob)) = ch_queue (o_hints ob1) @ map snd (take n m)"
      "o_pending (flush_loop m ?ob) = filter (\<lambda>x. fst x \<notin> fst ` set (take n m)) (AList.delete p (o_pending ob1))"
      "n < length m \<longrightarrow> int (length (ch_queue (o_hints (flush_loop m ?ob)))) = ch_cap (o_hints ob1)"
      "chan_ok (o_hints (flush_loop m ?ob))" "ch_cap (o_hints (flush_loop m ?ob)) = ch_cap (o_hints ob1)" by auto
    have "filter (\<lambda>x. fst x \<notin> fst ` set (take n m)) (AList.delete p (o_pending ob)) =
        filter (\<lambda>x. fst x \<notin> fst ` set (take (Suc n) (ph # m))) (o_pending ob)"
      by (auto simp: ph AList.delete_eq intro!: filter_cong)
    with n True c k t ph show ?thesis by (intro exI [of _ "Suc n"]) simp
  qed
qed

lemma flush_loop_keep [simp]:
  "o_root (flush_loop m ob) = o_root ob" "o_config (flush_loop m ob) = o_config ob" "o_rootPending (flush_loop m ob) = o_rootPending ob"
  "o_rootHint (flush_loop m ob) = o_rootHint ob" "o_state (flush_loop m ob) = o_state ob" "o_tree (flush_loop m ob) = o_tree ob"
  "o_errors (flush_loop m ob) = o_errors ob" "o_backend (flush_loop m ob) = o_backend ob"
  "o_backendOps (flush_loop m ob) = o_backendOps ob" "o_cancelled (flush_loop m ob) = o_cancelled ob"
  "o_closeOnce (flush_loop m ob) = o_closeOnce ob"
  by (induction m ob rule: flush_loop.induct) (auto split: prod.splits bool.splits dest: trySend_keep)

lemma flush_keep [simp]:
  "o_root (obs_flush order ob) = o_root ob" "o_config (obs_flush order ob) = o_config ob" "o_state (obs_flush order ob) = o_state ob"
  "o_tree (obs_flush order ob) = o_tree ob" "o_errors (obs_flush order ob) = o_errors ob" "o_backend (obs_flush order ob) = o_backend ob"
  "o_backendOps (obs_flush order ob) = o_backendOps ob" "o_cancelled (obs_flush order ob) = o_cancelled ob"
  "o_closeOnce (obs_flush order ob) = o_closeOnce ob"
  by (auto simp: obs_flush_def split: prod.splits bool.splits dest: trySend_keep)

text \<open>
  One flush moves hints from the wait to the channel, keeps their number, and stops only when
  nothing waits or the channel is full.
\<close>

lemma flush_moves:
  assumes "queue_ok ob" and "\<forall>m. mset (order m) = mset m"
  shows "\<exists>sent. ch_queue (o_hints (obs_flush order ob)) = ch_queue (o_hints ob) @ sent \<and>
    mset (waiting ob) = mset sent + mset (waiting (obs_flush order ob)) \<and>
    (waiting (obs_flush order ob) \<noteq> [] \<longrightarrow> int (length (ch_queue (o_hints (obs_flush order ob)))) = ch_cap (o_hints ob)) \<and>
    queue_ok (obs_flush order ob) \<and> ch_cap (o_hints (obs_flush order ob)) = ch_cap (o_hints ob)"
proof (cases "o_rootPending ob")
  case True
  obtain r ob1 where t: "trySend (o_rootHint ob) ob = (r, ob1)" by fastforce
  have ch: "chan_ok (o_hints ob)" using assms(1) by (simp add: queue_ok_def)
  note k = trySend_keep [OF t] and c = trySend_ok [OF ch t]
  show ?thesis
  proof (cases r)
    case r: True
    with True t k c assms(1) show ?thesis
      by (intro exI [of _ "[o_rootHint ob]"]) (simp add: obs_flush_def waiting_def queue_ok_def)
  next
    case r: False
    with True t k c assms(1) ch show ?thesis
      by (intro exI [of _ "[]"]) (auto simp: obs_flush_def waiting_def queue_ok_def chan_ok_def)
  qed
next
  case False
  let ?m = "order (o_pending ob)" and ?ob = "obs_flush order ob"
  have m: "mset ?m = mset (o_pending ob)" and ch: "chan_ok (o_hints ob)" and g: "gomap_ok (o_pending ob)"
    using assms by (simp_all add: queue_ok_def)
  have ob: "?ob = flush_loop ?m ob" using False by (simp add: obs_flush_def)
  have dist: "distinct (map fst ?m)" using m g by (metis mset_eq_imp_distinct_iff mset_map)
  obtain n where n: "n \<le> length ?m" "ch_queue (o_hints ?ob) = ch_queue (o_hints ob) @ map snd (take n ?m)"
    "o_pending ?ob = filter (\<lambda>x. fst x \<notin> fst ` set (take n ?m)) (o_pending ob)"
    "n < length ?m \<longrightarrow> int (length (ch_queue (o_hints ?ob))) = ch_cap (o_hints ob)"
    "chan_ok (o_hints ?ob)" "ch_cap (o_hints ?ob) = ch_cap (o_hints ob)"
    using flush_loop_sent [OF ch, of ?m] unfolding ob by blast
  have "mset (o_pending ?ob) = filter_mset (\<lambda>x. fst x \<notin> fst ` set (take n ?m)) (mset ?m)"
    using m n(3) by (simp add: mset_filter)
  also have "\<dots> = mset (filter (\<lambda>x. fst x \<notin> fst ` set (take n ?m)) (take n ?m @ drop n ?m))"
    by (simp only: append_take_drop_id mset_filter)
  also have "filter (\<lambda>x. fst x \<notin> fst ` set (take n ?m)) (take n ?m @ drop n ?m) = drop n ?m"
    by (rule filter_other_keys) (simp only: append_take_drop_id dist)
  finally have p: "mset (o_pending ?ob) = mset (drop n ?m)" .
  have "mset (map snd (o_pending ob)) = image_mset snd (mset (take n ?m @ drop n ?m))"
    using m by simp
  also have "\<dots> = mset (map snd (take n ?m)) + mset (map snd (o_pending ?ob))"
    using p by (simp only: mset_append image_mset_union mset_map)
  finally have w: "mset (map snd (o_pending ob)) = mset (map snd (take n ?m)) + mset (map snd (o_pending ?ob))" .
  have rp: "o_rootPending ?ob = False" using False ob by simp
  have full: "n < length ?m" if "o_pending ?ob \<noteq> []"
    using that p n(1) by (metis drop_all leI mset_zero_iff)
  have "length (o_pending ?ob) \<le> length (o_pending ob)" "set (o_pending ?ob) \<subseteq> set (o_pending ob)" "gomap_ok (o_pending ?ob)"
    unfolding n(3) using g by (auto simp: distinct_map_filter)
  then have "queue_ok ?ob" using assms(1) n(5) rp by (auto simp: queue_ok_def)
  with n(2,4,6) w rp False full show ?thesis by (intro exI [of _ "map snd (take n ?m)"]) (auto simp: waiting_def)
qed

text \<open>
  A hint answers an invalidation when it is the subtree of the root, or has the same path and is
  not weaker. An invalidation is retained while such a hint waits.
\<close>

definition answers :: "string \<Rightarrow> Hint \<Rightarrow> Hint \<Rightarrow> bool" where
  "answers root g h = (root_hint root g \<or> hn_Path g = hn_Path h \<and> (hn_Scope h = HintSubtree \<longrightarrow> hn_Scope g = HintSubtree))"

definition retained :: "'b Observer \<Rightarrow> Hint \<Rightarrow> bool" where
  "retained ob h = (\<exists>g \<in> set (waiting ob). answers (o_root ob) g h)"

definition weaker_pending :: "'b Observer \<Rightarrow> Hint \<Rightarrow> bool" where
  "weaker_pending ob h = (case map_of (o_pending ob) (hn_Path h) of
     None \<Rightarrow> False | Some g \<Rightarrow> hn_Scope h = HintSubtree \<and> hn_Scope g \<noteq> HintSubtree)"

lemma enqueue_root:
  assumes "o_rootPending ob \<or> root_hint (o_root ob) h"
  shows "o_rootPending (enqueue h ob)"
  using assms by (auto simp: enqueue_def root_hint_def escalateRootLocked_def Let_def)

lemma root_waits: "queue_ok ob \<Longrightarrow> o_rootPending ob \<Longrightarrow> retained ob h"
  by (simp add: queue_ok_def retained_def waiting_def answers_def)

lemma enqueue_answers:
  assumes "queue_ok ob" and "hn_Path h' = hn_Path h" and "hn_Scope h' = HintSubtree \<longrightarrow> hn_Scope h = HintSubtree"
    and "\<not> weaker_pending ob h'"
  shows "retained (enqueue h ob) h'"
proof (cases "o_rootPending (enqueue h ob)")
  case True
  then show ?thesis by (rule root_waits [OF enqueue_ok [OF assms(1)]])
next
  case False
  with enqueue_root [of ob h] have nr: "\<not> o_rootPending ob" "\<not> root_hint (o_root ob) h" by auto
  show ?thesis
  proof (cases "map_of (o_pending ob) (hn_Path h)")
    case (Some g)
    then have "(hn_Path h, g) \<in> set (o_pending ob)" by (rule map_of_SomeD)
    then have "g \<in> set (waiting ob)" "hn_Path g = hn_Path h" using assms(1) nr(1) by (force simp: waiting_def queue_ok_def)+
    with Some assms(2,4) nr show ?thesis
      by (auto simp: enqueue_def root_hint_def retained_def weaker_pending_def answers_def waiting_def)
  next
    case None
    then have "enqueue h ob = ob\<lparr>o_pending := o_pending ob @ [(hn_Path h, h)]\<rparr>"
      using False nr by (auto simp: enqueue_def root_hint_def escalateRootLocked_def map_of_eq_None_iff gomap_update_new Let_def)
    then show ?thesis using nr assms(2,3) by (simp add: retained_def waiting_def answers_def)
  qed
qed

lemma enqueue_retains:
  assumes "queue_ok ob" and "\<not> weaker_pending ob h"
  shows "retained (enqueue h ob) h"
  using assms by (simp add: enqueue_answers)

lemma enqueue_keeps_retained:
  assumes "queue_ok ob" and "retained ob h"
  shows "retained (enqueue g ob) h"
proof (cases "o_rootPending (enqueue g ob)")
  case True
  then show ?thesis by (rule root_waits [OF enqueue_ok [OF assms(1)]])
next
  case False
  with enqueue_root [of ob g] have nr: "\<not> o_rootPending ob" "\<not> root_hint (o_root ob) g" by auto
  then have "set (o_pending ob) \<subseteq> set (o_pending (enqueue g ob))"
    using False by (auto simp: enqueue_def root_hint_def escalateRootLocked_def map_of_eq_None_iff gomap_update_new Let_def split: if_splits)
  with assms(2) nr(1) False show ?thesis by (auto simp: retained_def waiting_def)
qed

lemma flush_retains:
  assumes "queue_ok ob" and "op_ok (FlushOp order)" and "retained ob h"
    and "ch_queue (o_hints (obs_flush order ob)) = ch_queue (o_hints ob) @ sent"
  shows "retained (obs_flush order ob) h \<or> (\<exists>g \<in> set sent. answers (o_root ob) g h)"
proof -
  obtain sent' where s: "ch_queue (o_hints (obs_flush order ob)) = ch_queue (o_hints ob) @ sent'"
    "mset (waiting ob) = mset sent' + mset (waiting (obs_flush order ob))"
    using flush_moves [OF assms(1), of order] assms(2) by auto
  then have "set (waiting ob) = set sent \<union> set (waiting (obs_flush order ob))"
    using assms(4) by (metis append_same_eq same_append_eq set_mset_mset set_mset_union)
  with assms(3) show ?thesis by (auto simp: retained_def)
qed

lemma receive_hint_spec:
  assumes "receive_hint ob = (rs, ob')"
  shows "rs @ ch_queue (o_hints ob') = ch_queue (o_hints ob)" "waiting ob' = waiting ob" "o_root ob' = o_root ob"
    "o_config ob' = o_config ob" "ch_cap (o_hints ob') = ch_cap (o_hints ob)" "queue_ok ob \<Longrightarrow> queue_ok ob'"
    "length rs = min 1 (length (ch_queue (o_hints ob)))"
  using assms by (auto simp: receive_hint_def waiting_def queue_ok_def chan_ok_def split: list.splits)

lemma queue_step_spec:
  assumes "queue_ok ob" and "op_ok op" and "queue_step op ob = (rs, ob')"
  shows "queue_ok ob' \<and> o_root ob' = o_root ob \<and> o_config ob' = o_config ob \<and> ch_cap (o_hints ob') = ch_cap (o_hints ob) \<and>
    (\<exists>sent. rs @ ch_queue (o_hints ob') = ch_queue (o_hints ob) @ sent \<and>
      (\<forall>h. retained ob h \<longrightarrow> retained ob' h \<or> (\<exists>g \<in> set sent. answers (o_root ob) g h)))"
proof (cases op)
  case (EnqueueOp h)
  with assms show ?thesis by (auto simp: enqueue_ok enqueue_keeps_retained)
next
  case (FlushOp order)
  obtain sent where s: "ch_queue (o_hints (obs_flush order ob)) = ch_queue (o_hints ob) @ sent"
    "queue_ok (obs_flush order ob)" "ch_cap (o_hints (obs_flush order ob)) = ch_cap (o_hints ob)"
    using flush_moves [OF assms(1), of order] assms(2) FlushOp by auto
  from flush_retains [OF assms(1) _ _ s(1)] assms(2) s FlushOp assms(3) show ?thesis by auto
next
  case ReceiveOp
  with assms(3) have r: "receive_hint ob = (rs, ob')" by simp
  note s = receive_hint_spec [OF r]
  from s assms(1) show ?thesis by (auto simp: retained_def)
qed

lemma queue_run_spec:
  assumes "queue_ok ob" and "list_all op_ok ops" and "queue_run ops ob = (rs, ob')"
  shows "queue_ok ob' \<and> o_root ob' = o_root ob \<and> o_config ob' = o_config ob \<and> ch_cap (o_hints ob') = ch_cap (o_hints ob) \<and>
    (\<exists>sent. rs @ ch_queue (o_hints ob') = ch_queue (o_hints ob) @ sent \<and>
      (\<forall>h. retained ob h \<longrightarrow> retained ob' h \<or> (\<exists>g \<in> set sent. answers (o_root ob) g h)))"
  using assms
proof (induction ops arbitrary: ob rs)
  case Nil
  then show ?case by simp
next
  case (Cons op ops)
  obtain r1 ob1 where s: "queue_step op ob = (r1, ob1)" by fastforce
  obtain r2 where r: "queue_run ops ob1 = (r2, ob')" "rs = r1 @ r2" using Cons.prems(3) s by (auto split: prod.splits)
  note s1 = queue_step_spec [OF Cons.prems(1) _ s]
  from s1 Cons.prems(2) obtain sent1 where s1: "queue_ok ob1" "o_root ob1 = o_root ob" "o_config ob1 = o_config ob"
    "ch_cap (o_hints ob1) = ch_cap (o_hints ob)" "r1 @ ch_queue (o_hints ob1) = ch_queue (o_hints ob) @ sent1"
    "\<forall>h. retained ob h \<longrightarrow> retained ob1 h \<or> (\<exists>g \<in> set sent1. answers (o_root ob) g h)" by auto
  from Cons.IH [OF s1(1) _ r(1)] Cons.prems(2) obtain sent2 where s2: "queue_ok ob'" "o_root ob' = o_root ob1"
    "o_config ob' = o_config ob1" "ch_cap (o_hints ob') = ch_cap (o_hints ob1)"
    "r2 @ ch_queue (o_hints ob') = ch_queue (o_hints ob1) @ sent2"
    "\<forall>h. retained ob1 h \<longrightarrow> retained ob' h \<or> (\<exists>g \<in> set sent2. answers (o_root ob1) g h)" by auto
  have "rs @ ch_queue (o_hints ob') = r1 @ ch_queue (o_hints ob1) @ sent2" using r(2) s2(5) by simp
  also have "\<dots> = ch_queue (o_hints ob) @ sent1 @ sent2" using s1(5) by (metis append.assoc)
  finally show ?case using s1 s2 by (intro conjI exI [of _ "sent1 @ sent2"]) auto
qed

lemma NewObserver_queue_ok: "NewObserver getwd ops config = Inr ob \<Longrightarrow> queue_ok ob \<and>
    0 < oc_MaxPendingHints (o_config ob) \<and> 0 < ch_cap (o_hints ob)"
  by (auto simp: NewObserver_def queue_ok_def chan_ok_def make_chan_def observer_defaults_def Let_def split: if_splits sum.splits)

text \<open>A round of the emitter and the consumer takes one hint away.\<close>

lemma outstanding_zero: "outstanding ob = {#} \<longleftrightarrow> ch_queue (o_hints ob) = [] \<and> waiting ob = []"
  by (auto simp: outstanding_def)

lemma flush_outstanding:
  assumes "queue_ok ob" and "\<forall>m. mset (order m) = mset m"
  shows "outstanding (obs_flush order ob) = outstanding ob"
  using flush_moves [OF assms] by (auto simp: outstanding_def)

lemma round_takes_one:
  assumes "queue_ok ob" and "\<forall>m. mset (order m) = mset m" and "0 < ch_cap (o_hints ob)"
    and "receive_hint (obs_flush order ob) = (rs, ob')"
  shows "queue_ok ob' \<and> ch_cap (o_hints ob') = ch_cap (o_hints ob) \<and> outstanding ob = mset rs + outstanding ob' \<and>
    size (outstanding ob') = size (outstanding ob) - 1"
proof -
  let ?f = "obs_flush order ob"
  note f = flush_moves [OF assms(1,2)] flush_outstanding [OF assms(1,2)] and r = receive_hint_spec [OF assms(4)]
  have eq: "outstanding ob = mset rs + outstanding ob'"
    using r(2) f(2) unfolding outstanding_def r(1) [symmetric] by (simp add: ac_simps)
  have "outstanding ob \<noteq> {#} \<Longrightarrow> ch_queue (o_hints ?f) \<noteq> []"
    using f assms(3) by (auto simp: outstanding_zero)
  then have "length rs = (if outstanding ob = {#} then 0 else 1)"
    using r(7) f(2) outstanding_zero [of ?f] by (auto simp: min_def Suc_le_eq)
  with eq have "size (outstanding ob') = size (outstanding ob) - 1" by (cases "outstanding ob = {#}") simp_all
  with eq f(1) r(5,6) show ?thesis by auto
qed

lemma rounds_drain:
  assumes "queue_ok ob" and "\<forall>m. mset (order m) = mset m" and "0 < ch_cap (o_hints ob)"
    and "queue_run (concat (replicate n [FlushOp order, ReceiveOp])) ob = (rs, ob')"
  shows "outstanding ob = mset rs + outstanding ob' \<and> size (outstanding ob') = size (outstanding ob) - n"
  using assms
proof (induction n arbitrary: ob rs)
  case 0
  then show ?case by simp
next
  case (Suc n)
  obtain r1 ob1 where s: "receive_hint (obs_flush order ob) = (r1, ob1)" by fastforce
  obtain r2 where r: "queue_run (concat (replicate n [FlushOp order, ReceiveOp])) ob1 = (r2, ob')" "rs = r1 @ r2"
    using Suc.prems(4) s by (auto split: prod.splits)
  note s1 = round_takes_one [OF Suc.prems(1-3) s]
  have "queue_ok ob1" "0 < ch_cap (o_hints ob1)" using s1 Suc.prems(3) by simp_all
  note o2 = Suc.IH [OF this(1) Suc.prems(2) this(2) r(1), THEN conjunct1] Suc.IH [OF this(1) Suc.prems(2) this(2) r(1), THEN conjunct2]
  from s1 have e: "outstanding ob = mset r1 + outstanding ob1" and z: "size (outstanding ob1) = size (outstanding ob) - 1"
    by blast+
  show ?case
  proof
    show "outstanding ob = mset rs + outstanding ob'" unfolding e o2(1) r(2) by simp
    show "size (outstanding ob') = size (outstanding ob) - Suc n" unfolding o2(2) z by simp
  qed
qed

section \<open>Properties\<close>

text \<open>C36: the memory of an observer is bounded. From a new observer on, whatever hints arrive in
  whatever order and however the emitter and the consumer are scheduled: at most
  \<open>MaxPendingHints\<close> precise hints are pending, none beside a pending root hint, the root hint is the
  subtree of the root, the public channel holds at most \<open>HintBuffer\<close> hints, and no send panics.\<close>

theorem observer_queue_bounded:
  assumes "NewObserver getwd ops config = Inr ob" and "list_all op_ok qs" and "queue_run qs ob = (rs, ob')"
  shows "int (length (o_pending ob')) \<le> oc_MaxPendingHints (o_config ob') \<and>
    (o_rootPending ob' \<longrightarrow> o_pending ob' = [] \<and> hn_Path (o_rootHint ob') = o_root ob' \<and> hn_Scope (o_rootHint ob') = HintSubtree) \<and>
    distinct (map fst (o_pending ob')) \<and> (\<forall>(p, h) \<in> set (o_pending ob'). hn_Path h = p) \<and>
    int (length (ch_queue (o_hints ob'))) \<le> oc_HintBuffer (o_config ob') \<and> \<not> ch_panicked (o_hints ob')"
proof -
  note q = NewObserver_queue_ok [OF assms(1)]
  have "ch_cap (o_hints ob) = oc_HintBuffer (o_config ob)"
    using assms(1) by (auto simp: NewObserver_def make_chan_def Let_def split: if_splits sum.splits)
  with queue_run_spec [OF _ assms(2,3)] q show ?thesis by (auto simp: queue_ok_def chan_ok_def root_hint_def)
qed

text \<open>C10: no invalidation is lost. After a hint is enqueued, and after any further hints, flushes and
  receives, either a hint that answers it still waits, or one was sent to the public channel after
  it was enqueued: the same path with at least the same scope, or the subtree of the root. The
  channel is first in, first out. The one exception of the code is excluded by hypothesis: a
  subtree hint that meets a pending plain hint of the same path.\<close>

theorem hints_not_lost:
  assumes "queue_ok ob" and "\<not> weaker_pending ob h" and "list_all op_ok qs" and "queue_run qs (enqueue h ob) = (received, ob')"
  shows "\<exists>sent. received @ ch_queue (o_hints ob') = ch_queue (o_hints ob) @ sent \<and>
    ((\<exists>g \<in> set (waiting ob'). answers (o_root ob) g h) \<or> (\<exists>g \<in> set sent. answers (o_root ob) g h))"
proof -
  note e = enqueue_retains [OF assms(1,2)] and q = queue_run_spec [OF enqueue_ok [OF assms(1)] assms(3,4)]
  from q obtain sent where "received @ ch_queue (o_hints ob') = ch_queue (o_hints ob) @ sent"
    "retained ob' h \<or> (\<exists>g \<in> set sent. answers (o_root ob) g h)" "o_root ob' = o_root ob" using e by auto
  then show ?thesis by (auto simp: retained_def)
qed

text \<open>C33: every hint is delivered. When no further hint arrives, after as many rounds of one flush
  and one receive as there are hints outstanding, nothing is pending and the channel is empty, and
  the consumer has received exactly the hints that were in the channel and those that were pending,
  each once.\<close>

theorem hints_delivered:
  assumes "queue_ok ob" and "\<forall>m. mset (order m) = mset m" and "0 < ch_cap (o_hints ob)"
    and "length (ch_queue (o_hints ob)) + length (waiting ob) \<le> n"
    and "queue_run (concat (replicate n [FlushOp order, ReceiveOp])) ob = (received, ob')"
  shows "\<not> o_rootPending ob' \<and> o_pending ob' = [] \<and> ch_queue (o_hints ob') = [] \<and>
    mset received = mset (ch_queue (o_hints ob)) + mset (waiting ob)"
proof -
  note d = rounds_drain [OF assms(1-3,5)]
  have "size (outstanding ob) \<le> n" using assms(4) by (simp add: outstanding_def)
  with d have "outstanding ob' = {#}" by (metis diff_is_0_eq size_eq_0_iff_empty)
  with d show ?thesis by (auto simp: outstanding_def waiting_def split: if_splits)
qed

text \<open>
  The exception: a subtree hint that meets a pending plain hint of the same path is counted as
  coalesced, and only the plain hint remains.
\<close>

definition ex_hint :: "string \<Rightarrow> HintScope \<Rightarrow> Hint" where
  "ex_hint p s = \<lparr>hn_Path = p, hn_Scope = s, hn_Cause = HintNativeChange, hn_Time = 1\<rparr>"

definition ex_observer :: "unit Observer" where
  "ex_observer = (case NewObserver (Inr ''/'') ex_backend_ops
     \<lparr>oc_Root = ''/r'', oc_Recursive = True, oc_DebounceWindow = 0, oc_HintBuffer = 1, oc_MaxPendingHints = 2,
      oc_Filter = None, oc_SymlinkPolicy = ReportSymlinks\<rparr> of Inr ob \<Rightarrow> ob)"

lemma subtree_hint_lost:
  "waiting (enqueue (ex_hint ''/r/d'' HintSubtree) (enqueue (ex_hint ''/r/d'' HintPath) ex_observer)) = [ex_hint ''/r/d'' HintPath] \<and>
   \<not> answers ''/r'' (ex_hint ''/r/d'' HintPath) (ex_hint ''/r/d'' HintSubtree)"
  by code_simp

lemma ex_observer_New: "NewObserver (Inr ''/'') ex_backend_ops
     \<lparr>oc_Root = ''/r'', oc_Recursive = True, oc_DebounceWindow = 0, oc_HintBuffer = 1, oc_MaxPendingHints = 2,
      oc_Filter = None, oc_SymlinkPolicy = ReportSymlinks\<rparr> = Inr ex_observer"
proof -
  have "Clean ''/r'' = ''/r''" by code_simp
  then show ?thesis by (simp add: ex_observer_def NewObserver_def Abs_path_def IsAbs_def Let_def)
qed

definition ex_queue_ops :: "queue_op list" where
  "ex_queue_ops = [EnqueueOp (ex_hint ''/r/a'' HintPath), EnqueueOp (ex_hint ''/r/b'' HintPath), FlushOp rev,
     EnqueueOp (ex_hint ''/r/c'' HintPath), EnqueueOp (ex_hint ''/r/d'' HintPath)]"

lemma ex_queue_ops_ok: "list_all op_ok ex_queue_ops"
  by (simp add: ex_queue_ops_def)

theorem observer_queue_bounded_witness:
  "o_rootPending (snd (queue_run ex_queue_ops ex_observer)) \<and> o_pending (snd (queue_run ex_queue_ops ex_observer)) = [] \<and>
   int (length (ch_queue (o_hints (snd (queue_run ex_queue_ops ex_observer))))) \<le>
     oc_HintBuffer (o_config (snd (queue_run ex_queue_ops ex_observer)))"
proof -
  have "o_rootPending (snd (queue_run ex_queue_ops ex_observer))" by code_simp
  then show ?thesis
    using observer_queue_bounded [OF ex_observer_New ex_queue_ops_ok] by (metis prod.collapse)
qed

theorem hints_not_lost_witness:
  "(\<exists>sent. fst (queue_run ex_queue_ops (enqueue (ex_hint ''/r/x'' HintPath) ex_observer)) @
       ch_queue (o_hints (snd (queue_run ex_queue_ops (enqueue (ex_hint ''/r/x'' HintPath) ex_observer)))) =
       ch_queue (o_hints ex_observer) @ sent \<and>
     ((\<exists>g \<in> set (waiting (snd (queue_run ex_queue_ops (enqueue (ex_hint ''/r/x'' HintPath) ex_observer)))).
         answers (o_root ex_observer) g (ex_hint ''/r/x'' HintPath)) \<or>
      (\<exists>g \<in> set sent. answers (o_root ex_observer) g (ex_hint ''/r/x'' HintPath))))"
proof -
  have q: "queue_ok ex_observer" using NewObserver_queue_ok [OF ex_observer_New] by simp
  have w: "\<not> weaker_pending ex_observer (ex_hint ''/r/x'' HintPath)" by code_simp
  show ?thesis by (rule hints_not_lost [OF q w ex_queue_ops_ok]) simp
qed

theorem hints_delivered_witness:
  "mset (fst (queue_run (concat (replicate 2 [FlushOp rev, ReceiveOp]))
      (enqueue (ex_hint ''/r/b'' HintPath) (enqueue (ex_hint ''/r/a'' HintPath) ex_observer)))) =
     {#ex_hint ''/r/a'' HintPath, ex_hint ''/r/b'' HintPath#}"
proof -
  let ?ob = "enqueue (ex_hint ''/r/b'' HintPath) (enqueue (ex_hint ''/r/a'' HintPath) ex_observer)"
  note n = NewObserver_queue_ok [OF ex_observer_New]
  then have q: "queue_ok ?ob" "0 < ch_cap (o_hints ?ob)" by (simp_all add: enqueue_ok)
  have w: "waiting ?ob = [ex_hint ''/r/a'' HintPath, ex_hint ''/r/b'' HintPath]" "ch_queue (o_hints ?ob) = []" by code_simp+
  have "\<forall>m :: Hint gomap. mset (rev m) = mset m" by simp
  from hints_delivered [OF q(1) this q(2) _ prod.collapse [symmetric], of 2] w show ?thesis by simp
qed

end
