(* ===== verification/Scanner_Walk.thy ===== *)
theory Scanner_Walk
  imports Watch_Tree
begin

text \<open>
  \<open>internal/scanner\<close>: the policy-aware traversal of a directory tree, with the Unix file
  identity. The file system is a parameter, the answers of \<open>os.Lstat\<close>, \<open>os.Stat\<close>,
  \<open>os.Open\<close> and \<open>ReadDir\<close> for every path, with nothing assumed about how they fit together,
  so a tree that changes under the scan is covered. A directory is read in batches until an error
  or the end (\<open>None\<close>). The traversal recurses into directories; its fuel bounds the depth, and
  not returning is the value \<open>None\<close>. The theory shows how much fuel is enough.
\<close>

section \<open>File system\<close>

record Stat_t =
  st_Dev :: "64 word"
  st_Ino :: "64 word"
  st_Nlink :: "64 word"

record FileInfo =
  fi_Mode :: "32 word"
  fi_Size :: "64 word"
  fi_ModTime :: Time
  fi_Sys :: "Stat_t option"

record FS =
  fs_Lstat :: "string \<Rightarrow> GoError + FileInfo"
  fs_Stat :: "string \<Rightarrow> GoError + FileInfo"
  fs_Open :: "string \<Rightarrow> GoError option"
  fs_ReadDir :: "string \<Rightarrow> string list list \<times> GoError option"

section \<open>Data and operations\<close>

datatype ScanPolicy = ScanIgnoreSymlinks | ScanReportSymlinks | ScanFollowSymlinks | ScanRejectSymlinks

record Entry =
  en_Path :: string
  en_Identity :: string
  en_Type :: "32 word"
  en_Size :: "64 word"
  en_ModTime :: Time
  en_Mode :: "32 word"
  en_Links :: "64 word"

record Scanner =
  sc_Recursive :: bool
  sc_SymlinkPolicy :: ScanPolicy
  sc_Filter :: "(Entry \<Rightarrow> bool) option"

definition fileIdentity :: "string \<Rightarrow> FileInfo \<Rightarrow> bool \<Rightarrow> GoError + (string \<times> 64 word)" where
  "fileIdentity path info followSymlink =
     (case fi_Sys info of
        None \<Rightarrow> Inr ([], 0)
      | Some stat \<Rightarrow> Inr (fmt_x (st_Dev stat) @ '':'' @ fmt_x (st_Ino stat), st_Nlink stat))"

definition makeEntry :: "string \<Rightarrow> FileInfo \<Rightarrow> bool \<Rightarrow> GoError + Entry" where
  "makeEntry path info followSymlink =
     (case fileIdentity path info followSymlink of
        Inl err \<Rightarrow> Inl err
      | Inr (ident, links) \<Rightarrow>
          Inr \<lparr>en_Path = path, en_Identity = ident, en_Type = fi_Mode info AND ModeType, en_Size = fi_Size info,
               en_ModTime = fi_ModTime info, en_Mode = fi_Mode info, en_Links = links\<rparr>)"

definition scan_error :: "string \<Rightarrow> GoError" where
  "scan_error path = ErrWrap (''scan '' @ path @ '': '') ScannerErrSymlink []"

definition filtered :: "Scanner \<Rightarrow> Entry \<Rightarrow> bool" where
  "filtered s entry = (case sc_Filter s of None \<Rightarrow> False | Some keep \<Rightarrow> \<not> keep entry)"

definition emit ::
  "Scanner \<Rightarrow> Ctx \<Rightarrow> string \<Rightarrow> FileInfo \<Rightarrow> (Entry \<Rightarrow> 'a \<Rightarrow> GoError option \<times> 'a) \<Rightarrow> 'a \<Rightarrow> GoError option \<times> 'a" where
  "emit s ctx path info fn a =
     (case ctx PollEnter of
        Some err \<Rightarrow> (Some err, a)
      | None \<Rightarrow>
          (case makeEntry path info False of
             Inl err \<Rightarrow> (Some err, a)
           | Inr entry \<Rightarrow> if filtered s entry then (None, a) else fn entry a))"

text \<open>What the loop does with a path: skip it, fail, or visit it with the information it read.\<close>

datatype inspection = SkipEntry | FailEntry GoError | VisitEntry FileInfo bool

definition inspect_path :: "Scanner \<Rightarrow> FS \<Rightarrow> string \<Rightarrow> inspection" where
  "inspect_path s fs path =
     (case fs_Lstat fs path of
        Inl err \<Rightarrow> if errors_Is err ErrNotExist then SkipEntry else FailEntry err
      | Inr info \<Rightarrow>
          if IsSymlink (fi_Mode info) then
            (case sc_SymlinkPolicy s of
               ScanIgnoreSymlinks \<Rightarrow> SkipEntry
             | ScanRejectSymlinks \<Rightarrow> FailEntry (scan_error path)
             | ScanFollowSymlinks \<Rightarrow>
                 (case fs_Stat fs path of
                    Inl err \<Rightarrow> if errors_Is err ErrNotExist then SkipEntry else FailEntry err
                  | Inr target \<Rightarrow> VisitEntry target True)
             | ScanReportSymlinks \<Rightarrow> VisitEntry info False)
          else VisitEntry info False)"

type_synonym 'a scan_result = "(GoError option \<times> 'a \<times> stringset option) option"

definition scan_entry ::
  "Scanner \<Rightarrow> FS \<Rightarrow> Ctx \<Rightarrow> (Entry \<Rightarrow> 'a \<Rightarrow> GoError option \<times> 'a) \<Rightarrow>
   (string \<Rightarrow> 'a \<times> stringset option \<Rightarrow> 'a scan_result) \<Rightarrow>
   string \<Rightarrow> string \<Rightarrow> 'a \<times> stringset option \<Rightarrow> 'a scan_result" where
  "scan_entry s fs ctx fn walk dir name ast =
     (case ast of (a, seen) \<Rightarrow>
        let path = Join dir name in
        (case ctx (PollEntry path) of
           Some err \<Rightarrow> Some (Some err, a, seen)
         | None \<Rightarrow>
        (case inspect_path s fs path of
           SkipEntry \<Rightarrow> Some (None, a, seen)
         | FailEntry err \<Rightarrow> Some (Some err, a, seen)
         | VisitEntry info followedLink \<Rightarrow>
        (case makeEntry path info followedLink of
           Inl err \<Rightarrow> Some (Some err, a, seen)
         | Inr entry \<Rightarrow>
             if filtered s entry then Some (None, a, seen)
             else
        (case fn entry a of
           (Some err, a') \<Rightarrow> Some (Some err, a', seen)
         | (None, a') \<Rightarrow>
             if \<not> sc_Recursive s \<or> \<not> IsDir (fi_Mode info) then Some (None, a', seen)
             else
        (case seen of
           None \<Rightarrow> walk path (a', seen)
         | Some ids \<Rightarrow>
             if en_Identity entry \<noteq> [] then
               if map_of ids (en_Identity entry) \<noteq> None then Some (None, a', seen)
               else walk path (a', Some (AList.update (en_Identity entry) () ids))
             else walk path (a', seen)))))))"

fun entry_loop :: "(string \<Rightarrow> 'c \<Rightarrow> (GoError option \<times> 'c) option) \<Rightarrow> string list \<Rightarrow> 'c \<Rightarrow> (GoError option \<times> 'c) option" where
  "entry_loop body [] st = Some (None, st)"
| "entry_loop body (name # names) st =
     (case body name st of
        None \<Rightarrow> None
      | Some (Some err, st') \<Rightarrow> Some (Some err, st')
      | Some (None, st') \<Rightarrow> entry_loop body names st')"

primrec walkDir ::
  "Scanner \<Rightarrow> FS \<Rightarrow> Ctx \<Rightarrow> (Entry \<Rightarrow> 'a \<Rightarrow> GoError option \<times> 'a) \<Rightarrow> nat \<Rightarrow> string \<Rightarrow> 'a \<times> stringset option \<Rightarrow> 'a scan_result" where
  "walkDir s fs ctx fn 0 dir ast = None"
| "walkDir s fs ctx fn (Suc fuel) dir ast =
     (case ctx (PollDir dir) of
        Some err \<Rightarrow> Some (Some err, ast)
      | None \<Rightarrow>
          (case fs_Open fs dir of
             Some err \<Rightarrow> Some (Some err, ast)
           | None \<Rightarrow>
               (case entry_loop (scan_entry s fs ctx fn (walkDir s fs ctx fn fuel) dir)
                       (concat (fst (fs_ReadDir fs dir))) ast of
                  None \<Rightarrow> None
                | Some (Some err, ast') \<Rightarrow> Some (Some err, ast')
                | Some (None, ast') \<Rightarrow> Some (snd (fs_ReadDir fs dir), ast'))))"

definition Scan ::
  "Scanner \<Rightarrow> FS \<Rightarrow> Ctx \<Rightarrow> nat \<Rightarrow> string \<Rightarrow> (Entry \<Rightarrow> 'a \<Rightarrow> GoError option \<times> 'a) \<Rightarrow> 'a \<Rightarrow> (GoError option \<times> 'a) option" where
  "Scan s fs ctx fuel root0 fn a =
     (let root = Clean root0;
          continue = (\<lambda>info.
            if \<not> IsDir (fi_Mode info) then Some (emit s ctx root info fn a)
            else
              let seen = (if sc_SymlinkPolicy s = ScanFollowSymlinks then
                            (case fileIdentity root info True of
                               Inr (ident, _) \<Rightarrow> Some (if ident \<noteq> [] then [(ident, ())] else [])
                             | Inl _ \<Rightarrow> Some [])
                          else None)
              in map_option (\<lambda>(err, a', _). (err, a')) (walkDir s fs ctx fn fuel root (a, seen)))
      in case fs_Lstat fs root of
           Inl err \<Rightarrow> Some (Some err, a)
         | Inr info \<Rightarrow>
             if IsSymlink (fi_Mode info) then
               (case sc_SymlinkPolicy s of
                  ScanIgnoreSymlinks \<Rightarrow> Some (None, a)
                | ScanRejectSymlinks \<Rightarrow> Some (Some (scan_error root), a)
                | ScanReportSymlinks \<Rightarrow> Some (emit s ctx root info fn a)
                | ScanFollowSymlinks \<Rightarrow>
                    (case fs_Stat fs root of
                       Inl err \<Rightarrow> Some (Some err, a)
                     | Inr target \<Rightarrow> continue target))
             else continue info)"

section \<open>Visible entries\<close>

text \<open>
  The entries that the policy and the filter let through, and the entries below a directory, as an
  inductive specification of the traversal without symlink following.
\<close>

definition dir_names :: "FS \<Rightarrow> string \<Rightarrow> string list" where
  "dir_names fs dir = concat (fst (fs_ReadDir fs dir))"

definition visible :: "Scanner \<Rightarrow> FS \<Rightarrow> string \<Rightarrow> Entry \<Rightarrow> bool" where
  "visible s fs path entry =
     (\<exists>info l. inspect_path s fs path = VisitEntry info l \<and> makeEntry path info l = Inr entry \<and> \<not> filtered s entry)"

inductive scanned :: "Scanner \<Rightarrow> FS \<Rightarrow> string \<Rightarrow> Entry \<Rightarrow> bool" for s fs where
  here: "name \<in> set (dir_names fs dir) \<Longrightarrow> visible s fs (Join dir name) entry \<Longrightarrow> scanned s fs dir entry"
| below: "name \<in> set (dir_names fs dir) \<Longrightarrow> visible s fs (Join dir name) entry \<Longrightarrow> sc_Recursive s \<Longrightarrow>
    IsDir (en_Mode entry) \<Longrightarrow> scanned s fs (Join dir name) entry' \<Longrightarrow> scanned s fs dir entry'"

text \<open>\<open>ReadDir\<close> returns the final elements of the names in a directory, without dot and dot-dot.\<close>

definition names_ok :: "FS \<Rightarrow> bool" where
  "names_ok fs = (\<forall>dir. list_all good_part (dir_names fs dir) \<and> distinct (dir_names fs dir))"

lemma makeEntry_cases: obtains entry where "makeEntry path info l = Inr entry" "en_Path entry = path"
  "en_Mode entry = fi_Mode info"
  by (cases "fi_Sys info") (simp_all add: makeEntry_def fileIdentity_def)

lemma visible_Path: "visible s fs path entry \<Longrightarrow> en_Path entry = path"
  unfolding visible_def by (metis makeEntry_cases sum.inject(2))

lemma visible_fun: "visible s fs path entry \<Longrightarrow> visible s fs path entry' \<Longrightarrow> entry = entry'"
  by (auto simp: visible_def)

lemma Join_canonical:
  assumes "canonical dir" and "good_part name"
  shows "canonical (Join dir name)" and "elems (Join dir name) = elems dir @ [name]"
proof -
  obtain ds where "list_all good_part ds" "dir = abs_path ds" using assms(1) by (rule canonicalE)
  with assms(2) show "canonical (Join dir name)" and "elems (Join dir name) = elems dir @ [name]"
    by (simp_all add: Join_abs_path canonical_abs_path elems_abs_path)
qed

section \<open>Loops over entries\<close>

lemma entry_loop_invariant:
  assumes "entry_loop body names st = Some (err, st')" and "Q st"
    and "\<And>name st e st'. name \<in> set names \<Longrightarrow> Q st \<Longrightarrow> body name st = Some (e, st') \<Longrightarrow> Q st'"
  shows "Q st'"
  using assms
proof (induction names arbitrary: st)
  case (Cons name names)
  then obtain e st1 where b: "body name st = Some (e, st1)" by (auto split: option.splits)
  have q: "Q st1" using Cons.prems(3) [OF _ Cons.prems(2) b] by simp
  show ?case
  proof (cases e)
    case None
    with Cons.prems(1) b have "entry_loop body names st1 = Some (err, st')" by simp
    then show ?thesis
    proof (rule Cons.IH [OF _ q])
      fix n t e t'
      assume "n \<in> set names" "Q t" "body n t = Some (e, t')"
      then show "Q t'" by (intro Cons.prems(3) [of n t e t']) simp_all
    qed
  next
    case (Some x)
    with Cons.prems(1) b q show ?thesis by simp
  qed
qed simp

lemma entry_loop_total:
  assumes "Q st" and "\<And>name st. name \<in> set names \<Longrightarrow> Q st \<Longrightarrow> \<exists>e st'. body name st = Some (e, st') \<and> Q st'"
  shows "\<exists>e st'. entry_loop body names st = Some (e, st') \<and> Q st'"
  using assms
proof (induction names arbitrary: st)
  case (Cons name names)
  from Cons.prems(2) [of name st] Cons.prems(1) obtain e st1
    where b: "body name st = Some (e, st1)" "Q st1" by auto
  have "\<exists>e st'. entry_loop body names st1 = Some (e, st') \<and> Q st'"
    using b(2) Cons.prems(2) by (intro Cons.IH) simp_all
  with b show ?case by (cases e) simp_all
qed simp

text \<open>
  One iteration: either the state is kept or the callback ran on a visible entry, and then the
  directory may be walked.
\<close>

lemma scan_entry_cases:
  assumes "scan_entry s fs ctx fn walk dir name (a, seen) = r"
  obtains (stop) err where "r = Some (Some err, a, seen)"
  | (skip) "r = Some (None, a, seen)" and "\<nexists>entry. visible s fs (Join dir name) entry"
  | (refused) entry err a' where "visible s fs (Join dir name) entry" and "fn entry a = (Some err, a')"
      and "r = Some (Some err, a', seen)"
  | (leaf) entry a' where "visible s fs (Join dir name) entry" and "fn entry a = (None, a')"
      and "r = Some (None, a', seen)"
      and "\<not> (sc_Recursive s \<and> IsDir (en_Mode entry)) \<or>
        (\<exists>ids. seen = Some ids \<and> en_Identity entry \<noteq> [] \<and> map_of ids (en_Identity entry) \<noteq> None)"
  | (descend) entry a' seen' where "visible s fs (Join dir name) entry" and "fn entry a = (None, a')"
      and "r = walk (Join dir name) (a', seen')" and "sc_Recursive s" and "IsDir (en_Mode entry)"
      and "seen' = seen \<and> (\<forall>ids. seen = Some ids \<longrightarrow> en_Identity entry = []) \<or>
        (\<exists>ids. seen = Some ids \<and> en_Identity entry \<noteq> [] \<and> map_of ids (en_Identity entry) = None \<and>
           seen' = Some (AList.update (en_Identity entry) () ids))"
proof (cases "ctx (PollEntry (Join dir name))")
  case (Some err)
  with assms show ?thesis by (intro stop [of err]) (simp add: scan_entry_def Let_def)
next
  case ctx: None
  show ?thesis
  proof (cases "inspect_path s fs (Join dir name)")
    case SkipEntry
    with assms ctx show ?thesis by (intro skip) (auto simp: scan_entry_def Let_def visible_def)
  next
    case (FailEntry err)
    with assms ctx show ?thesis by (intro stop [of err]) (simp add: scan_entry_def Let_def)
  next
    case (VisitEntry info l)
    obtain entry where e: "makeEntry (Join dir name) info l = Inr entry" "en_Mode entry = fi_Mode info"
      by (rule makeEntry_cases)
    show ?thesis
    proof (cases "filtered s entry")
      case True
      with assms ctx VisitEntry e show ?thesis by (intro skip) (auto simp: scan_entry_def Let_def visible_def)
    next
      case False
      then have v: "visible s fs (Join dir name) entry" using VisitEntry e by (auto simp: visible_def)
      obtain err a' where f: "fn entry a = (err, a')" by fastforce
      have r: "r = (case err of
           Some err \<Rightarrow> Some (Some err, a', seen)
         | None \<Rightarrow>
             if \<not> sc_Recursive s \<or> \<not> IsDir (en_Mode entry) then Some (None, a', seen)
             else
        (case seen of
           None \<Rightarrow> walk (Join dir name) (a', seen)
         | Some ids \<Rightarrow>
             if en_Identity entry \<noteq> [] then
               if map_of ids (en_Identity entry) \<noteq> None then Some (None, a', seen)
               else walk (Join dir name) (a', Some (AList.update (en_Identity entry) () ids))
             else walk (Join dir name) (a', seen)))"
        using assms ctx VisitEntry e False f by (auto simp: scan_entry_def Let_def split: option.splits)
      show ?thesis
      proof (cases err)
        case (Some x)
        with v f r show ?thesis by (intro refused) auto
      next
        case None
        consider (no) "\<not> (sc_Recursive s \<and> IsDir (en_Mode entry)) \<or>
            (\<exists>ids. seen = Some ids \<and> en_Identity entry \<noteq> [] \<and> map_of ids (en_Identity entry) \<noteq> None)"
          | (same) "sc_Recursive s \<and> IsDir (en_Mode entry)" "\<forall>ids. seen = Some ids \<longrightarrow> en_Identity entry = []"
          | (new) ids where "sc_Recursive s \<and> IsDir (en_Mode entry)" "seen = Some ids" "en_Identity entry \<noteq> []"
              "map_of ids (en_Identity entry) = None" by blast
        then show ?thesis
        proof cases
          case no
          with v f r None show ?thesis by (intro leaf [of entry a']) auto
        next
          case same
          with v f r None show ?thesis by (intro descend [of entry a' seen]) (auto split: option.splits)
        next
          case new
          with v f r None show ?thesis
            by (intro descend [of entry a' "Some (AList.update (en_Identity entry) () ids)"]) auto
        qed
      qed
    qed
  qed
qed

section \<open>What a callback can see\<close>

lemma walkDir_SucD:
  assumes "walkDir s fs ctx fn (Suc fuel) dir st = Some (err, st')"
  shows "st' = st \<and> err \<noteq> None \<or>
    (\<exists>e. entry_loop (scan_entry s fs ctx fn (walkDir s fs ctx fn fuel) dir) (dir_names fs dir) st = Some (e, st') \<and>
         (err = None \<longrightarrow> e = None))"
  using assms by (auto simp: dir_names_def split: option.splits prod.splits)

lemma walkDir_invariant:
  assumes "names_ok fs" and "canonical dir" and "P a"
    and "\<And>entry a. canonical (en_Path entry) \<Longrightarrow> strict_prefix (elems dir) (elems (en_Path entry)) \<Longrightarrow>
      visible s fs (en_Path entry) entry \<Longrightarrow> P a \<Longrightarrow> P (snd (fn entry a))"
    and "walkDir s fs ctx fn fuel dir (a, seen) = Some (err, a', seen')"
  shows "P a'"
  using assms(2-)
proof (induction fuel arbitrary: dir a seen err a' seen')
  case (Suc fuel)
  show ?case
  proof (cases "(a', seen') = (a, seen)")
    case False
    with walkDir_SucD [OF Suc.prems(4)] obtain e where
      loop: "entry_loop (scan_entry s fs ctx fn (walkDir s fs ctx fn fuel) dir) (dir_names fs dir) (a, seen) = Some (e, a', seen')"
      by auto
    have "P (fst (a', seen'))"
    proof (rule entry_loop_invariant [OF loop, where Q = "\<lambda>st. P (fst st)"])
      fix name st e st'
      assume name: "name \<in> set (dir_names fs dir)" and st: "P (fst st)"
        and run: "scan_entry s fs ctx fn (walkDir s fs ctx fn fuel) dir name st = Some (e, st')"
      obtain b ids where st_eq: "st = (b, ids)" by fastforce
      have good: "good_part name" using assms(1) name by (auto simp: names_ok_def list_all_iff)
      note join = Join_canonical [OF Suc.prems(1) good]
      have step: "P (snd (fn entry b))" if "visible s fs (Join dir name) entry" for entry
        using Suc.prems(3) [of entry b] visible_Path [OF that] that join st st_eq by (simp add: strict_prefix_def)
      from run [unfolded st_eq] show "P (fst st')"
      proof (cases rule: scan_entry_cases)
        case (descend entry b' ids')
        have b': "P b'" using step [OF descend(1)] descend(2) by simp
        have walk: "walkDir s fs ctx fn fuel (Join dir name) (b', ids') = Some (e, fst st', snd st')"
          using descend(3) by simp
        have below: "strict_prefix (elems dir) p" if "strict_prefix (elems (Join dir name)) p" for p
          using that join(2) by (auto simp: strict_prefix_def prefix_def)
        have "P (fst st')"
          by (rule Suc.IH [OF join(1) b' _ walk]) (use Suc.prems(3) below in blast)
        then show ?thesis .
      qed (use step st st_eq in \<open>fastforce+\<close>)
    qed (use Suc.prems(2) in simp)
    then show ?thesis by simp
  qed (use Suc.prems(2) in simp)
qed simp

lemma emit_invariant:
  assumes "P a" and "\<And>entry a. en_Path entry = path \<Longrightarrow> P a \<Longrightarrow> P (snd (fn entry a))"
  shows "P (snd (emit s ctx path info fn a))"
proof -
  obtain entry where "makeEntry path info False = Inr entry" "en_Path entry = path" by (rule makeEntry_cases)
  with assms show ?thesis by (auto simp: emit_def split: option.split)
qed

lemma Scan_invariant:
  assumes "names_ok fs" and "canonical root" and "P a"
    and step: "\<And>entry a. canonical (en_Path entry) \<Longrightarrow> prefix (elems root) (elems (en_Path entry)) \<Longrightarrow> P a \<Longrightarrow>
      P (snd (fn entry a))"
    and run: "Scan s fs ctx fuel root fn a = Some (err, a')"
  shows "P a'"
proof -
  have clean: "Clean root = root" using assms(2) by (rule Clean_canonical)
  have em: "P a'" if "emit s ctx root info fn a = (err, a')" for info
    using emit_invariant [of P a root fn s ctx info] assms(2,3) step that by simp
  have walk: "P a'" if "map_option (\<lambda>(err, a', _). (err, a')) (walkDir s fs ctx fn fuel root (a, seen)) = Some (err, a')" for seen
  proof -
    from that obtain seen' where w: "walkDir s fs ctx fn fuel root (a, seen) = Some (err, a', seen')" by auto
    show ?thesis by (rule walkDir_invariant [where P = P, OF assms(1-3) _ w]) (auto intro: step simp: strict_prefix_def)
  qed
  from run consider "a' = a" | info where "emit s ctx root info fn a = (err, a')"
    | seen where "map_option (\<lambda>(err, a', _). (err, a')) (walkDir s fs ctx fn fuel root (a, seen)) = Some (err, a')"
    unfolding Scan_def Let_def clean by (auto split: sum.splits if_splits ScanPolicy.splits)
  then show ?thesis using assms(3) em walk by cases auto
qed

section \<open>Enough fuel\<close>

lemma walkDir_loop:
  assumes "\<exists>e st'. entry_loop (scan_entry s fs ctx fn (walkDir s fs ctx fn fuel) dir) (dir_names fs dir) st = Some (e, st') \<and> Q st'"
    and "Q st"
  shows "\<exists>e st'. walkDir s fs ctx fn (Suc fuel) dir st = Some (e, st') \<and> Q st'"
proof -
  obtain e st' where l: "entry_loop (scan_entry s fs ctx fn (walkDir s fs ctx fn fuel) dir) (dir_names fs dir) st = Some (e, st')"
    and q: "Q st'" using assms(1) by blast
  show ?thesis
    using l q assms(2) by (cases "ctx (PollDir dir)"; cases "fs_Open fs dir"; cases e) (auto simp: dir_names_def)
qed

text \<open>
  Without following links, a rank that falls from a directory to the directories in it bounds the
  depth. In follow mode links may form cycles; then the identities of the directories that are
  entered are recorded, and a finite set of identities bounds the depth.
\<close>

definition ranked :: "Scanner \<Rightarrow> FS \<Rightarrow> (string \<Rightarrow> nat) \<Rightarrow> bool" where
  "ranked s fs rank = (\<forall>dir name entry. name \<in> set (dir_names fs dir) \<longrightarrow> visible s fs (Join dir name) entry \<longrightarrow>
     IsDir (en_Mode entry) \<longrightarrow> rank (Join dir name) < rank dir)"

definition identified :: "Scanner \<Rightarrow> FS \<Rightarrow> string set \<Rightarrow> bool" where
  "identified s fs ids = (\<forall>path entry. visible s fs path entry \<longrightarrow> IsDir (en_Mode entry) \<longrightarrow>
     en_Identity entry \<noteq> [] \<and> en_Identity entry \<in> ids)"

lemma walkDir_ranked:
  assumes "ranked s fs rank" and "rank dir < fuel"
  shows "\<exists>e st'. walkDir s fs ctx fn fuel dir st = Some (e, st')"
  using assms(2)
proof (induction fuel arbitrary: dir st)
  case (Suc fuel)
  have "\<exists>e st'. walkDir s fs ctx fn (Suc fuel) dir st = Some (e, st') \<and> True"
  proof (rule walkDir_loop, rule entry_loop_total)
    fix name and st :: "'a \<times> stringset option"
    assume name: "name \<in> set (dir_names fs dir)"
    obtain a seen where st: "st = (a, seen)" by fastforce
    obtain r where r: "scan_entry s fs ctx fn (walkDir s fs ctx fn fuel) dir name (a, seen) = r" by blast
    show "\<exists>e st'. scan_entry s fs ctx fn (walkDir s fs ctx fn fuel) dir name st = Some (e, st') \<and> True"
      unfolding st r using r
    proof (cases rule: scan_entry_cases)
      case (descend entry a' seen')
      have "rank (Join dir name) < fuel"
        using assms(1) name descend(1,5) Suc.prems by (fastforce simp: ranked_def)
      from Suc.IH [OF this] descend(3) show "\<exists>e st'. r = Some (e, st') \<and> True" by simp
    qed auto
  qed simp_all
  then show ?case by simp
qed simp

definition entered :: "string set \<Rightarrow> 'a \<times> stringset option \<Rightarrow> bool" where
  "entered J st = (\<exists>ids. snd st = Some ids \<and> J \<subseteq> fst ` set ids)"

lemma walkDir_identified:
  assumes "identified s fs I" and "finite I" and "card (I - J) < fuel" and "entered J st"
  shows "\<exists>e st'. walkDir s fs ctx fn fuel dir st = Some (e, st') \<and> entered J st'"
  using assms(3,4)
proof (induction fuel arbitrary: dir st J)
  case (Suc fuel)
  show ?case
  proof (rule walkDir_loop, rule entry_loop_total)
    fix name and st :: "'a \<times> stringset option"
    assume st0: "entered J st"
    obtain a seen where st: "st = (a, seen)" by fastforce
    obtain r where r: "scan_entry s fs ctx fn (walkDir s fs ctx fn fuel) dir name (a, seen) = r" by blast
    show "\<exists>e st'. scan_entry s fs ctx fn (walkDir s fs ctx fn fuel) dir name st = Some (e, st') \<and> entered J st'"
      unfolding st r using r
    proof (cases rule: scan_entry_cases)
      case (descend entry a' seen')
      have i: "en_Identity entry \<noteq> []" "en_Identity entry \<in> I"
        using assms(1) descend(1,5) by (auto simp: identified_def)
      obtain ids where ids: "seen = Some ids" "J \<subseteq> fst ` set ids"
        using st0 st by (auto simp: entered_def)
      with descend(6) i have new: "map_of ids (en_Identity entry) = None"
        "seen' = Some (AList.update (en_Identity entry) () ids)" by auto
      let ?J = "insert (en_Identity entry) J"
      have "en_Identity entry \<notin> J" using new(1) ids(2) by (metis in_keys_iff subsetD)
      then have "card (I - ?J) < card (I - J)"
        using i(2) assms(2) by (intro psubset_card_mono) auto
      then have "card (I - ?J) < fuel" using Suc.prems(1) by simp
      moreover have "entered ?J (a', seen')" using ids(2) new(2) by (auto simp: entered_def gomap_simps)
      ultimately obtain e st' where "walkDir s fs ctx fn fuel (Join dir name) (a', seen') = Some (e, st')"
        "entered ?J st'" using Suc.IH by blast
      with descend(3) show "\<exists>e st'. r = Some (e, st') \<and> entered J st'"
        by (auto simp: entered_def)
    qed (use st0 st in \<open>auto simp: entered_def\<close>)
  qed (use Suc.prems(2) in simp_all)
qed simp

section \<open>Exactness without following links\<close>

text \<open>The callback that records what it is given.\<close>

definition log_entry :: "Entry \<Rightarrow> Entry list \<Rightarrow> GoError option \<times> Entry list" where
  "log_entry entry es = (None, es @ [entry])"

definition scanned_via :: "Scanner \<Rightarrow> FS \<Rightarrow> string \<Rightarrow> string \<Rightarrow> Entry set" where
  "scanned_via s fs dir name = {e. \<exists>entry. visible s fs (Join dir name) entry \<and>
     (e = entry \<or> sc_Recursive s \<and> IsDir (en_Mode entry) \<and> scanned s fs (Join dir name) e)}"

lemma scanned_via: "scanned s fs dir e \<longleftrightarrow> (\<exists>name \<in> set (dir_names fs dir). e \<in> scanned_via s fs dir name)"
  by (subst scanned.simps) (auto simp: scanned_via_def)

lemma scanned_below:
  assumes "names_ok fs" and "scanned s fs dir e" and "canonical dir"
  shows "canonical (en_Path e) \<and> strict_prefix (elems dir) (elems (en_Path e))"
  using assms(2,3)
proof (induction rule: scanned.induct)
  case (here name dir entry)
  then have "good_part name" using assms(1) by (auto simp: names_ok_def list_all_iff)
  with here Join_canonical [OF here.prems] visible_Path [OF here.hyps(2)] show ?case
    by (simp add: strict_prefix_def)
next
  case (below name dir entry entry')
  then have "good_part name" using assms(1) by (auto simp: names_ok_def list_all_iff)
  note join = Join_canonical [OF below.prems this]
  have "strict_prefix (elems dir) q" if "strict_prefix (elems dir @ [name]) q" for q
    using that by (auto simp: strict_prefix_def prefix_def)
  with below.IH [OF join(1)] join(2) show ?case by simp
qed

lemma scanned_via_below:
  assumes "names_ok fs" and "canonical dir" and "name \<in> set (dir_names fs dir)" and "e \<in> scanned_via s fs dir name"
  shows "prefix (elems dir @ [name]) (elems (en_Path e))"
proof -
  have "good_part name" using assms(1,3) by (auto simp: names_ok_def list_all_iff)
  note join = Join_canonical [OF assms(2) this]
  from assms(4) show ?thesis
    using visible_Path scanned_below [OF assms(1) _ join(1)] join(2)
    by (fastforce simp: scanned_via_def strict_prefix_def)
qed

lemma entry_loop_collect:
  assumes "entry_loop body names (es, None) = Some (None, st')"
    and "\<And>name es st'. name \<in> set names \<Longrightarrow> body name (es, None) = Some (None, st') \<Longrightarrow>
      \<exists>new. st' = (es @ new, None) \<and> set new = A name \<and> distinct (map en_Path new)"
    and "\<And>n m e e'. n \<in> set names \<Longrightarrow> m \<in> set names \<Longrightarrow> n \<noteq> m \<Longrightarrow> e \<in> A n \<Longrightarrow> e' \<in> A m \<Longrightarrow> en_Path e \<noteq> en_Path e'"
    and "distinct names"
  shows "\<exists>new. st' = (es @ new, None) \<and> set new = (\<Union>name \<in> set names. A name) \<and> distinct (map en_Path new)"
  using assms
proof (induction names arbitrary: es)
  case (Cons name names)
  from Cons.prems(1) obtain st1 where b: "body name (es, None) = Some (None, st1)"
    and rest: "entry_loop body names st1 = Some (None, st')" by (auto split: option.splits)
  from Cons.prems(2) [OF _ b] obtain new1 where n1: "st1 = (es @ new1, None)" "set new1 = A name"
    "distinct (map en_Path new1)" by auto
  have "\<exists>new. st' = ((es @ new1) @ new, None) \<and> set new = (\<Union>name \<in> set names. A name) \<and> distinct (map en_Path new)"
  proof (rule Cons.IH)
    show "entry_loop body names (es @ new1, None) = Some (None, st')" using rest n1(1) by simp
    show "distinct names" using Cons.prems(4) by simp
    show "en_Path e \<noteq> en_Path e'"
      if "n \<in> set names" "m \<in> set names" "n \<noteq> m" "e \<in> A n" "e' \<in> A m" for n m e e'
      using that by (intro Cons.prems(3) [of n m]) simp_all
  qed (use Cons.prems(2) in simp)
  then obtain new2 where n2: "st' = (es @ new1 @ new2, None)" "set new2 = (\<Union>name \<in> set names. A name)"
    "distinct (map en_Path new2)" by auto
  have "en_Path e \<noteq> en_Path e'" if "e \<in> set new1" "e' \<in> set new2" for e e'
    using that n1(2) n2(2) Cons.prems(3) [of name _ e e'] Cons.prems(4) by auto
  then have "distinct (map en_Path (new1 @ new2))" using n1(3) n2(3) by fastforce
  with n1(2) n2 show ?case by (intro exI [of _ "new1 @ new2"]) auto
qed simp

lemma scan_entry_exact:
  assumes "names_ok fs" and "canonical dir" and "name \<in> set (dir_names fs dir)"
    and "scan_entry s fs ctx log_entry walk dir name (es, None) = Some (None, st')"
    and "\<And>es st'. walk (Join dir name) (es, None) = Some (None, st') \<Longrightarrow>
      \<exists>new. st' = (es @ new, None) \<and> set new = {e. scanned s fs (Join dir name) e} \<and> distinct (map en_Path new)"
  shows "\<exists>new. st' = (es @ new, None) \<and> set new = scanned_via s fs dir name \<and> distinct (map en_Path new)"
  using assms(4)
proof (cases rule: scan_entry_cases)
  case skip
  then show ?thesis by (auto simp: scanned_via_def)
next
  case (leaf entry es')
  have "scanned_via s fs dir name = {entry}"
    unfolding scanned_via_def using leaf(1,4) visible_fun [OF leaf(1)] by blast
  moreover have "st' = (es @ [entry], None)" using leaf(2,3) by (simp add: log_entry_def)
  ultimately show ?thesis by (intro exI [of _ "[entry]"]) simp
next
  case (descend entry es' seen')
  have good: "good_part name" using assms(1,3) by (auto simp: names_ok_def list_all_iff)
  note join = Join_canonical [OF assms(2) good]
  have es': "es' = es @ [entry]" "seen' = None" using descend(2,6) by (auto simp: log_entry_def)
  with descend(3) obtain new where new: "st' = (es' @ new, None)"
    "set new = {e. scanned s fs (Join dir name) e}" "distinct (map en_Path new)"
    using assms(5) [of es' st'] by auto
  have "scanned_via s fs dir name = insert entry {e. scanned s fs (Join dir name) e}"
    unfolding scanned_via_def using descend(1,4,5) visible_fun [OF descend(1)] by blast
  moreover have "en_Path entry \<notin> en_Path ` set new"
    using new(2) scanned_below [OF assms(1) _ join(1)] visible_Path [OF descend(1)]
    by (metis (no_types, lifting) imageE mem_Collect_eq prefix_order.less_irrefl)
  ultimately show ?thesis using es' new by (intro exI [of _ "entry # new"]) auto
qed (use assms(4) in \<open>auto simp: log_entry_def\<close>)

lemma walkDir_exact:
  assumes "names_ok fs" and "canonical dir"
    and "walkDir s fs ctx log_entry fuel dir (es, None) = Some (None, st')"
  shows "\<exists>new. st' = (es @ new, None) \<and> set new = {e. scanned s fs dir e} \<and> distinct (map en_Path new)"
  using assms(2,3)
proof (induction fuel arbitrary: dir es st')
  case (Suc fuel)
  from walkDir_SucD [OF Suc.prems(2)] have
    loop: "entry_loop (scan_entry s fs ctx log_entry (walkDir s fs ctx log_entry fuel) dir) (dir_names fs dir) (es, None) = Some (None, st')"
    by auto
  have "\<exists>new. st' = (es @ new, None) \<and> set new = (\<Union>name \<in> set (dir_names fs dir). scanned_via s fs dir name) \<and>
      distinct (map en_Path new)"
  proof (rule entry_loop_collect [OF loop])
    fix name es st'
    assume name: "name \<in> set (dir_names fs dir)"
      and run: "scan_entry s fs ctx log_entry (walkDir s fs ctx log_entry fuel) dir name (es, None) = Some (None, st')"
    have "good_part name" using assms(1) name by (auto simp: names_ok_def list_all_iff)
    note join = Join_canonical [OF Suc.prems(1) this]
    from Suc.IH [OF join(1)]
    show "\<exists>new. st' = (es @ new, None) \<and> set new = scanned_via s fs dir name \<and> distinct (map en_Path new)"
      by (rule scan_entry_exact [OF assms(1) Suc.prems(1) name run])
  next
    fix n m e e'
    assume "n \<in> set (dir_names fs dir)" "m \<in> set (dir_names fs dir)" "n \<noteq> m"
      "e \<in> scanned_via s fs dir n" "e' \<in> scanned_via s fs dir m"
    then show "en_Path e \<noteq> en_Path e'"
      using scanned_via_below [OF assms(1) Suc.prems(1), of n e s] scanned_via_below [OF assms(1) Suc.prems(1), of m e' s]
      by (auto simp: prefix_def)
  next
    show "distinct (dir_names fs dir)" using assms(1) by (simp add: names_ok_def)
  qed
  moreover have "(\<Union>name \<in> set (dir_names fs dir). scanned_via s fs dir name) = {e. scanned s fs dir e}"
    by (auto simp: scanned_via [of s fs dir])
  ultimately show ?case by simp
qed simp

section \<open>A scan is a loop over the recorded entries\<close>

text \<open>The run of a callback over the entries of a scan that recorded them without error.\<close>

definition follows ::
  "(Entry \<Rightarrow> 'a \<Rightarrow> GoError option \<times> 'a) \<Rightarrow> Entry list \<Rightarrow> 'a \<Rightarrow> stringset option \<Rightarrow> 'a scan_result \<Rightarrow> bool" where
  "follows fn es a seen' r =
     (case for_each fn es a of
        (None, a') \<Rightarrow> r = Some (None, a', seen')
      | (Some e, a') \<Rightarrow> \<exists>sn. r = Some (Some e, a', sn))"

definition mirrors ::
  "(Entry \<Rightarrow> 'a \<Rightarrow> GoError option \<times> 'a) \<Rightarrow> (Entry list \<times> stringset option \<Rightarrow> Entry list scan_result) \<Rightarrow>
   ('a \<times> stringset option \<Rightarrow> 'a scan_result) \<Rightarrow> bool" where
  "mirrors fn f g = (\<forall>ls seen st'. f (ls, seen) = Some (None, st') \<longrightarrow>
     (\<exists>es. fst st' = ls @ es \<and> (\<forall>a. follows fn es a (snd st') (g (a, seen)))))"

lemma mirrors_scan_entry:
  assumes "mirrors fn (walkL (Join dir name)) (walkF (Join dir name))"
  shows "mirrors fn (scan_entry s fs ctx log_entry walkL dir name) (scan_entry s fs ctx fn walkF dir name)"
  unfolding mirrors_def
proof (intro allI impI)
  fix ls seen st'
  assume run: "scan_entry s fs ctx log_entry walkL dir name (ls, seen) = Some (None, st')"
  then have ctx: "ctx (PollEntry (Join dir name)) = None" by (auto simp: scan_entry_def Let_def split: option.splits)
  show "\<exists>es. fst st' = ls @ es \<and> (\<forall>a. follows fn es a (snd st') (scan_entry s fs ctx fn walkF dir name (a, seen)))"
  proof (cases "inspect_path s fs (Join dir name)")
    case SkipEntry
    with run ctx show ?thesis by (intro exI [of _ "[]"]) (auto simp: scan_entry_def Let_def follows_def)
  next
    case (FailEntry err)
    with run ctx show ?thesis by (simp add: scan_entry_def Let_def)
  next
    case (VisitEntry info l)
    obtain entry where e: "makeEntry (Join dir name) info l = Inr entry" by (rule makeEntry_cases)
    let ?dir = "sc_Recursive s \<and> IsDir (fi_Mode info)"
    let ?known = "\<exists>ids. seen = Some ids \<and> en_Identity entry \<noteq> [] \<and> map_of ids (en_Identity entry) \<noteq> None"
    let ?seen = "case seen of None \<Rightarrow> None | Some ids \<Rightarrow>
        if en_Identity entry = [] then seen else Some (AList.update (en_Identity entry) () ids)"
    have step: "scan_entry s fs ctx f walk dir name (a, seen) =
        (if filtered s entry then Some (None, a, seen)
         else (case f entry a of
             (Some err, a') \<Rightarrow> Some (Some err, a', seen)
           | (None, a') \<Rightarrow> if \<not> ?dir \<or> ?known then Some (None, a', seen) else walk (Join dir name) (a', ?seen)))"
      for f :: "Entry \<Rightarrow> 'x \<Rightarrow> GoError option \<times> 'x" and walk a
      using ctx VisitEntry e by (cases seen) (auto simp: scan_entry_def Let_def split: option.split prod.split)
    show ?thesis
    proof (cases "filtered s entry \<or> \<not> ?dir \<or> ?known")
      case True
      show ?thesis
      proof (cases "filtered s entry")
        case True
        then have "st' = (ls, seen)" using run unfolding step [of log_entry walkL ls] by simp
        moreover have "follows fn [] a seen (scan_entry s fs ctx fn walkF dir name (a, seen))" for a
          using True unfolding step [of fn walkF a] by (simp add: follows_def)
        ultimately show ?thesis by (intro exI [of _ "[]"]) simp
      next
        case False
        have "st' = (ls @ [entry], seen)"
          using run True False unfolding step [of log_entry walkL ls] by (simp add: log_entry_def)
        moreover have "follows fn [entry] a seen (scan_entry s fs ctx fn walkF dir name (a, seen))" for a
          using True False unfolding step [of fn walkF a] by (auto simp: follows_def split: option.split prod.split)
        ultimately show ?thesis by (intro exI [of _ "[entry]"]) simp
      qed
    next
      case False
      then have "walkL (Join dir name) (ls @ [entry], ?seen) = Some (None, st')"
        using run unfolding step [of log_entry walkL ls] by (auto simp: log_entry_def split: if_splits)
      with assms obtain es where es: "fst st' = (ls @ [entry]) @ es"
        "\<And>a. follows fn es a (snd st') (walkF (Join dir name) (a, ?seen))"
        unfolding mirrors_def by blast
      have "follows fn (entry # es) a (snd st') (scan_entry s fs ctx fn walkF dir name (a, seen))" for a
      proof (cases "fst (fn entry a)")
        case None
        then have "scan_entry s fs ctx fn walkF dir name (a, seen) = walkF (Join dir name) (snd (fn entry a), ?seen)"
          using False unfolding step [of fn walkF a] by (cases "fn entry a") auto
        with es(2) [of "snd (fn entry a)"] None show ?thesis by (cases "fn entry a") (simp add: follows_def)
      next
        case (Some err)
        then show ?thesis
          using False unfolding step [of fn walkF a] by (cases "fn entry a") (auto simp: follows_def)
      qed
      with es(1) show ?thesis by (intro exI [of _ "entry # es"]) simp
    qed
  qed
qed

lemma mirrors_entry_loop:
  assumes "\<And>name. name \<in> set names \<Longrightarrow> mirrors fn (bodyL name) (bodyF name)"
  shows "mirrors fn (entry_loop bodyL names) (entry_loop bodyF names)"
  using assms
proof (induction names)
  case Nil
  then show ?case by (auto simp: mirrors_def follows_def)
next
  case (Cons name names)
  show ?case
    unfolding mirrors_def
  proof (intro allI impI)
    fix ls seen st'
    assume "entry_loop bodyL (name # names) (ls, seen) = Some (None, st')"
    then obtain st1 where b: "bodyL name (ls, seen) = Some (None, st1)"
      and r: "entry_loop bodyL names (fst st1, snd st1) = Some (None, st')" by (auto split: option.splits)
    obtain es1 where e1: "fst st1 = ls @ es1" "\<And>a. follows fn es1 a (snd st1) (bodyF name (a, seen))"
      using Cons.prems [of name] b unfolding mirrors_def by fastforce
    have "mirrors fn (entry_loop bodyL names) (entry_loop bodyF names)" using Cons by simp
    then obtain es2 where e2: "fst st' = fst st1 @ es2"
      "\<And>a. follows fn es2 a (snd st') (entry_loop bodyF names (a, snd st1))"
      using r unfolding mirrors_def by blast
    have "follows fn (es1 @ es2) a (snd st') (entry_loop bodyF (name # names) (a, seen))" for a
      using e1(2) [of a] e2(2) [of "snd (for_each fn es1 a)"]
      by (auto simp: follows_def for_each_append split: prod.splits option.splits)
    with e1(1) e2(1) show "\<exists>es. fst st' = ls @ es \<and>
        (\<forall>a. follows fn es a (snd st') (entry_loop bodyF (name # names) (a, seen)))"
      by (intro exI [of _ "es1 @ es2"]) simp
  qed
qed

lemma mirrors_walkDir: "mirrors fn (walkDir s fs ctx log_entry fuel dir) (walkDir s fs ctx fn fuel dir)"
proof (induction fuel arbitrary: dir)
  case 0
  then show ?case by (simp add: mirrors_def)
next
  case (Suc fuel)
  have loop: "mirrors fn (entry_loop (scan_entry s fs ctx log_entry (walkDir s fs ctx log_entry fuel) dir) names)
      (entry_loop (scan_entry s fs ctx fn (walkDir s fs ctx fn fuel) dir) names)" for names
    by (intro mirrors_entry_loop mirrors_scan_entry Suc.IH)
  show ?case
    unfolding mirrors_def
  proof (intro allI impI)
    fix ls seen st'
    assume run: "walkDir s fs ctx log_entry (Suc fuel) dir (ls, seen) = Some (None, st')"
    then have c: "ctx (PollDir dir) = None" "fs_Open fs dir = None" "snd (fs_ReadDir fs dir) = None"
      and l: "entry_loop (scan_entry s fs ctx log_entry (walkDir s fs ctx log_entry fuel) dir)
        (concat (fst (fs_ReadDir fs dir))) (ls, seen) = Some (None, st')"
      by (auto split: option.splits)
    from loop l obtain es where es: "fst st' = ls @ es"
      "\<And>a. follows fn es a (snd st') (entry_loop (scan_entry s fs ctx fn (walkDir s fs ctx fn fuel) dir)
        (concat (fst (fs_ReadDir fs dir))) (a, seen))"
      unfolding mirrors_def by blast
    have "follows fn es a (snd st') (walkDir s fs ctx fn (Suc fuel) dir (a, seen))" for a
      using es(2) [of a] c by (auto simp: follows_def split: prod.splits option.splits)
    with es(1) show "\<exists>es. fst st' = ls @ es \<and>
        (\<forall>a. follows fn es a (snd st') (walkDir s fs ctx fn (Suc fuel) dir (a, seen)))" by blast
  qed
qed

lemma emit_for_each:
  assumes "emit s ctx path info log_entry [] = (None, es)"
  shows "emit s ctx path info fn a = for_each fn es a"
proof -
  obtain entry where e: "makeEntry path info False = Inr entry" by (rule makeEntry_cases)
  with assms have "ctx PollEnter = None" and "es = (if filtered s entry then [] else [entry])"
    by (auto simp: emit_def log_entry_def split: option.splits if_splits)
  with e show ?thesis by (auto simp: emit_def split: prod.split option.split)
qed

lemma Scan_for_each:
  assumes "Scan s fs ctx fuel root log_entry [] = Some (None, es)"
  shows "Scan s fs ctx fuel root fn a = Some (for_each fn es a)"
proof -
  have walk: "map_option (\<lambda>(err, a', _). (err, a')) (walkDir s fs ctx fn fuel dir (a, seen)) = Some (for_each fn es a)"
    if "map_option (\<lambda>(err, a', _). (err, a')) (walkDir s fs ctx log_entry fuel dir ([], seen)) = Some (None, es)" for dir seen
  proof -
    from that obtain seen' where "walkDir s fs ctx log_entry fuel dir ([], seen) = Some (None, es, seen')" by auto
    with mirrors_walkDir [of fn s fs ctx fuel dir] have "follows fn es a seen' (walkDir s fs ctx fn fuel dir (a, seen))"
      unfolding mirrors_def by fastforce
    then show ?thesis by (auto simp: follows_def split: prod.splits option.splits)
  qed
  define seen_of where "seen_of info = (if sc_SymlinkPolicy s = ScanFollowSymlinks then
        (case fileIdentity (Clean root) info True of
           Inr (ident, _) \<Rightarrow> Some (if ident \<noteq> [] then [(ident, ())] else [])
         | Inl _ \<Rightarrow> Some [])
      else None)" for info
  have continue: "(if \<not> IsDir (fi_Mode info) then Some (emit s ctx (Clean root) info fn a)
      else map_option (\<lambda>(err, a', _). (err, a')) (walkDir s fs ctx fn fuel (Clean root) (a, seen_of info))) = Some (for_each fn es a)"
    if "(if \<not> IsDir (fi_Mode info) then Some (emit s ctx (Clean root) info log_entry [])
      else map_option (\<lambda>(err, a', _). (err, a')) (walkDir s fs ctx log_entry fuel (Clean root) ([], seen_of info))) = Some (None, es)" for info
  proof (cases "IsDir (fi_Mode info)")
    case True
    with that walk [of "Clean root" "seen_of info"] show ?thesis by simp
  next
    case False
    with that emit_for_each [of s ctx "Clean root" info es fn a] show ?thesis by simp
  qed
  show ?thesis
  proof (cases "fs_Lstat fs (Clean root)")
    case (Inl err)
    with assms show ?thesis by (simp add: Scan_def Let_def)
  next
    case lstat: (Inr info)
    show ?thesis
    proof (cases "IsSymlink (fi_Mode info)")
      case False
      have "Scan s fs ctx fuel root fn a = Some (for_each fn es a)"
        using assms lstat False continue [of info] unfolding Scan_def Let_def seen_of_def [symmetric] by simp
      then show ?thesis .
    next
      case True
      show ?thesis
      proof (cases "sc_SymlinkPolicy s")
        case ScanFollowSymlinks
        show ?thesis
        proof (cases "fs_Stat fs (Clean root)")
          case (Inl err)
          with assms lstat True ScanFollowSymlinks show ?thesis by (simp add: Scan_def Let_def)
        next
          case (Inr target)
          with assms lstat True continue [of target] ScanFollowSymlinks show ?thesis
            unfolding Scan_def Let_def seen_of_def [symmetric] by simp
        qed
      qed (use assms lstat True emit_for_each [of s ctx "Clean root" info es fn a] in \<open>simp_all add: Scan_def Let_def\<close>)
    qed
  qed
qed

lemma Scan_entries:
  assumes "names_ok fs" and "IsAbs root" and "sc_SymlinkPolicy s \<noteq> ScanFollowSymlinks"
    and "fs_Lstat fs (Clean root) = Inr info" and "IsDir (fi_Mode info)" and "\<not> IsSymlink (fi_Mode info)"
    and "Scan s fs ctx fuel root log_entry [] = Some (None, es)"
  shows "set es = {e. scanned s fs (Clean root) e}" and "distinct (map en_Path es)"
    and "\<forall>e \<in> set es. canonical (en_Path e) \<and> strict_prefix (elems (Clean root)) (elems (en_Path e))"
proof -
  have c: "canonical (Clean root)" using assms(2) by (rule canonical_Clean)
  obtain seen' where "walkDir s fs ctx log_entry fuel (Clean root) ([], None) = Some (None, es, seen')"
    using assms(3-7) by (auto simp: Scan_def Let_def)
  from walkDir_exact [OF assms(1) c this]
  show "set es = {e. scanned s fs (Clean root) e}" and "distinct (map en_Path es)"
    and "\<forall>e \<in> set es. canonical (en_Path e) \<and> strict_prefix (elems (Clean root)) (elems (en_Path e))"
    using scanned_below [OF assms(1) _ c] by auto
qed

section \<open>Properties\<close>

text \<open>C14: a successful scan of a directory, links not followed, hands the callback exactly the
  entries of the tree that the symlink policy and the filter let through, every path once; a
  filtered directory is not entered, and without recursion only the direct entries are given. All
  paths are clean and strictly below the scanned directory, which itself is not given.\<close>

theorem scan_exact:
  assumes "names_ok fs" and "IsAbs root" and "sc_SymlinkPolicy s \<noteq> ScanFollowSymlinks"
    and "fs_Lstat fs (Clean root) = Inr info" and "IsDir (fi_Mode info)" and "\<not> IsSymlink (fi_Mode info)"
    and "Scan s fs ctx fuel root log_entry [] = Some (None, es)"
  shows "set es = {e. scanned s fs (Clean root) e} \<and> distinct (map en_Path es) \<and>
    (\<forall>e \<in> set es. canonical (en_Path e) \<and> strict_prefix (elems (Clean root)) (elems (en_Path e)))"
  using Scan_entries [OF assms] by blast

text \<open>C21: a scan ends. When links are not followed, fuel above the depth of the tree is enough,
  where the depth is any rank that falls from a directory to its subdirectories. When links are
  followed, the tree may have cycles of links; if the directories have identities from a finite
  set, fuel above its size is enough, whatever the links are. The scan then returns for every
  callback, context and file system.\<close>

theorem scan_returns:
  assumes "sc_SymlinkPolicy s \<noteq> ScanFollowSymlinks \<and> ranked s fs rank \<and> rank (Clean root) < fuel \<or>
    sc_SymlinkPolicy s = ScanFollowSymlinks \<and> identified s fs ids \<and> finite ids \<and> card ids < fuel"
  shows "\<exists>r. Scan s fs ctx fuel root fn a = Some r"
proof -
  have walk: "\<exists>r. walkDir s fs ctx fn fuel (Clean root) (a, seen) = Some r"
    if "seen = None \<longleftrightarrow> sc_SymlinkPolicy s \<noteq> ScanFollowSymlinks" for seen
  proof (cases seen)
    case None
    then show ?thesis using assms that walkDir_ranked [of s fs rank "Clean root" fuel ctx fn] by auto
  next
    case (Some m)
    have "card (ids - {}) < fuel" "entered {} (a, seen)" using assms that Some by (auto simp: entered_def)
    then show ?thesis
      using assms that Some walkDir_identified [of s fs ids "{}" fuel "(a, seen)" ctx fn "Clean root"] by auto
  qed
  show ?thesis
    using walk [of None] walk [of "Some []"] walk [of "Some [(x, ())]" for x]
    by (auto simp: Scan_def Let_def split: sum.split ScanPolicy.split)
qed

text \<open>A small tree: a file, a link to the root, a directory with one file.\<close>

definition ex_info :: "32 word \<Rightarrow> 64 word \<Rightarrow> FileInfo" where
  "ex_info mode ino = \<lparr>fi_Mode = mode, fi_Size = 3, fi_ModTime = 5,
     fi_Sys = Some \<lparr>st_Dev = 1, st_Ino = ino, st_Nlink = 1\<rparr>\<rparr>"

definition ex_fs :: FS where
  "ex_fs =
     \<lparr>fs_Lstat = (\<lambda>p. if p = ''/r'' then Inr (ex_info 0x80000000 1) else if p = ''/r/a'' then Inr (ex_info 0 2)
        else if p = ''/r/l'' then Inr (ex_info 0x08000000 3) else if p = ''/r/d'' then Inr (ex_info 0x80000000 4)
        else if p = ''/r/d/b'' then Inr (ex_info 0 5) else Inl ErrNotExist),
      fs_Stat = (\<lambda>p. Inr (ex_info 0x80000000 1)),
      fs_Open = (\<lambda>p. None),
      fs_ReadDir = (\<lambda>p. (if p = ''/r'' then [[''a'', ''l''], [''d'']] else if p = ''/r/d'' then [[''b'', ''gone'']] else [], None))\<rparr>"

definition ex_scanner :: "ScanPolicy \<Rightarrow> Scanner" where
  "ex_scanner pol = \<lparr>sc_Recursive = True, sc_SymlinkPolicy = pol, sc_Filter = None\<rparr>"

lemma ex_names_ok: "names_ok ex_fs"
proof -
  have "good_part w" if "w \<in> {''a'', ''l'', ''d'', ''b'', ''gone''}" for w
    using that by (auto simp: good_part_def)
  then show ?thesis by (auto simp: names_ok_def dir_names_def ex_fs_def)
qed

theorem scan_exact_witness:
  "names_ok ex_fs \<and> IsAbs ''/r/'' \<and>
   map_option (\<lambda>(e, es). (e, map en_Path es)) (Scan (ex_scanner ScanReportSymlinks) ex_fs background 3 ''/r/'' log_entry []) =
     Some (None, [''/r/a'', ''/r/l'', ''/r/d'', ''/r/d/b'']) \<and>
   (\<exists>es. map en_Path es = [''/r/a'', ''/r/l'', ''/r/d'', ''/r/d/b''] \<and>
      set es = {e. scanned (ex_scanner ScanReportSymlinks) ex_fs (Clean ''/r/'') e})"
proof -
  have h: "IsAbs ''/r/''" "sc_SymlinkPolicy (ex_scanner ScanReportSymlinks) \<noteq> ScanFollowSymlinks"
    "fs_Lstat ex_fs (Clean ''/r/'') = Inr (ex_info 0x80000000 1)" "IsDir (fi_Mode (ex_info 0x80000000 1))"
    "\<not> IsSymlink (fi_Mode (ex_info 0x80000000 1))" by code_simp+
  have v: "map_option (\<lambda>(e, es). (e, map en_Path es)) (Scan (ex_scanner ScanReportSymlinks) ex_fs background 3 ''/r/'' log_entry []) =
     Some (None, [''/r/a'', ''/r/l'', ''/r/d'', ''/r/d/b''])" by code_simp
  then obtain es where es: "Scan (ex_scanner ScanReportSymlinks) ex_fs background 3 ''/r/'' log_entry [] = Some (None, es)"
    "map en_Path es = [''/r/a'', ''/r/l'', ''/r/d'', ''/r/d/b'']" by auto
  have "set es = {e. scanned (ex_scanner ScanReportSymlinks) ex_fs (Clean ''/r/'') e}"
    using scan_exact [OF ex_names_ok h es(1)] by (rule conjunct1)
  with es(2) have "\<exists>es. map en_Path es = [''/r/a'', ''/r/l'', ''/r/d'', ''/r/d/b''] \<and>
      set es = {e. scanned (ex_scanner ScanReportSymlinks) ex_fs (Clean ''/r/'') e}" by (intro exI conjI)
  with ex_names_ok h(1) v show ?thesis by (intro conjI)
qed

lemma ex_identified: "identified (ex_scanner ScanFollowSymlinks) ex_fs {''1:1'', ''1:4''}"
  unfolding identified_def
proof (intro allI impI)
  fix path entry
  assume v: "visible (ex_scanner ScanFollowSymlinks) ex_fs path entry" and d: "IsDir (en_Mode entry)"
  from v obtain info l where i: "inspect_path (ex_scanner ScanFollowSymlinks) ex_fs path = VisitEntry info l"
    and m: "makeEntry path info l = Inr entry" by (auto simp: visible_def)
  have modes: "\<not> IsDir 0" "\<not> IsSymlink 0" "\<not> IsSymlink 0x80000000" "IsSymlink 0x08000000" by code_simp+
  have hex: "fmt_x (1 :: 64 word) = ''1''" "fmt_x (4 :: 64 word) = ''4''" by code_simp+
  have "fi_Mode info = en_Mode entry" using m by (metis makeEntry_cases sum.inject(2))
  with i d modes have "info = ex_info 0x80000000 1 \<or> info = ex_info 0x80000000 4"
    by (auto simp: inspect_path_def ex_fs_def ex_scanner_def ex_info_def split: if_splits)
  with m hex show "en_Identity entry \<noteq> [] \<and> en_Identity entry \<in> {''1:1'', ''1:4''}"
    by (auto simp: makeEntry_def fileIdentity_def ex_info_def)
qed

theorem scan_returns_witness:
  "identified (ex_scanner ScanFollowSymlinks) ex_fs {''1:1'', ''1:4''} \<and>
   (\<exists>r. Scan (ex_scanner ScanFollowSymlinks) ex_fs background 3 ''/r'' log_entry [] = Some r) \<and>
   map_option (\<lambda>(e, es). (e, map en_Path es)) (Scan (ex_scanner ScanFollowSymlinks) ex_fs background 3 ''/r'' log_entry []) =
     Some (None, [''/r/a'', ''/r/l'', ''/r/d'', ''/r/d/b''])"
proof -
  have h: "identified (ex_scanner ScanFollowSymlinks) ex_fs {''1:1'', ''1:4''}" by (rule ex_identified)
  have "\<exists>r. Scan (ex_scanner ScanFollowSymlinks) ex_fs background 3 ''/r'' log_entry [] = Some r"
    by (rule scan_returns [of _ _ "\<lambda>_. 0" _ _ "{''1:1'', ''1:4''}"]) (use h in \<open>simp add: ex_scanner_def\<close>)
  moreover have "map_option (\<lambda>(e, es). (e, map en_Path es)) (Scan (ex_scanner ScanFollowSymlinks) ex_fs background 3 ''/r'' log_entry []) =
     Some (None, [''/r/a'', ''/r/l'', ''/r/d'', ''/r/d/b''])" by code_simp
  ultimately show ?thesis using h by blast
qed

end
