(* ===== verification/Backend_Events.thy ===== *)
theory Backend_Events
  imports Core_Types
begin

text \<open>
  Raw native events (\<open>internal/backend/backend.go\<close>) and their reduction to the directory that
  must be reconciled (\<open>internal/normalize\<close>).
\<close>

section \<open>internal/backend\<close>

type_synonym Op = "8 word"

definition OpCreate :: Op where "OpCreate = push_bit 0 1"
definition OpWrite :: Op where "OpWrite = push_bit 1 1"
definition OpRemove :: Op where "OpRemove = push_bit 2 1"
definition OpRename :: Op where "OpRename = push_bit 3 1"
definition OpChmod :: Op where "OpChmod = push_bit 4 1"

record RawEvent =
  raw_Path :: string
  raw_Op :: Op
  raw_Time :: Time

section \<open>internal/normalize\<close>

record NHint =
  nh_Scope :: string
  nh_Uncertain :: bool

text \<open>The second result of the code, \<open>ok\<close>, is the constructor of the option.\<close>

definition normalize_Event :: "RawEvent \<Rightarrow> string \<Rightarrow> NHint option" where
  "normalize_Event event root0 =
     (let root = Clean root0; path = Clean (raw_Path event) in
      if \<not> within root path then None
      else
        let scope = Dir path;
            scope = (if path = root \<or> \<not> within root scope then root else scope)
        in Some \<lparr>nh_Scope = scope, nh_Uncertain = (raw_Op event AND (OpRemove OR OpRename) \<noteq> 0)\<rparr>)"

section \<open>Lemmas\<close>

lemma canonical_Dir:
  assumes "canonical p"
  shows "canonical (Dir p)" and "elems (Dir p) = butlast (elems p)"
proof -
  obtain ps where ps: "list_all good_part ps" "p = abs_path ps" using assms by (rule canonicalE)
  have "canonical (Dir p) \<and> elems (Dir p) = butlast (elems p)"
  proof (cases ps rule: rev_cases)
    case Nil
    then show ?thesis using ps by (simp add: path_simps path_intros)
  next
    case (snoc qs q)
    then show ?thesis using ps by (simp add: path_simps path_intros)
  qed
  then show "canonical (Dir p)" and "elems (Dir p) = butlast (elems p)" by auto
qed

lemma uncertain_bits: "w AND (OpRemove OR OpRename) \<noteq> 0 \<longleftrightarrow> bit w 2 \<or> bit w 3"
proof -
  have b: "bit (OpRemove OR OpRename) n \<longleftrightarrow> n = 2 \<or> n = 3" for n
    by (simp only: OpRemove_def OpRename_def bit_or_iff bit_push_bit_iff bit_1_iff possible_bit_word) auto
  have "w AND (OpRemove OR OpRename) \<noteq> 0 \<longleftrightarrow> (\<exists>n. bit (w AND (OpRemove OR OpRename)) n)"
    using bit_imp_le_length [of "w AND (OpRemove OR OpRename)"] by (auto simp: bit_eq_iff simp del: bit_and_iff)
  then show ?thesis by (auto simp only: bit_and_iff b)
qed

lemma normalize_Event_inside:
  assumes "IsAbs root" and "IsAbs (raw_Path event)" and "within (Clean root) (Clean (raw_Path event))"
  obtains hint where "normalize_Event event root = Some hint" and "canonical (nh_Scope hint)"
    and "prefix (elems (Clean root)) (elems (nh_Scope hint))"
    and "prefix (elems (nh_Scope hint)) (elems (Clean (raw_Path event)))"
proof -
  have c: "canonical (Clean root)" "canonical (Clean (raw_Path event))" using assms(1,2) by (simp_all add: canonical_Clean)
  note d = canonical_Dir [OF c(2)]
  define scope where "scope = (if Clean (raw_Path event) = Clean root \<or> \<not> within (Clean root) (Dir (Clean (raw_Path event)))
      then Clean root else Dir (Clean (raw_Path event)))"
  have "canonical scope" "prefix (elems (Clean root)) (elems scope)" "prefix (elems scope) (elems (Clean (raw_Path event)))"
    using assms(3) c d by (auto simp: scope_def within_canonical prefixeq_butlast)
  moreover obtain hint where "normalize_Event event root = Some hint" "nh_Scope hint = scope"
    using assms(3) by (simp add: normalize_Event_def Let_def scope_def)
  ultimately show ?thesis using that by simp
qed

text \<open>C24: a native event is dropped exactly when its path lies outside the tracked root;
  otherwise the hint is the parent directory of the path, or the root for the root itself and for
  its direct children, so the scope lies inside the root, and the path is the scope or one of its
  direct children. The hint is uncertain exactly when a remove or rename bit is set.\<close>

theorem normalize_event_scope:
  assumes "IsAbs root" and "IsAbs (raw_Path event)"
  shows "case normalize_Event event root of
      None \<Rightarrow> \<not> prefix (elems (Clean root)) (elems (Clean (raw_Path event)))
    | Some hint \<Rightarrow>
        prefix (elems (Clean root)) (elems (Clean (raw_Path event))) \<and>
        canonical (nh_Scope hint) \<and> prefix (elems (Clean root)) (elems (nh_Scope hint)) \<and>
        (Clean (raw_Path event) = nh_Scope hint \<and> nh_Scope hint = Clean root \<or>
         (\<exists>name. elems (Clean (raw_Path event)) = elems (nh_Scope hint) @ [name])) \<and>
        (nh_Uncertain hint \<longleftrightarrow> bit (raw_Op event) 2 \<or> bit (raw_Op event) 3)"
proof -
  let ?r = "Clean root" and ?p = "Clean (raw_Path event)"
  have c: "canonical ?r" "canonical ?p" using assms by (simp_all add: canonical_Clean)
  note d = canonical_Dir [OF c(2)]
  note unc = uncertain_bits [of "raw_Op event"]
  show ?thesis
  proof (cases "prefix (elems ?r) (elems ?p)")
    case False
    then show ?thesis by (simp add: normalize_Event_def within_canonical c Let_def)
  next
    case True
    then obtain us where us: "elems ?p = elems ?r @ us" by (auto simp: prefix_def)
    show ?thesis
    proof (cases us rule: rev_cases)
      case Nil
      then have "?p = ?r" using us c canonical_elems_inject by simp
      then show ?thesis using True c by (simp add: normalize_Event_def within_canonical Let_def unc)
    next
      case (snoc vs v)
      then have "?p \<noteq> ?r" "prefix (elems ?r) (elems (Dir ?p))" "elems ?p = elems (Dir ?p) @ [v]"
        using us d(2) by (auto simp: butlast_append)
      then show ?thesis using True c d(1) by (simp add: normalize_Event_def within_canonical Let_def unc)
    qed
  qed
qed

theorem normalize_event_scope_witness:
  "IsAbs ''/r'' \<and> IsAbs ''/r/a/../a/x'' \<and>
   normalize_Event \<lparr>raw_Path = ''/r/a/../a/x'', raw_Op = OpRename, raw_Time = 0\<rparr> ''/r'' =
     Some \<lparr>nh_Scope = ''/r/a'', nh_Uncertain = True\<rparr> \<and>
   prefix (elems (Clean ''/r'')) (elems ''/r/a'')"
proof -
  let ?e = "\<lparr>raw_Path = ''/r/a/../a/x'', raw_Op = OpRename, raw_Time = 0\<rparr>"
  have h: "IsAbs ''/r''" "IsAbs (raw_Path ?e)" by code_simp+
  have v: "normalize_Event ?e ''/r'' = Some \<lparr>nh_Scope = ''/r/a'', nh_Uncertain = True\<rparr>" by code_simp
  show ?thesis using h v normalize_event_scope [OF h] by simp
qed

end
