(* ===== verification/Observer_Run.thy ===== *)
theory Observer_Run
  imports Observer_Queue Scanner_Walk Backend_Events
begin

text \<open>
  The life of an \<open>Observer\<close> (\<open>observer.go\<close>): the enumeration of directories with
  \<open>filepath.WalkDir\<close>, the resynchronisation of the watches, the handling of native events, \<open>Start\<close>,
  the loops \<open>collect\<close> and \<open>emit\<close> and \<open>Close\<close>, and the interleaving of its goroutines as a step
  relation. A call that does not return is \<open>None\<close>: a directory tree deeper than the fuel, or a use
  of a watch tree that does not exist, which is a nil dereference in Go.

  One handler of the collecting goroutine is one step. It takes no lock across its calls, but what
  other goroutines can do meanwhile does not disturb it: the emitter only moves hints to the channel,
  the handler enqueues at most once and as its last action on the queue, and \<open>Close\<close> only sets a
  state that the handler then leaves alone.
\<close>

section \<open>filepath.WalkDir\<close>

text \<open>
  The answers of the file system: \<open>os.Stat\<close>, \<open>os.Lstat\<close>, the names that \<open>os.ReadDir\<close> finds with
  its error, and the type bits of an entry. \<open>os.ReadDir\<close> sorts by name.
\<close>

record WalkFS =
  wf_Stat :: "string \<Rightarrow> GoError + FileInfo"
  wf_Lstat :: "string \<Rightarrow> GoError + FileInfo"
  wf_ReadDir :: "string \<Rightarrow> string list \<times> GoError option"
  wf_Type :: "string \<Rightarrow> 32 word"

type_synonym 'a WalkDirFunc = "string \<Rightarrow> 32 word \<Rightarrow> GoError option \<Rightarrow> 'a \<Rightarrow> GoError option \<times> 'a"

text \<open>The errors \<open>SkipDir\<close> and \<open>SkipAll\<close> do not occur: no callback of the code returns them.\<close>

primrec walk_dir ::
  "WalkFS \<Rightarrow> 'a WalkDirFunc \<Rightarrow> nat \<Rightarrow> string \<Rightarrow> 32 word \<Rightarrow> 'a \<Rightarrow> (GoError option \<times> 'a) option" where
  "walk_dir fs fn 0 path typ a = None"
| "walk_dir fs fn (Suc fuel) path typ a =
     (case fn path typ None a of
        (Some err, a') \<Rightarrow> Some (Some err, a')
      | (None, a') \<Rightarrow>
          if \<not> IsDir typ then Some (None, a')
          else
            (case (case snd (wf_ReadDir fs path) of
                     None \<Rightarrow> (None, a')
                   | Some e \<Rightarrow> fn path typ (Some e) a') of
               (Some err, a'') \<Rightarrow> Some (Some err, a'')
             | (None, a'') \<Rightarrow>
                 entry_loop (\<lambda>name. walk_dir fs fn fuel (Join path name) (wf_Type fs (Join path name)))
                   (sort (fst (wf_ReadDir fs path))) a''))"

definition WalkDir :: "WalkFS \<Rightarrow> nat \<Rightarrow> string \<Rightarrow> 'a WalkDirFunc \<Rightarrow> 'a \<Rightarrow> (GoError option \<times> 'a) option" where
  "WalkDir fs fuel root fn a =
     (case wf_Lstat fs root of
        Inl err \<Rightarrow> Some (fn root 0 (Some err) a)
      | Inr info \<Rightarrow> walk_dir fs fn fuel root (fi_Mode info AND ModeType) a)"

section \<open>Enumeration of directories\<close>

definition visit_entry ::
  "Ctx \<Rightarrow> string \<Rightarrow> SymlinkPolicy \<Rightarrow> (string \<Rightarrow> 'a \<Rightarrow> GoError option \<times> 'a) \<Rightarrow> 'a WalkDirFunc" where
  "visit_entry ctx root policy fn path typ e a =
     (case e of
        Some err \<Rightarrow> (Some err, a)
      | None \<Rightarrow>
     (case ctx (PollEntry path) of
        Some err \<Rightarrow> (Some err, a)
      | None \<Rightarrow>
          if IsSymlink typ \<and> policy = RejectSymlinks then (Some ErrSymlink, a)
          else if IsSymlink typ \<and> policy \<noteq> FollowSymlinks then (None, a)
          else if path = root then fn path a
          else if IsDir typ then fn path a
          else (None, a)))"

definition walkObserverDirectoriesPolicy ::
  "WalkFS \<Rightarrow> nat \<Rightarrow> Ctx \<Rightarrow> string \<Rightarrow> SymlinkPolicy \<Rightarrow> (string \<Rightarrow> 'a \<Rightarrow> GoError option \<times> 'a) \<Rightarrow> 'a \<Rightarrow>
   (GoError option \<times> 'a) option" where
  "walkObserverDirectoriesPolicy fs fuel ctx root policy fn a =
     (case wf_Stat fs root of
        Inl err \<Rightarrow> Some (Some err, a)
      | Inr info \<Rightarrow>
          if \<not> IsDir (fi_Mode info) then Some (None, a)
          else WalkDir fs fuel root (visit_entry ctx root policy fn) a)"

definition walkObserverDirectories ::
  "WalkFS \<Rightarrow> nat \<Rightarrow> Ctx \<Rightarrow> string \<Rightarrow> (string \<Rightarrow> 'a \<Rightarrow> GoError option \<times> 'a) \<Rightarrow> 'a \<Rightarrow> (GoError option \<times> 'a) option" where
  "walkObserverDirectories fs fuel ctx root fn a = walkObserverDirectoriesPolicy fs fuel ctx root ReportSymlinks fn a"

section \<open>Handlers\<close>

text \<open>What one handler sees: the context, the file system, the clock and the fuel of its walks.\<close>

record ObsEnv =
  oe_ctx :: Ctx
  oe_fs :: WalkFS
  oe_now :: Time
  oe_fuel :: nat

definition root_change :: "Time \<Rightarrow> HintCause \<Rightarrow> 'b Observer \<Rightarrow> Hint" where
  "root_change now cause ob = \<lparr>hn_Path = o_root ob, hn_Scope = HintSubtree, hn_Cause = cause, hn_Time = now\<rparr>"

definition native_change :: "Time \<Rightarrow> string \<Rightarrow> HintScope \<Rightarrow> Hint" where
  "native_change now path scope = \<lparr>hn_Path = path, hn_Scope = scope, hn_Cause = HintNativeChange, hn_Time = now\<rparr>"

definition filter_accepts :: "'b Observer \<Rightarrow> string \<Rightarrow> bool" where
  "filter_accepts ob path = (case oc_Filter (o_config ob) of None \<Rightarrow> True | Some f \<Rightarrow> f path)"

definition set_tree :: "'b Observer \<Rightarrow> WatchTree \<times> 'b \<Rightarrow> 'b Observer" where
  "set_tree ob tb = ob\<lparr>o_tree := Some (fst tb), o_backend := Some (snd tb)\<rparr>"

text \<open>\<open>tree.RemoveSubtree\<close> behind the test \<open>tree != nil\<close>.\<close>

definition remove_subtree :: "string \<Rightarrow> 'b Observer \<Rightarrow> GoError option \<times> 'b Observer" where
  "remove_subtree path ob =
     (case (o_tree ob, o_backend ob) of
        (Some t, Some b) \<Rightarrow>
          (case wt_RemoveSubtree (o_backendOps ob) path (t, b) of (err, tb) \<Rightarrow> (err, set_tree ob tb))
      | _ \<Rightarrow> (None, ob))"

definition add_observed ::
  "'b WatchBackend \<Rightarrow> string \<Rightarrow> stringset \<times> WatchTree \<times> 'b \<Rightarrow> GoError option \<times> stringset \<times> WatchTree \<times> 'b" where
  "add_observed be path st =
     (case st of (observed, tb) \<Rightarrow>
        (case wt_Add be path tb of (err, tb') \<Rightarrow> (err, AList.update path () observed, tb')))"

definition resyncWatchTree :: "ObsEnv \<Rightarrow> 'b Observer \<Rightarrow> (GoError option \<times> 'b Observer) option" where
  "resyncWatchTree env ob =
     (if \<not> oc_Recursive (o_config ob) then Some (None, ob)
      else
        (case (o_tree ob, o_backend ob) of
           (Some t, Some b) \<Rightarrow>
             (case walkObserverDirectoriesPolicy (oe_fs env) (oe_fuel env) (oe_ctx env) (o_root ob)
                     (oc_SymlinkPolicy (o_config ob)) (add_observed (o_backendOps ob)) ([], t, b) of
                None \<Rightarrow> None
              | Some (Some err, _, tb) \<Rightarrow> Some (Some err, set_tree ob tb)
              | Some (None, observed, tb) \<Rightarrow>
                  (case wt_Sync (o_backendOps ob) [o_root ob] observed tb of (err, tb') \<Rightarrow> Some (err, set_tree ob tb')))
         | _ \<Rightarrow> None))"

text \<open>The branch of \<open>handleRaw\<close> for a created directory.\<close>

definition handle_created_dir :: "ObsEnv \<Rightarrow> string \<Rightarrow> 'b Observer \<Rightarrow> 'b Observer option" where
  "handle_created_dir env path ob =
     (case (o_tree ob, o_backend ob) of
        (Some t, Some b) \<Rightarrow>
          (case wt_Add (o_backendOps ob) path (t, b) of
             (Some err, tb) \<Rightarrow> Some (degrade (oe_now env) err (set_tree ob tb))
           | (None, tb) \<Rightarrow>
               (case walkObserverDirectoriesPolicy (oe_fs env) (oe_fuel env) (oe_ctx env) path
                       (oc_SymlinkPolicy (o_config ob)) (wt_Add (o_backendOps ob)) tb of
                  None \<Rightarrow> None
                | Some (Some err, tb) \<Rightarrow> Some (degrade (oe_now env) err (set_tree ob tb))
                | Some (None, tb) \<Rightarrow> Some (enqueue (native_change (oe_now env) path HintSubtree) (set_tree ob tb))))
      | _ \<Rightarrow> None)"

definition handle_removed :: "ObsEnv \<Rightarrow> string \<Rightarrow> 'b Observer \<Rightarrow> 'b Observer" where
  "handle_removed env path ob =
     (if path = o_root ob then degrade (oe_now env) ErrBackendStopped ob
      else
        let wasWatched = (case o_tree ob of None \<Rightarrow> False | Some t \<Rightarrow> wt_IsWatched path t) in
        (case remove_subtree path ob of
           (Some err, ob) \<Rightarrow> degrade (oe_now env) err ob
         | (None, ob) \<Rightarrow>
             if wasWatched then enqueue (native_change (oe_now env) path HintSubtree) ob
             else if filter_accepts ob path then enqueue (native_change (oe_now env) path HintPath) ob
             else ob))"

definition handle_renamed :: "ObsEnv \<Rightarrow> string \<Rightarrow> 'b Observer \<Rightarrow> 'b Observer option" where
  "handle_renamed env path ob =
     (if path = o_root ob then Some (degrade (oe_now env) ErrBackendStopped ob)
      else
        (case remove_subtree path ob of
           (Some err, ob) \<Rightarrow> Some (degrade (oe_now env) err ob)
         | (None, ob) \<Rightarrow>
             (case (if oc_Recursive (o_config ob) then resyncWatchTree env ob else Some (None, ob)) of
                None \<Rightarrow> None
              | Some (Some err, ob) \<Rightarrow> Some (degrade (oe_now env) err ob)
              | Some (None, ob) \<Rightarrow> Some (enqueue (root_change (oe_now env) HintNativeChange ob) ob))))"

definition handle_plain :: "ObsEnv \<Rightarrow> string \<Rightarrow> 'b Observer \<Rightarrow> 'b Observer" where
  "handle_plain env path ob =
     (if filter_accepts ob path then enqueue (native_change (oe_now env) path HintPath) ob else ob)"

definition handleRaw :: "ObsEnv \<Rightarrow> RawEvent \<Rightarrow> 'b Observer \<Rightarrow> 'b Observer option" where
  "handleRaw env raw ob =
     (let path = Clean (raw_Path raw) in
      if \<not> withinObserver (o_root ob) path then Some ob
      else if raw_Op raw AND OpRemove \<noteq> 0 then Some (handle_removed env path ob)
      else if raw_Op raw AND OpRename \<noteq> 0 then handle_renamed env path ob
      else if oc_Recursive (o_config ob) \<and> raw_Op raw AND OpCreate \<noteq> 0 then
        (case wf_Lstat (oe_fs env) path of
           Inl err \<Rightarrow> Some (handle_plain env path ob)
         | Inr info \<Rightarrow>
             if IsSymlink (fi_Mode info) then
               if oc_SymlinkPolicy (o_config ob) = RejectSymlinks then Some (degrade (oe_now env) ErrSymlink ob)
               else Some (handle_plain env path ob)
             else if IsDir (fi_Mode info) then handle_created_dir env path ob
             else Some (handle_plain env path ob))
      else Some (handle_plain env path ob))"

text \<open>One iteration of \<open>collect\<close>: what the select received.\<close>

datatype collect_input = RawIn RawEvent | EventsEnd | ErrIn GoError | ErrsEnd

definition collect_step :: "ObsEnv \<Rightarrow> collect_input \<Rightarrow> 'b Observer \<Rightarrow> 'b Observer option" where
  "collect_step env inp ob =
     (case inp of
        RawIn raw \<Rightarrow> handleRaw env raw (ob\<lparr>o_stats := (o_stats ob)\<lparr>oa_received := oa_received (o_stats ob) + 1\<rparr>\<rparr>)
      | EventsEnd \<Rightarrow> Some (if oe_ctx env PollEnter = None then degrade (oe_now env) ErrBackendStopped ob else ob)
      | ErrIn err \<Rightarrow>
          if errors_Is err ErrOverflow then
            let ob = ob\<lparr>o_stats := (o_stats ob)\<lparr>oa_overflows := oa_overflows (o_stats ob) + 1\<rparr>\<rparr> in
            (case (if oc_Recursive (o_config ob) then resyncWatchTree env ob else Some (None, ob)) of
               None \<Rightarrow> None
             | Some (Some syncErr, ob) \<Rightarrow> Some (degrade (oe_now env) syncErr ob)
             | Some (None, ob) \<Rightarrow> Some (obs_sendError err (enqueue (root_change (oe_now env) HintOverflow ob) ob)))
          else Some (obs_sendError err ob)
      | ErrsEnd \<Rightarrow> Some ob)"

section \<open>Start and Close\<close>

text \<open>
  \<open>started\<close> is the backend after its \<open>Start\<close>, or the error of it; \<open>bclose\<close> is its \<open>Close\<close>.
\<close>

definition start_walk :: "ObsEnv \<Rightarrow> 'b Observer \<Rightarrow> 'b \<Rightarrow> (GoError option \<times> WatchTree \<times> 'b) option" where
  "start_walk env ob b =
     (if oc_Recursive (o_config ob)
      then walkObserverDirectoriesPolicy (oe_fs env) (oe_fuel env) (oe_ctx env) (o_root ob)
             (oc_SymlinkPolicy (o_config ob)) (wt_Add (o_backendOps ob)) (wt_New (o_root ob), b)
      else Some (None, wt_New (o_root ob), b))"

definition Start_observer ::
  "ObsEnv \<Rightarrow> GoError + 'b \<Rightarrow> ('b \<Rightarrow> 'b) \<Rightarrow> 'b Observer \<Rightarrow> (GoError option \<times> 'b Observer) option" where
  "Start_observer env started bclose ob0 =
     (if o_state ob0 \<noteq> ObserverCreated then Some (Some (ErrMsg ''fsrecon: observer already started''), ob0)
      else
        let ob = ob0\<lparr>o_state := ObserverStarting\<rparr>;
            fail = (\<lambda>err ob. Some (Some err, obs_setState ObserverDegraded (ob\<lparr>o_cancelled := True\<rparr>)))
        in
        if (case wf_Lstat (oe_fs env) (o_root ob) of Inl _ \<Rightarrow> False | Inr info \<Rightarrow> IsSymlink (fi_Mode info)) \<and>
           oc_SymlinkPolicy (o_config ob) = RejectSymlinks
        then fail ErrSymlink ob
        else
          (case started of
             Inl err \<Rightarrow> fail (ErrWrap ''fsrecon: start observer watcher: '' err []) ob
           | Inr b \<Rightarrow>
               (case start_walk env ob b of
                  None \<Rightarrow> None
                | Some (Some err, t, b) \<Rightarrow> fail err (set_tree ob (t, bclose b))
                | Some (None, tb) \<Rightarrow>
                    let ob = obs_setState ObserverRunning (set_tree ob tb) in
                    Some (None, enqueue (root_change (oe_now env) HintStartup ob) ob))))"

text \<open>\<open>Close\<close> up to the wait for the goroutines, and after it.\<close>

definition close_begin :: "('b \<Rightarrow> 'b) \<Rightarrow> 'b Observer \<Rightarrow> 'b Observer" where
  "close_begin bclose ob =
     ob\<lparr>o_closeOnce := True, o_state := ObserverStopped, o_cancelled := True, o_backend := map_option bclose (o_backend ob)\<rparr>"

definition close_end :: "'b Observer \<Rightarrow> 'b Observer" where
  "close_end ob = ob\<lparr>o_hints := close_chan (o_hints ob), o_errors := close_chan (o_errors ob)\<rparr>"

section \<open>What a walk visits\<close>

text \<open>The directories at and below a directory, links not followed.\<close>

inductive tree_dir :: "WalkFS \<Rightarrow> string \<Rightarrow> string \<Rightarrow> bool" for fs where
  here: "tree_dir fs d d"
| below: "name \<in> set (fst (wf_ReadDir fs d)) \<Longrightarrow> IsDir (wf_Type fs (Join d name)) \<Longrightarrow>
    tree_dir fs (Join d name) p \<Longrightarrow> tree_dir fs d p"

inductive_simps tree_dir_iff: "tree_dir fs d p"

text \<open>Names are proper file names, and an entry has one type.\<close>

definition walk_fs_ok :: "WalkFS \<Rightarrow> bool" where
  "walk_fs_ok fs = (\<forall>p. list_all good_part (fst (wf_ReadDir fs p)) \<and> \<not> (IsDir (wf_Type fs p) \<and> IsSymlink (wf_Type fs p)))"

lemma IsDir_ModeType [simp]: "IsDir (m AND ModeType) = IsDir m" "IsSymlink (m AND ModeType) = IsSymlink m"
proof -
  have "ModeType AND ModeDir = ModeDir" "ModeType AND ModeSymlink = ModeSymlink" by code_simp+
  then show "IsDir (m AND ModeType) = IsDir m" "IsSymlink (m AND ModeType) = IsSymlink m"
    by (simp_all add: IsDir_def IsSymlink_def and.assoc)
qed

lemma tree_dir_sub:
  "{p. tree_dir fs d p} = insert d (\<Union>name \<in> {n \<in> set (fst (wf_ReadDir fs d)). IsDir (wf_Type fs (Join d n))}.
     {p. tree_dir fs (Join d name) p})"
  by (subst tree_dir_iff) auto

lemma tree_dir_canonical:
  assumes "tree_dir fs d p" and "walk_fs_ok fs" and "canonical d"
  shows "canonical p \<and> prefix (elems d) (elems p)"
  using assms
proof (induction rule: tree_dir.induct)
  case (below name d p)
  then have g: "good_part name" by (auto simp: walk_fs_ok_def list_all_iff)
  with below Join_canonical [OF below.prems(2) g] show ?case by (metis append_prefixD)
qed simp

lemma visit_entry_simps:
  "visit_entry ctx root policy fn path typ (Some e) a = (Some e, a)"
  "IsDir typ \<Longrightarrow> \<not> IsSymlink typ \<Longrightarrow> visit_entry ctx root policy fn path typ None a =
     (case ctx (PollEntry path) of Some err \<Rightarrow> (Some err, a) | None \<Rightarrow> fn path a)"
  "\<not> IsDir typ \<Longrightarrow> path \<noteq> root \<Longrightarrow> visit_entry ctx root policy fn path typ None a = (err, a') \<Longrightarrow> a' = a"
  by (auto simp: visit_entry_def split: option.splits if_splits)

lemma walk_visits:
  assumes ok: "walk_fs_ok fs" and pol: "policy \<noteq> FollowSymlinks"
    and "canonical root" and "canonical path" and "prefix (elems root) (elems path)"
    and "path = root \<Longrightarrow> IsDir typ" and "\<not> (IsDir typ \<and> IsSymlink typ)"
    and "walk_dir fs (visit_entry ctx root policy fn) fuel path typ a = Some (None, a')"
  shows "\<exists>vs. for_each fn vs a = (None, a') \<and> set vs = (if IsDir typ then {p. tree_dir fs path p} else {})"
  using assms(4-8)
proof (induction fuel arbitrary: path "typ" a a')
  case 0
  then show ?case by simp
next
  case (Suc fuel)
  let ?fn = "visit_entry ctx root policy fn" and ?names = "fst (wf_ReadDir fs path)"
  show ?case
  proof (cases "IsDir typ")
    case False
    then have "path \<noteq> root" using Suc.prems(3) by blast
    with False Suc.prems(5) have "a' = a"
      by (auto split: option.splits prod.splits dest: visit_entry_simps(3))
    with False show ?thesis by (intro exI [of _ "[]"]) simp
  next
    case True
    then have ns: "\<not> IsSymlink typ" using Suc.prems(4) by blast
    obtain a1 where a1: "fn path a = (None, a1)" and
      loop: "entry_loop (\<lambda>name. walk_dir fs ?fn fuel (Join path name) (wf_Type fs (Join path name))) (sort ?names) a1 = Some (None, a')"
      using Suc.prems(5) True ns by (auto simp: visit_entry_simps split: option.splits prod.splits)
    have entry: "\<exists>vs. for_each fn vs b = (None, b') \<and>
        set vs = (if IsDir (wf_Type fs (Join path name)) then {p. tree_dir fs (Join path name) p} else {})"
      if "name \<in> set ?names" "walk_dir fs ?fn fuel (Join path name) (wf_Type fs (Join path name)) b = Some (None, b')" for name b b'
    proof -
      have g: "good_part name" using ok that(1) by (auto simp: walk_fs_ok_def list_all_iff)
      note j = Join_canonical [OF Suc.prems(1) g]
      have "Join path name \<noteq> root" using j(2) Suc.prems(2) by (metis append_Nil2 not_Cons_self2 prefix_def append.assoc same_append_eq append_is_Nil_conv)
      moreover have "\<not> (IsDir (wf_Type fs (Join path name)) \<and> IsSymlink (wf_Type fs (Join path name)))"
        using ok by (simp add: walk_fs_ok_def)
      moreover have "prefix (elems root) (elems (Join path name))" using Suc.prems(2) j(2) by simp
      ultimately show ?thesis using Suc.IH [OF j(1) _ _ _ that(2)] by blast
    qed
    have "\<exists>vs. for_each fn vs b = (None, a') \<and>
        set vs = (\<Union>name \<in> {n \<in> set ns. IsDir (wf_Type fs (Join path n))}. {p. tree_dir fs (Join path name) p})"
      if "set ns \<subseteq> set ?names"
        "entry_loop (\<lambda>name. walk_dir fs ?fn fuel (Join path name) (wf_Type fs (Join path name))) ns b = Some (None, a')" for ns b
      using that
    proof (induction ns arbitrary: b)
      case Nil
      then show ?case by (intro exI [of _ "[]"]) simp
    next
      case (Cons n ns)
      then obtain b1 where b1: "walk_dir fs ?fn fuel (Join path n) (wf_Type fs (Join path n)) b = Some (None, b1)"
        "entry_loop (\<lambda>name. walk_dir fs ?fn fuel (Join path name) (wf_Type fs (Join path name))) ns b1 = Some (None, a')"
        by (auto split: option.splits prod.splits)
      from entry [OF _ b1(1)] Cons.prems(1) obtain v1 where v1: "for_each fn v1 b = (None, b1)"
        "set v1 = (if IsDir (wf_Type fs (Join path n)) then {p. tree_dir fs (Join path n) p} else {})" by auto
      from Cons.IH [OF _ b1(2)] Cons.prems(1) obtain v2 where v2: "for_each fn v2 b1 = (None, a')"
        "set v2 = (\<Union>name \<in> {n \<in> set ns. IsDir (wf_Type fs (Join path n))}. {p. tree_dir fs (Join path name) p})" by auto
      from v1 v2 show ?case by (intro exI [of _ "v1 @ v2"]) (auto simp: for_each_append)
    qed
    from this [OF _ loop] obtain vs where "for_each fn vs a1 = (None, a')"
      "set vs = (\<Union>name \<in> {n \<in> set ?names. IsDir (wf_Type fs (Join path n))}. {p. tree_dir fs (Join path name) p})" by auto
    with a1 True show ?thesis by (intro exI [of _ "path # vs"]) (simp add: tree_dir_sub [of fs path])
  qed
qed

lemma walkObserverDirectories_visits:
  assumes "walk_fs_ok fs" and "policy \<noteq> FollowSymlinks" and "canonical root"
    and "wf_Lstat fs root = Inr info" and "IsDir (fi_Mode info)" and "\<not> IsSymlink (fi_Mode info)"
    and "wf_Stat fs root = Inr info"
    and "walkObserverDirectoriesPolicy fs fuel ctx root policy fn a = Some (None, a')"
  shows "\<exists>vs. for_each fn vs a = (None, a') \<and> set vs = {p. tree_dir fs root p}"
proof -
  have w: "walk_dir fs (visit_entry ctx root policy fn) fuel root (fi_Mode info AND ModeType) a = Some (None, a')"
    using assms(4,5,7,8) by (simp add: walkObserverDirectoriesPolicy_def WalkDir_def)
  from walk_visits [OF assms(1-3,3) _ _ _ w] assms(5,6) show ?thesis by simp
qed

section \<open>Watches\<close>

lemma add_all_watched:
  assumes "for_each (wt_Add be) vs (t, b) = (None, t', b')" and "tree_ok t" and "\<forall>v \<in> set vs. canonical v"
  shows "tree_ok t' \<and> wt_root t' = wt_root t \<and> watched_paths t' = watched_paths t \<union> set vs"
  using assms
proof (induction vs arbitrary: t b)
  case (Cons v vs)
  obtain r t1 b1 where a: "wt_Add be v (t, b) = (r, t1, b1)" by (metis prod_cases3)
  have abs: "IsAbs v" "Clean v = v" using Cons.prems(3) by (auto simp: Clean_canonical)
  have r: "r = None" and rest: "for_each (wt_Add be) vs (t1, b1) = (None, t', b')"
    using Cons.prems(1) a by (auto split: option.splits)
  note s = watch_Add_spec [OF Cons.prems(2) abs(1) a [unfolded r]]
  from Cons.IH [OF rest s(1)] Cons.prems(3) s abs(2) show ?case by auto
qed simp

lemma add_observed_split:
  assumes "for_each (add_observed be) vs (obs, t, b) = (None, obs', t', b')"
  shows "for_each (wt_Add be) vs (t, b) = (None, t', b') \<and> (\<forall>p. map_of obs' p = None \<longleftrightarrow> map_of obs p = None \<and> p \<notin> set vs)"
  using assms
proof (induction vs arbitrary: obs t b)
  case (Cons v vs)
  obtain r t1 b1 where a: "wt_Add be v (t, b) = (r, t1, b1)" by (metis prod_cases3)
  have step: "add_observed be v (obs, t, b) = (r, AList.update v () obs, t1, b1)" by (simp add: add_observed_def a)
  have r: "r = None" and rest: "for_each (add_observed be) vs (AList.update v () obs, t1, b1) = (None, obs', t', b')"
    using Cons.prems step by (auto split: option.splits)
  from Cons.IH [OF rest] a r show ?case by (auto simp: update_conv')
qed simp

text \<open>A tree that belongs to the observer.\<close>

definition obs_tree_ok :: "'b Observer \<Rightarrow> bool" where
  "obs_tree_ok ob = (canonical (o_root ob) \<and> (o_tree ob = None \<longleftrightarrow> o_backend ob = None) \<and>
     (\<forall>t. o_tree ob = Some t \<longrightarrow> tree_ok t \<and> wt_root t = o_root ob))"

lemma set_tree_simps [simp]:
  "o_tree (set_tree ob tb) = Some (fst tb)" "o_backend (set_tree ob tb) = Some (snd tb)" "o_root (set_tree ob tb) = o_root ob"
  "o_config (set_tree ob tb) = o_config ob" "o_pending (set_tree ob tb) = o_pending ob" "o_rootPending (set_tree ob tb) = o_rootPending ob"
  "o_rootHint (set_tree ob tb) = o_rootHint ob" "o_hints (set_tree ob tb) = o_hints ob" "o_errors (set_tree ob tb) = o_errors ob"
  "o_state (set_tree ob tb) = o_state ob" "o_cancelled (set_tree ob tb) = o_cancelled ob" "o_closeOnce (set_tree ob tb) = o_closeOnce ob"
  "o_backendOps (set_tree ob tb) = o_backendOps ob"
  by (simp_all add: set_tree_def)

lemma sync_root_exact:
  assumes "tree_ok t" and "wt_Sync be [wt_root t] observed (t, b) = (None, t', b')"
  shows "tree_ok t' \<and> wt_root t' = wt_root t \<and>
    watched_paths t' = {p \<in> watched_paths t. p = wt_root t \<or> map_of observed p \<noteq> None}"
proof -
  let ?rs = "sync_remove t [wt_root t] observed"
  note p = sync_remove_props [OF assms(1), of "[wt_root t]" observed]
  have run: "for_each (unwatch_step be (\<lambda>_. False)) ?rs (t, b) = (None, t', b')" using assms(2) by (simp add: wt_Sync_def)
  note u = unwatch_steps [OF run p(1) tree_okD(2) [OF assms(1)]]
  then have w: "watched_paths t' = watched_paths t - set ?rs" by auto
  have scope: "inAnyScope q [wt_root t]" if "q \<in> watched_paths t" for q
    using tree_okD [OF assms(1)] that by (simp add: inAnyScope_def Clean_canonical within_canonical)
  have "tree_ok t'" by (rule tree_ok_removed [OF assms(1) _ _ w]) (use u p(2) in auto)
  moreover have "watched_paths t' = {p \<in> watched_paths t. p = wt_root t \<or> map_of observed p \<noteq> None}"
    unfolding w p(2) by (rule set_eqI) (metis (mono_tags, lifting) Diff_iff mem_Collect_eq scope)
  ultimately show ?thesis using u by blast
qed

lemma unwatch_keeps:
  assumes "tree_ok t" and "for_each (unwatch_step be ignored) ps (t, b) = (err, t', b')" and "distinct ps" and "wt_root t \<notin> set ps"
  shows "tree_ok t' \<and> wt_root t' = wt_root t"
proof -
  from unwatch_steps [OF assms(2,3) tree_okD(2) [OF assms(1)]] obtain n where
    u: "wt_root t' = wt_root t" "gomap_ok (wt_watched t')" "watched_paths t' = watched_paths t - set (take n ps)" by blast
  have "wt_root t \<notin> set (take n ps)" using assms(4) by (metis in_set_takeD)
  from tree_ok_removed [OF assms(1) u this] u(1) show ?thesis by simp
qed

lemma walk_dir_invariant:
  assumes "walk_dir fs (visit_entry ctx root policy fn) fuel path typ a = Some (err, a')" and "Q a" and "IsAbs path"
    and step: "\<And>p a. IsAbs p \<Longrightarrow> Q a \<Longrightarrow> Q (snd (fn p a))"
  shows "Q a'"
  using assms(1-3)
proof (induction fuel arbitrary: path "typ" a a' err)
  case (Suc fuel)
  let ?fn = "visit_entry ctx root policy fn"
  have v: "Q (snd (?fn p ty e b))" if "IsAbs p" "Q b" for p ty e b
    using that step [OF that] by (auto simp: visit_entry_def split: option.splits)
  obtain r a1 where a1: "?fn path typ None a = (r, a1)" by fastforce
  have q1: "Q a1" using v [OF Suc.prems(3,2), of "typ" None] a1 by simp
  obtain r2 a2 where a2: "(case snd (wf_ReadDir fs path) of None \<Rightarrow> (None, a1) | Some e \<Rightarrow> ?fn path typ (Some e) a1) = (r2, a2)"
    by fastforce
  have q2: "Q a2" using v [OF Suc.prems(3) q1, of "typ"] a2 q1 by (cases "snd (wf_ReadDir fs path)") (auto, metis snd_conv)
  show ?case
  proof (cases "r = None \<and> IsDir typ \<and> r2 = None")
    case True
    then have "entry_loop (\<lambda>name. walk_dir fs ?fn fuel (Join path name) (wf_Type fs (Join path name)))
        (sort (fst (wf_ReadDir fs path))) a2 = Some (err, a')"
      using Suc.prems(1) a1 a2 by simp
    then show ?thesis
    proof (rule entry_loop_invariant [where Q = Q])
      show "Q a2" by (rule q2)
    next
      fix name b e b'
      assume "Q b" "walk_dir fs ?fn fuel (Join path name) (wf_Type fs (Join path name)) b = Some (e, b')"
      then show "Q b'" using Suc.IH IsAbs_Join [OF Suc.prems(3)] by blast
    qed
  next
    case False
    then have "a' = a1 \<or> a' = a2" using Suc.prems(1) a1 a2 by (auto split: option.splits if_splits)
    with q1 q2 show ?thesis by blast
  qed
qed simp

lemma walk_policy_invariant:
  assumes "walkObserverDirectoriesPolicy fs fuel ctx root policy fn a = Some (err, a')" and "Q a" and "IsAbs root"
    and "\<And>p a. IsAbs p \<Longrightarrow> Q a \<Longrightarrow> Q (snd (fn p a))"
  shows "Q a'"
proof -
  have "Q (snd (visit_entry ctx root policy fn root 0 (Some e) a))" for e using assms(2) by (simp add: visit_entry_simps)
  with assms walk_dir_invariant [where Q = Q, OF _ assms(2,3,4)] show ?thesis
    by (auto simp: walkObserverDirectoriesPolicy_def WalkDir_def split: sum.splits if_splits) (metis snd_conv)+
qed

lemma add_keeps:
  assumes "tree_ok (fst tb)" and "wt_root (fst tb) = r" and "IsAbs p"
  shows "tree_ok (fst (snd (wt_Add be p tb))) \<and> wt_root (fst (snd (wt_Add be p tb))) = r"
proof -
  obtain t b where tb: "tb = (t, b)" by fastforce
  obtain e t' b' where a: "wt_Add be p (t, b) = (e, t', b')" by (metis prod_cases3)
  from watch_Add_spec [OF _ assms(3) a] assms(1,2) tb a show ?thesis by simp
qed

lemma walk_add_keeps:
  assumes "walkObserverDirectoriesPolicy fs fuel ctx root policy (wt_Add be) tb = Some (err, tb')"
    and "tree_ok (fst tb)" and "wt_root (fst tb) = r" and "IsAbs root"
  shows "tree_ok (fst tb') \<and> wt_root (fst tb') = r"
  using walk_policy_invariant [where Q = "\<lambda>tb. tree_ok (fst tb) \<and> wt_root (fst tb) = r", OF assms(1) _ assms(4)] assms(2,3) add_keeps
  by blast

text \<open>What the tree operations of a handler keep of the observer.\<close>

definition same_but_tree :: "'b Observer \<Rightarrow> 'b Observer \<Rightarrow> bool" where
  "same_but_tree ob ob' = (\<exists>t b. ob' = ob\<lparr>o_tree := t, o_backend := b\<rparr>)"

lemma same_but_treeD:
  assumes "same_but_tree ob ob'"
  shows "o_root ob' = o_root ob" "o_config ob' = o_config ob" "o_pending ob' = o_pending ob" "o_rootPending ob' = o_rootPending ob"
    "o_rootHint ob' = o_rootHint ob" "o_hints ob' = o_hints ob" "o_errors ob' = o_errors ob" "o_state ob' = o_state ob"
    "o_cancelled ob' = o_cancelled ob" "o_closeOnce ob' = o_closeOnce ob" "o_backendOps ob' = o_backendOps ob"
  using assms by (auto simp: same_but_tree_def)

lemma same_but_tree_refl [simp, intro]: "same_but_tree ob ob"
  unfolding same_but_tree_def by (intro exI [of _ "o_tree ob"] exI [of _ "o_backend ob"]) simp

lemma same_but_tree_set [simp, intro]: "same_but_tree ob (set_tree ob tb)"
  by (auto simp: same_but_tree_def set_tree_def)

lemma remove_subtree_keeps:
  assumes "remove_subtree path ob = (err, ob')" and "obs_tree_ok ob"
  shows "obs_tree_ok ob' \<and> same_but_tree ob ob' \<and> (o_tree ob' = None \<longleftrightarrow> o_tree ob = None)"
proof (cases "o_tree ob")
  case None
  with assms show ?thesis by (auto simp: remove_subtree_def)
next
  case (Some t)
  then obtain b where b: "o_backend ob = Some b" and ok: "tree_ok t" "wt_root t = o_root ob"
    using assms(2) by (cases "o_backend ob") (auto simp: obs_tree_ok_def)
  obtain t' b' where r: "wt_RemoveSubtree (o_backendOps ob) path (t, b) = (err, t', b')" "ob' = set_tree ob (t', b')"
    using assms(1) Some b by (auto simp: remove_subtree_def split: prod.splits)
  note p = subtree_remove_props [OF ok(1), of "Clean path"]
  have "tree_ok t' \<and> wt_root t' = wt_root t"
    by (rule unwatch_keeps [OF ok(1) r(1) [unfolded wt_RemoveSubtree_def fst_conv]]) (use p in auto)
  with ok r(2) assms(2) Some show ?thesis by (simp add: obs_tree_ok_def)
qed

lemma resync_keeps:
  assumes "resyncWatchTree env ob = Some (err, ob')" and "obs_tree_ok ob"
  shows "obs_tree_ok ob' \<and> same_but_tree ob ob' \<and> (o_tree ob' = None \<longleftrightarrow> o_tree ob = None)"
proof (cases "oc_Recursive (o_config ob)")
  case False
  with assms show ?thesis by (simp add: resyncWatchTree_def)
next
  case True
  let ?be = "o_backendOps ob" and ?Q = "\<lambda>(observed :: stringset, t, b :: 'a). tree_ok t \<and> wt_root t = o_root ob"
  obtain t b where tb: "o_tree ob = Some t" "o_backend ob = Some b"
    using assms(1) True by (auto simp: resyncWatchTree_def split: option.splits)
  with assms(2) have ok: "tree_ok t" "wt_root t = o_root ob" and abs: "IsAbs (o_root ob)" by (auto simp: obs_tree_ok_def)
  obtain e obs1 t1 b1 where w: "walkObserverDirectoriesPolicy (oe_fs env) (oe_fuel env) (oe_ctx env) (o_root ob)
      (oc_SymlinkPolicy (o_config ob)) (add_observed ?be) ([], t, b) = Some (e, obs1, t1, b1)"
    using assms(1) True tb by (auto simp: resyncWatchTree_def split: option.splits)
  have add: "?Q (snd (add_observed ?be p st))" if "IsAbs p" "?Q st" for p st
    using add_keeps [of "snd st" "o_root ob" p ?be] that by (auto simp: add_observed_def split: prod.splits)
  have q1: "tree_ok t1 \<and> wt_root t1 = o_root ob"
    using walk_policy_invariant [where Q = ?Q, OF w _ abs add] ok by simp
  show ?thesis
  proof (cases e)
    case (Some x)
    then have "ob' = set_tree ob (t1, b1)" using assms(1) True tb w by (simp add: resyncWatchTree_def)
    with q1 assms(2) tb show ?thesis by (simp add: obs_tree_ok_def)
  next
    case None
    then obtain t2 b2 where s: "wt_Sync ?be [o_root ob] obs1 (t1, b1) = (err, t2, b2)" "ob' = set_tree ob (t2, b2)"
      using assms(1) True tb w by (auto simp: resyncWatchTree_def split: prod.splits)
    have "tree_ok t2 \<and> wt_root t2 = wt_root t1"
      by (rule unwatch_keeps [OF conjunct1 [OF q1] s(1) [unfolded wt_Sync_def fst_conv]])
        (use sync_remove_props [OF conjunct1 [OF q1]] in auto)
    with q1 s(2) assms(2) tb show ?thesis by (simp add: obs_tree_ok_def)
  qed
qed

text \<open>C35: a successful resynchronisation makes the watches equal to the tree: afterwards the watch tree
  holds exactly the directories that are reachable from the root without following links, whatever
  it held before; new directories were added and vanished ones removed.\<close>

theorem resync_exact:
  assumes "obs_tree_ok ob" and rec: "oc_Recursive (o_config ob)" and "walk_fs_ok (oe_fs env)"
    and "oc_SymlinkPolicy (o_config ob) \<noteq> FollowSymlinks"
    and "wf_Lstat (oe_fs env) (o_root ob) = Inr info" and "IsDir (fi_Mode info)" and "\<not> IsSymlink (fi_Mode info)"
    and "wf_Stat (oe_fs env) (o_root ob) = Inr info"
    and "resyncWatchTree env ob = Some (None, ob')"
  shows "\<exists>t'. o_tree ob' = Some t' \<and> watched_paths t' = {p. tree_dir (oe_fs env) (o_root ob) p}"
proof -
  let ?be = "o_backendOps ob" and ?fs = "oe_fs env"
  obtain t b where tb: "o_tree ob = Some t" "o_backend ob = Some b"
    using assms(9) rec by (auto simp: resyncWatchTree_def split: option.splits)
  with assms(1) have ok: "tree_ok t" "wt_root t = o_root ob" and can: "canonical (o_root ob)" by (auto simp: obs_tree_ok_def)
  obtain obs1 t1 b1 t2 b2 where w: "walkObserverDirectoriesPolicy ?fs (oe_fuel env) (oe_ctx env) (o_root ob)
      (oc_SymlinkPolicy (o_config ob)) (add_observed ?be) ([], t, b) = Some (None, obs1, t1, b1)"
    and s: "wt_Sync ?be [o_root ob] obs1 (t1, b1) = (None, t2, b2)" "ob' = set_tree ob (t2, b2)"
    using assms(9) rec tb by (auto simp: resyncWatchTree_def split: option.splits prod.splits)
  obtain vs where vs: "for_each (add_observed ?be) vs ([], t, b) = (None, obs1, t1, b1)" "set vs = {p. tree_dir ?fs (o_root ob) p}"
    using walkObserverDirectories_visits [OF assms(3,4) can assms(5-8) w] by blast
  note a = add_observed_split [OF vs(1)]
  have "\<forall>v \<in> set vs. canonical v" using vs(2) tree_dir_canonical [OF _ assms(3) can] by blast
  from add_all_watched [OF conjunct1 [OF a] ok(1) this] ok have t1: "tree_ok t1" "wt_root t1 = o_root ob"
    "watched_paths t1 = watched_paths t \<union> set vs" by auto
  have "o_root ob \<in> set vs" unfolding vs(2) by (simp add: tree_dir.here)
  with sync_root_exact [OF t1(1), of ?be obs1 b1 t2 b2] s(1) t1 a have "watched_paths t2 = set vs" by auto
  with s(2) vs(2) show ?thesis by simp
qed

section \<open>Handlers\<close>

definition obs_inv :: "'b Observer \<Rightarrow> bool" where
  "obs_inv ob = (queue_ok ob \<and> chan_ok (o_errors ob) \<and> obs_tree_ok ob)"

text \<open>
  What every handler does at most: the public channel is not touched, the state changes only to
  degraded, and then a root hint waits.
\<close>

definition handled :: "'b Observer \<Rightarrow> 'b Observer \<Rightarrow> bool" where
  "handled ob ob' = ((obs_inv ob \<longrightarrow> obs_inv ob') \<and> o_root ob' = o_root ob \<and> o_config ob' = o_config ob \<and> o_hints ob' = o_hints ob \<and>
     o_cancelled ob' = o_cancelled ob \<and> o_closeOnce ob' = o_closeOnce ob \<and> (o_tree ob' = None \<longleftrightarrow> o_tree ob = None) \<and>
     (o_state ob' = o_state ob \<or> o_state ob \<noteq> ObserverStopped \<and> o_state ob' = ObserverDegraded))"

lemma handled_refl [simp, intro]: "handled ob ob"
  by (simp add: handled_def)

lemma handled_trans [trans]: "handled ob ob1 \<Longrightarrow> handled ob1 ob2 \<Longrightarrow> handled ob ob2"
  by (auto simp: handled_def)

lemma handled_enqueue [simp, intro]: "handled ob (enqueue h ob)"
  by (simp add: handled_def obs_inv_def enqueue_ok obs_tree_ok_def)

lemma handled_sendError [simp, intro]: "handled ob (obs_sendError err ob)"
  using chan_ok_send(2) [of "o_errors ob" err]
  by (auto simp: handled_def obs_inv_def obs_sendError_def obs_tree_ok_def queue_ok_def)

lemma handled_stats [simp, intro]: "handled ob (ob\<lparr>o_stats := s\<rparr>)"
  by (simp add: handled_def obs_inv_def obs_tree_ok_def queue_ok_def)

lemma handled_degraded [simp, intro]: "handled ob (obs_setState ObserverDegraded ob)"
  by (simp add: handled_def obs_setState_def obs_inv_def obs_tree_ok_def queue_ok_def)

lemma handled_degrade [simp, intro]: "handled ob (degrade now err ob)"
  unfolding degrade_def by (intro handled_trans [OF handled_trans [OF handled_degraded handled_enqueue] handled_sendError])

lemma handled_tree:
  assumes "same_but_tree ob ob'" and "obs_tree_ok ob \<Longrightarrow> obs_tree_ok ob'" and "o_tree ob' = None \<longleftrightarrow> o_tree ob = None"
  shows "handled ob ob'"
  using same_but_treeD [OF assms(1)] assms(2,3) by (auto simp: handled_def obs_inv_def queue_ok_def)

lemma handled_keep_tree:
  assumes "obs_tree_ok ob \<Longrightarrow> obs_tree_ok ob' \<and> same_but_tree ob ob' \<and> (o_tree ob' = None \<longleftrightarrow> o_tree ob = None)"
    and "obs_inv ob" and "handled ob' ob''"
  shows "handled ob ob''"
  using handled_tree [of ob ob'] assms handled_trans by (metis obs_inv_def)

lemma handled_removed:
  assumes "obs_inv ob"
  shows "handled ob (handle_removed env path ob)"
proof -
  obtain err ob1 where r: "remove_subtree path ob = (err, ob1)" by fastforce
  have "handled ob1 x \<Longrightarrow> handled ob x" for x
    using remove_subtree_keeps [OF r] assms by (rule handled_keep_tree)
  with r show ?thesis by (auto simp: handle_removed_def Let_def split: option.splits)
qed

lemma handled_renamed:
  assumes "obs_inv ob" and "handle_renamed env path ob = Some ob'"
  shows "handled ob ob'"
proof -
  obtain err ob1 where r: "remove_subtree path ob = (err, ob1)" by fastforce
  have h1: "handled ob1 x \<Longrightarrow> handled ob x" for x
    using remove_subtree_keeps [OF r] assms(1) by (rule handled_keep_tree)
  with assms(1) have inv1: "obs_inv ob1" by (metis handled_def handled_refl)
  have h2: "handled ob1 x" if "resyncWatchTree env ob1 = Some (e, ob2)" "handled ob2 x" for e ob2 x
    using resync_keeps [OF that(1)] inv1 that(2) by (rule handled_keep_tree)
  from assms(2) r h1 h2 show ?thesis
    by (auto simp: handle_renamed_def split: option.splits if_splits prod.splits)
qed

lemma handled_created_dir:
  assumes "obs_inv ob" and "handle_created_dir env path ob = Some ob'" and "IsAbs path"
  shows "handled ob ob'"
proof -
  obtain t b where tb: "o_tree ob = Some t" "o_backend ob = Some b"
    using assms(2) by (auto simp: handle_created_dir_def split: option.splits)
  have ok: "tree_ok t" "wt_root t = o_root ob" using assms(1) tb by (simp_all add: obs_inv_def obs_tree_ok_def)
  obtain e1 tb1 where a: "wt_Add (o_backendOps ob) path (t, b) = (e1, tb1)" by (rule prod.exhaust)
  have t1: "tree_ok (fst tb1) \<and> wt_root (fst tb1) = o_root ob"
    using add_keeps [of "(t, b)" "o_root ob" path "o_backendOps ob"] ok assms(3) a by simp
  have set: "handled ob (set_tree ob tb')" if "tree_ok (fst tb') \<and> wt_root (fst tb') = o_root ob" for tb'
    using that tb by (intro handled_tree) (auto simp: obs_tree_ok_def)
  show ?thesis
  proof (cases e1)
    case (Some err)
    then have "ob' = degrade (oe_now env) err (set_tree ob tb1)" using assms(2) tb a by (simp add: handle_created_dir_def)
    with handled_trans [OF set [OF t1]] show ?thesis by simp
  next
    case None
    with assms(2) tb a obtain e2 tb2 where w: "walkObserverDirectoriesPolicy (oe_fs env) (oe_fuel env) (oe_ctx env) path
        (oc_SymlinkPolicy (o_config ob)) (wt_Add (o_backendOps ob)) tb1 = Some (e2, tb2)"
      by (auto simp: handle_created_dir_def split: option.splits)
    have t2: "tree_ok (fst tb2) \<and> wt_root (fst tb2) = o_root ob"
      using walk_add_keeps [OF w] t1 assms(3) by blast
    have "ob' = (case e2 of Some err \<Rightarrow> degrade (oe_now env) err (set_tree ob tb2)
        | None \<Rightarrow> enqueue (native_change (oe_now env) path HintSubtree) (set_tree ob tb2))"
      using assms(2) tb a w None by (auto simp: handle_created_dir_def split: option.splits)
    with handled_trans [OF set [OF t2]] show ?thesis by (auto split: option.splits)
  qed
qed

lemma handled_plain [simp, intro]: "handled ob (handle_plain env path ob)"
  by (simp add: handle_plain_def)

lemma withinObserver_abs: "canonical root \<Longrightarrow> withinObserver root (Clean p) \<Longrightarrow> IsAbs (Clean p)"
  by (rule ccontr) (simp add: withinObserver_def Rel_abs_relative)

lemma handled_handleRaw:
  assumes "obs_inv ob" and "handleRaw env raw ob = Some ob'"
  shows "handled ob ob'"
proof (cases "withinObserver (o_root ob) (Clean (raw_Path raw))")
  case False
  with assms show ?thesis by (simp add: handleRaw_def Let_def)
next
  case True
  have "IsAbs (Clean (raw_Path raw))"
    using withinObserver_abs [OF _ True] assms(1) by (simp add: obs_inv_def obs_tree_ok_def)
  with assms True show ?thesis
    by (auto simp: handleRaw_def Let_def handled_removed simp del: IsAbs_Clean
        dest: handled_renamed handled_created_dir split: if_splits sum.splits)
qed

lemma handled_collect:
  assumes "obs_inv ob" and "collect_step env inp ob = Some ob'"
  shows "handled ob ob'"
proof -
  let ?ob = "\<lambda>s. ob\<lparr>o_stats := s\<rparr>"
  have inv: "obs_inv (?ob s)" for s using assms(1) handled_stats [of ob s] by (simp add: handled_def)
  have resync: "handled (?ob s) x" if "resyncWatchTree env (?ob s) = Some (e, ob2)" "handled ob2 x" for s e ob2 x
    using resync_keeps [OF that(1)] inv that(2) by (rule handled_keep_tree)
  have over: "handled ob2 (obs_sendError err (enqueue h ob2))" for ob2 :: "'a Observer" and err h
    by (rule handled_trans [OF handled_enqueue handled_sendError])
  show ?thesis
  proof (cases inp)
    case (RawIn raw)
    with assms(2) have "handleRaw env raw (?ob ((o_stats ob)\<lparr>oa_received := oa_received (o_stats ob) + 1\<rparr>)) = Some ob'"
      by (simp add: collect_step_def)
    from handled_trans [OF handled_stats handled_handleRaw [OF inv this]] show ?thesis .
  next
    case (ErrIn err)
    with assms(2) resync over handled_trans [OF handled_stats] show ?thesis
      by (auto simp: collect_step_def Let_def split: if_splits option.splits) blast+
  qed (use assms(2) in \<open>auto simp: collect_step_def\<close>)
qed

text \<open>After every branch that hints at a path, a hint that answers it waits.\<close>

lemma enqueue_covers:
  assumes "queue_ok ob" and "hn_Path h = path"
  shows "\<exists>g \<in> set (waiting (enqueue h ob)). answers (o_root ob) g (native_change now path HintPath)"
  using enqueue_answers [of ob "native_change now path HintPath" h] assms
  by (auto simp: retained_def native_change_def weaker_pending_def split: option.splits)

lemma root_covers:
  assumes "queue_ok ob" and "o_rootPending ob"
  shows "\<exists>g \<in> set (waiting ob). answers (o_root ob) g h"
  using root_waits [OF assms, of h] by (simp add: retained_def)

lemma enqueue_root_pending: "o_rootPending (enqueue (root_change now cause ob) ob)"
  by (rule enqueue_root) (simp add: root_hint_def root_change_def)

lemma degrade_root_pending: "o_rootPending (degrade now err ob)"
proof -
  have "o_rootPending (enqueue (root_change now HintBackendStopped ob) (obs_setState ObserverDegraded ob))"
    by (rule enqueue_root) (simp add: root_hint_def root_change_def obs_setState_def)
  then show ?thesis by (simp add: degrade_def obs_sendError_def root_change_def)
qed

lemma degrade_state: "o_state (degrade now err ob) = (if o_state ob = ObserverStopped then ObserverStopped else ObserverDegraded)"
  by (simp add: degrade_def obs_sendError_def obs_setState_def)

lemma degrade_cause: "HintBackendStopped \<le> hn_Cause (o_rootHint (degrade now err ob))"
  by (auto simp: degrade_def obs_sendError_def obs_setState_def enqueue_def mergeHintCause_def Let_def not_less)

definition topology_event :: "ObsEnv \<Rightarrow> RawEvent \<Rightarrow> 'b Observer \<Rightarrow> bool" where
  "topology_event env raw ob =
     (let path = Clean (raw_Path raw) in
      raw_Op raw AND OpRemove \<noteq> 0 \<and> (path = o_root ob \<or> (case o_tree ob of None \<Rightarrow> False | Some t \<Rightarrow> wt_IsWatched path t)) \<or>
      raw_Op raw AND OpRemove = 0 \<and> raw_Op raw AND OpRename \<noteq> 0 \<or>
      raw_Op raw AND OpRemove = 0 \<and> oc_Recursive (o_config ob) \<and> raw_Op raw AND OpCreate \<noteq> 0 \<and>
        (\<exists>info. wf_Lstat (oe_fs env) path = Inr info \<and> IsDir (fi_Mode info) \<and> \<not> IsSymlink (fi_Mode info)))"

lemma handled_okD: "handled ob ob' \<Longrightarrow> obs_inv ob \<Longrightarrow> obs_inv ob' \<and> queue_ok ob' \<and> o_root ob' = o_root ob"
  by (simp add: handled_def obs_inv_def)

lemma removed_covers:
  assumes "obs_inv ob" and "filter_accepts ob path \<or> path = o_root ob \<or>
      (case o_tree ob of None \<Rightarrow> False | Some t \<Rightarrow> wt_IsWatched path t)"
  shows "\<exists>g \<in> set (waiting (handle_removed env path ob)). answers (o_root ob) g (native_change now path HintPath)"
proof (cases "o_rootPending (handle_removed env path ob)")
  case True
  have h: "handled ob (handle_removed env path ob)" by (rule handled_removed [OF assms(1)])
  from handled_okD [OF h assms(1)] root_covers [OF _ True] show ?thesis by metis
next
  case False
  then have np: "path \<noteq> o_root ob" by (auto simp: handle_removed_def degrade_root_pending)
  obtain err ob1 where r: "remove_subtree path ob = (err, ob1)" by fastforce
  have k: "obs_tree_ok ob1 \<and> same_but_tree ob ob1 \<and> (o_tree ob1 = None \<longleftrightarrow> o_tree ob = None)"
    using remove_subtree_keeps [OF r] assms(1) by (simp add: obs_inv_def)
  note s = same_but_treeD [OF conjunct1 [OF conjunct2 [OF k]]]
  have q1: "queue_ok ob1" using assms(1) s by (simp add: obs_inv_def queue_ok_def)
  have err: "err = None" using False r np by (cases err) (auto simp: handle_removed_def Let_def degrade_root_pending)
  have f: "filter_accepts ob1 path = filter_accepts ob path" using s(2) by (simp add: filter_accepts_def)
  from r err np assms(2) f have "\<exists>sc. handle_removed env path ob = enqueue (native_change (oe_now env) path sc) ob1"
    by (auto simp: handle_removed_def Let_def)
  with enqueue_covers [OF q1] s(1) show ?thesis by (auto simp: native_change_def)
qed

lemma renamed_covers:
  assumes "obs_inv ob" and "handle_renamed env path ob = Some ob'"
  shows "\<exists>g \<in> set (waiting ob'). answers (o_root ob) g h"
proof -
  have "o_rootPending ob'"
    using assms(2) by (auto simp: handle_renamed_def degrade_root_pending enqueue_root_pending split: if_splits option.splits prod.splits)
  with root_covers handled_okD [OF handled_renamed [OF assms] assms(1)] show ?thesis by metis
qed

lemma created_dir_covers:
  assumes "obs_inv ob" and "handle_created_dir env path ob = Some ob'" and "IsAbs path"
  shows "\<exists>g \<in> set (waiting ob'). answers (o_root ob) g (native_change now path HintPath)"
proof (cases "o_rootPending ob'")
  case True
  with root_covers handled_okD [OF handled_created_dir [OF assms] assms(1)] show ?thesis by metis
next
  case False
  then obtain tb where "ob' = enqueue (native_change (oe_now env) path HintSubtree) (set_tree ob tb)"
    using assms(2) by (auto simp: handle_created_dir_def degrade_root_pending split: option.splits prod.splits)
  moreover have "queue_ok (set_tree ob tb)" using assms(1) by (simp add: obs_inv_def queue_ok_def)
  ultimately show ?thesis using enqueue_covers [of "set_tree ob tb"] by (simp add: native_change_def)
qed

text \<open>An event that neither removes nor renames is about a new directory, a failing inspection, or plain.\<close>

lemma handleRaw_other:
  assumes "handleRaw env raw ob = Some ob'" and "withinObserver (o_root ob) (Clean (raw_Path raw))"
    and "raw_Op raw AND OpRemove = 0" and "raw_Op raw AND OpRename = 0"
  obtains (dir) "handle_created_dir env (Clean (raw_Path raw)) ob = Some ob'"
    | (degraded) "ob' = degrade (oe_now env) ErrSymlink ob"
    | (plain) "ob' = handle_plain env (Clean (raw_Path raw)) ob" and "\<not> topology_event env raw ob"
proof -
  let ?path = "Clean (raw_Path raw)"
  have top: "topology_event env raw ob \<longleftrightarrow> oc_Recursive (o_config ob) \<and> raw_Op raw AND OpCreate \<noteq> 0 \<and>
      (\<exists>info. wf_Lstat (oe_fs env) ?path = Inr info \<and> IsDir (fi_Mode info) \<and> \<not> IsSymlink (fi_Mode info))"
    using assms(3,4) by (simp add: topology_event_def Let_def)
  have "Some ob' = (if topology_event env raw ob then handle_created_dir env ?path ob
      else Some (degrade (oe_now env) ErrSymlink ob)) \<or> \<not> topology_event env raw ob \<and> Some ob' = Some (handle_plain env ?path ob)"
    unfolding assms(1) [symmetric] top using assms(2-4)
    by (cases "wf_Lstat (oe_fs env) ?path") (simp_all add: handleRaw_def Let_def)
  then show ?thesis using that by (metis option.inject)
qed

lemma handle_plain_covers:
  assumes "obs_inv ob" and "filter_accepts ob path"
  shows "\<exists>g \<in> set (waiting (handle_plain env path ob)). answers (o_root ob) g (native_change now path HintPath)"
  using assms(2) enqueue_covers [of ob "native_change (oe_now env) path HintPath" path now] assms(1)
  by (simp add: handle_plain_def native_change_def obs_inv_def)

lemma handleRaw_covers:
  assumes inv: "obs_inv ob" and run: "handleRaw env raw ob = Some ob'"
    and within: "withinObserver (o_root ob) (Clean (raw_Path raw))"
    and accepts: "filter_accepts ob (Clean (raw_Path raw)) \<or> topology_event env raw ob"
  shows "\<exists>g \<in> set (waiting ob'). answers (o_root ob) g (native_change now (Clean (raw_Path raw)) HintPath)"
proof -
  let ?path = "Clean (raw_Path raw)"
  consider (removed) "raw_Op raw AND OpRemove \<noteq> 0" | (renamed) "raw_Op raw AND OpRemove = 0" "raw_Op raw AND OpRename \<noteq> 0"
    | (other) "raw_Op raw AND OpRemove = 0" "raw_Op raw AND OpRename = 0" by blast
  then show ?thesis
  proof cases
    case removed
    then have "ob' = handle_removed env ?path ob" using run within by (simp add: handleRaw_def Let_def)
    with removed_covers [OF inv, of ?path] accepts removed show ?thesis by (auto simp: topology_event_def Let_def)
  next
    case renamed
    with run within have "handle_renamed env ?path ob = Some ob'" by (simp add: handleRaw_def Let_def)
    then show ?thesis by (rule renamed_covers [OF inv])
  next
    case other
    from run within other show ?thesis
    proof (cases rule: handleRaw_other)
      case dir
      have "IsAbs ?path" using withinObserver_abs [OF _ within] inv by (simp add: obs_inv_def obs_tree_ok_def)
      with dir show ?thesis by (rule created_dir_covers [OF inv])
    next
      case degraded
      then have "obs_inv ob'" "o_root ob' = o_root ob" using handled_okD [OF handled_degrade inv] by simp_all
      with root_covers [of ob'] degraded show ?thesis by (simp add: obs_inv_def degrade_root_pending)
    next
      case plain
      with accepts handle_plain_covers [OF inv] show ?thesis by simp
    qed
  qed
qed

text \<open>C32: a native event is never silently ignored. After an event for a path inside the root was
  handled, a hint that answers the path waits: the path itself, the subtree, or the subtree of the
  root; only an event that the filter rejects and that does not change the directory topology is
  dropped. The removal of the root leaves the observer degraded, with a root hint whose cause is at
  least \<open>BACKEND_STOPPED\<close>.\<close>

theorem raw_event_answered:
  assumes inv: "obs_inv ob" and run: "handleRaw env raw ob = Some ob'"
    and within: "withinObserver (o_root ob) (Clean (raw_Path raw))"
    and accepts: "filter_accepts ob (Clean (raw_Path raw)) \<or> topology_event env raw ob"
  shows "(\<exists>g \<in> set (waiting ob'). answers (o_root ob) g (native_change now (Clean (raw_Path raw)) HintPath)) \<and>
    (Clean (raw_Path raw) = o_root ob \<and> raw_Op raw AND (OpRemove OR OpRename) \<noteq> 0 \<and> o_state ob \<noteq> ObserverStopped \<longrightarrow>
       o_state ob' = ObserverDegraded \<and> o_rootPending ob' \<and> HintBackendStopped \<le> hn_Cause (o_rootHint ob'))"
proof -
  have "raw_Op raw AND (OpRemove OR OpRename) \<noteq> 0 \<longleftrightarrow> raw_Op raw AND OpRemove \<noteq> 0 \<or> raw_Op raw AND OpRename \<noteq> 0"
    by (simp add: bit.conj_disj_distrib or_eq_0_iff)
  moreover have "o_state (degrade n e ob) = ObserverDegraded \<and> o_rootPending (degrade n e ob) \<and>
      HintBackendStopped \<le> hn_Cause (o_rootHint (degrade n e ob))" if "o_state ob \<noteq> ObserverStopped" for n e
    using that by (simp add: degrade_state degrade_root_pending degrade_cause)
  ultimately have "o_state ob' = ObserverDegraded \<and> o_rootPending ob' \<and> HintBackendStopped \<le> hn_Cause (o_rootHint ob')"
    if "Clean (raw_Path raw) = o_root ob" "raw_Op raw AND (OpRemove OR OpRename) \<noteq> 0" "o_state ob \<noteq> ObserverStopped"
    using run within that by (auto simp: handleRaw_def handle_removed_def handle_renamed_def Let_def split: if_splits)
  with handleRaw_covers [OF assms] show ?thesis by blast
qed

section \<open>Start\<close>

lemma wt_New_ok:
  assumes "canonical r"
  shows "tree_ok (wt_New r)" "wt_root (wt_New r) = r" "watched_paths (wt_New r) = {r}"
  using assms by (auto intro: tree_ok_New) (auto simp: wt_New_def watched_paths_def Clean_canonical)

lemma NewObserver_inv:
  assumes "NewObserver getwd ops config = Inr ob" and "\<forall>wd. getwd = Inr wd \<longrightarrow> IsAbs wd"
  shows "obs_inv ob \<and> o_state ob = ObserverCreated \<and> \<not> o_rootPending ob \<and> o_pending ob = [] \<and> o_tree ob = None \<and>
    \<not> o_closeOnce ob \<and> oc_SymlinkPolicy (o_config ob) \<noteq> FollowSymlinks"
proof -
  have "canonical (o_root ob)"
    using assms by (auto simp: NewObserver_def Abs_path_def observer_defaults_def Let_def IsAbs_Join
        intro!: canonical_Clean split: if_splits sum.splits)
  moreover have "queue_ok ob" using NewObserver_queue_ok [OF assms(1)] by simp
  ultimately show ?thesis
    using assms(1) by (auto simp: NewObserver_def obs_inv_def obs_tree_ok_def chan_ok_def make_chan_def observer_defaults_def Let_def
        split: if_splits sum.splits)
qed

text \<open>A start that fails leaves a degraded, cancelled observer without hints.\<close>

lemma start_cases:
  assumes "o_state ob = ObserverCreated" and "Start_observer env started bclose ob = Some (err, ob')"
  obtains (failed) e t b where "err = Some e" "ob' = ob\<lparr>o_tree := t, o_backend := b, o_cancelled := True, o_state := ObserverDegraded\<rparr>"
      "(t = o_tree ob \<and> b = o_backend ob) \<or>
       (\<exists>t1 b1. t = Some t1 \<and> b = Some b1 \<and> (tree_ok (wt_New (o_root ob)) \<longrightarrow> IsAbs (o_root ob) \<longrightarrow> tree_ok t1 \<and> wt_root t1 = wt_root (wt_New (o_root ob))))"
  | (running) t b where "err = None"
      "ob' = enqueue (root_change (oe_now env) HintStartup ob) (ob\<lparr>o_tree := Some t, o_backend := Some b, o_state := ObserverRunning\<rparr>)"
      "(if oc_Recursive (o_config ob) then \<exists>b0. walkObserverDirectoriesPolicy (oe_fs env) (oe_fuel env) (oe_ctx env) (o_root ob)
          (oc_SymlinkPolicy (o_config ob)) (wt_Add (o_backendOps ob)) (wt_New (o_root ob), b0) = Some (None, t, b)
        else t = wt_New (o_root ob))"
proof (cases started)
  case (Inl e)
  with assms show ?thesis
    by (intro failed [where e = "the err" and t = "o_tree ob" and b = "o_backend ob"])
      (auto simp: Start_observer_def Let_def obs_setState_def split: if_splits)
next
  case (Inr b0)
  show ?thesis
  proof (cases "(case wf_Lstat (oe_fs env) (o_root ob) of Inl _ \<Rightarrow> False | Inr info \<Rightarrow> IsSymlink (fi_Mode info)) \<and>
           oc_SymlinkPolicy (o_config ob) = RejectSymlinks")
    case True
    with assms show ?thesis
      by (intro failed [where e = "the err" and t = "o_tree ob" and b = "o_backend ob"]) (auto simp: Start_observer_def Let_def obs_setState_def)
  next
    case False
    let ?w = "start_walk env ob b0"
    have st: "start_walk env (ob\<lparr>o_state := x\<rparr>) b0 = ?w" for x by (simp add: start_walk_def)
    have body: "Some (err, ob') = (case ?w of
         None \<Rightarrow> None
       | Some (Some err, t, b) \<Rightarrow> Some (Some err, ob\<lparr>o_tree := Some t, o_backend := Some (bclose b), o_cancelled := True, o_state := ObserverDegraded\<rparr>)
       | Some (None, t, b) \<Rightarrow> Some (None, enqueue (root_change (oe_now env) HintStartup ob)
            (ob\<lparr>o_tree := Some t, o_backend := Some b, o_state := ObserverRunning\<rparr>)))"
      unfolding assms(2) [symmetric] using assms(1) False Inr
      by (cases ?w) (auto simp: Start_observer_def st Let_def obs_setState_def set_tree_def root_change_def split: option.splits prod.splits)
    then obtain e t b where w: "?w = Some (e, t, b)" by (cases ?w) auto
    show ?thesis
    proof (cases e)
      case (Some x)
      have "tree_ok t \<and> wt_root t = wt_root (wt_New (o_root ob))" if "tree_ok (wt_New (o_root ob))" "IsAbs (o_root ob)"
        using w Some walk_add_keeps [of "oe_fs env" _ _ "o_root ob" _ _ "(wt_New (o_root ob), b0)" e "(t, b)"] that
        by (auto simp: start_walk_def split: if_splits)
      with body w Some show ?thesis by (intro failed [where e = x and t = "Some t" and b = "Some (bclose b)"]) auto
    next
      case None
      with body w show ?thesis by (intro running [where t = t and b = b]) (auto simp: start_walk_def split: if_splits)
    qed
  qed
qed

lemma start_inv:
  assumes "obs_inv ob" and "o_state ob = ObserverCreated" and "Start_observer env started bclose ob = Some (err, ob')"
  shows "obs_inv ob' \<and> o_root ob' = o_root ob \<and> o_config ob' = o_config ob \<and> o_hints ob' = o_hints ob \<and> o_closeOnce ob' = o_closeOnce ob \<and>
    (if err = None then o_state ob' = ObserverRunning \<and> o_tree ob' \<noteq> None \<and> o_cancelled ob' = o_cancelled ob
     else o_state ob' = ObserverDegraded \<and> o_cancelled ob')"
proof -
  have can: "canonical (o_root ob)" using assms(1) by (simp add: obs_inv_def obs_tree_ok_def)
  then have new: "tree_ok (wt_New (o_root ob))" "wt_root (wt_New (o_root ob)) = o_root ob" "IsAbs (o_root ob)"
    by (auto simp: wt_New_ok)
  from assms(2,3) show ?thesis
  proof (cases rule: start_cases)
    case (failed e t b)
    with assms(1) new show ?thesis by (auto simp: obs_inv_def obs_tree_ok_def queue_ok_def)
  next
    case (running t b)
    let ?ob = "ob\<lparr>o_tree := Some t, o_backend := Some b, o_state := ObserverRunning\<rparr>"
    have "tree_ok t \<and> wt_root t = o_root ob"
      using running(3) new walk_add_keeps [of "oe_fs env" _ _ "o_root ob" _ _ _ None "(t, b)" "o_root ob"]
      by (auto split: if_splits)
    then have "obs_inv ?ob" using assms(1) by (auto simp: obs_inv_def obs_tree_ok_def queue_ok_def)
    with running handled_okD [OF handled_enqueue this] show ?thesis by simp
  qed
qed

text \<open>C34: a recursive observer that starts watches exactly the tree. When \<open>Start\<close> succeeds on a
  root that is a directory, the observer is running, its watch tree holds exactly the directories
  reachable from the root without following links, and the only hint that waits is the startup hint
  for the subtree of the root.\<close>

theorem start_watches_tree:
  assumes new: "NewObserver getwd ops config = Inr ob" and wd: "\<forall>wd. getwd = Inr wd \<longrightarrow> IsAbs wd"
    and "oc_Recursive config" and fs: "walk_fs_ok (oe_fs env)"
    and root: "wf_Lstat (oe_fs env) (o_root ob) = Inr info" "IsDir (fi_Mode info)" "\<not> IsSymlink (fi_Mode info)"
      "wf_Stat (oe_fs env) (o_root ob) = Inr info"
    and start: "Start_observer env started bclose ob = Some (None, ob')"
  shows "o_state ob' = ObserverRunning \<and>
    (\<exists>t. o_tree ob' = Some t \<and> watched_paths t = {p. tree_dir (oe_fs env) (o_root ob) p}) \<and>
    waiting ob' = [\<lparr>hn_Path = o_root ob, hn_Scope = HintSubtree, hn_Cause = HintStartup, hn_Time = oe_now env\<rparr>]"
proof -
  note n = NewObserver_inv [OF new wd]
  then have can: "canonical (o_root ob)" and created: "o_state ob = ObserverCreated" by (simp_all add: obs_inv_def obs_tree_ok_def)
  have rec: "oc_Recursive (o_config ob)"
    using new assms(3) by (auto simp: NewObserver_def observer_defaults_def Let_def split: if_splits sum.splits)
  from created start show ?thesis
  proof (cases rule: start_cases)
    case (running t b)
    then obtain b0 where w: "walkObserverDirectoriesPolicy (oe_fs env) (oe_fuel env) (oe_ctx env) (o_root ob)
        (oc_SymlinkPolicy (o_config ob)) (wt_Add (o_backendOps ob)) (wt_New (o_root ob), b0) = Some (None, t, b)"
      using rec by auto
    obtain vs where vs: "for_each (wt_Add (o_backendOps ob)) vs (wt_New (o_root ob), b0) = (None, t, b)"
      "set vs = {p. tree_dir (oe_fs env) (o_root ob) p}"
      using walkObserverDirectories_visits [OF fs _ can root w] n by blast
    have "\<forall>v \<in> set vs. canonical v" using vs(2) tree_dir_canonical [OF _ fs can] by blast
    from add_all_watched [OF vs(1) wt_New_ok(1) [OF can] this] have "watched_paths t = {o_root ob} \<union> set vs"
      by (simp add: wt_New_ok(3) [OF can])
    moreover have "o_root ob \<in> set vs" unfolding vs(2) by (simp add: tree_dir.here)
    ultimately have w: "watched_paths t = {p. tree_dir (oe_fs env) (o_root ob) p}"
      unfolding vs(2) [symmetric] by (simp add: insert_absorb)
    have "o_tree ob' = Some t" "o_state ob' = ObserverRunning" unfolding running(2) by simp_all
    moreover have "waiting ob' = [\<lparr>hn_Path = o_root ob, hn_Scope = HintSubtree, hn_Cause = HintStartup, hn_Time = oe_now env\<rparr>]"
      unfolding running(2) using n by (simp add: waiting_def enqueue_def root_change_def)
    ultimately show ?thesis using w by blast
  qed simp
qed

section \<open>Handlers return\<close>

text \<open>The tree below a directory is not deeper than the fuel.\<close>

primrec shallow :: "WalkFS \<Rightarrow> nat \<Rightarrow> string \<Rightarrow> bool" where
  "shallow fs 0 p = False"
| "shallow fs (Suc n) p = (\<forall>name \<in> set (fst (wf_ReadDir fs p)). 0 < n \<and> (IsDir (wf_Type fs (Join p name)) \<longrightarrow> shallow fs n (Join p name)))"

lemma walk_dir_returns:
  assumes "0 < n" and "IsDir typ \<longrightarrow> shallow fs n p"
  shows "\<exists>r. walk_dir fs fn n p typ a = Some r"
  using assms
proof (induction n arbitrary: p "typ" a)
  case (Suc n)
  obtain e a1 where f: "fn p typ None a = (e, a1)" by fastforce
  obtain e2 a2 where g: "(case snd (wf_ReadDir fs p) of None \<Rightarrow> (None, a1) | Some e \<Rightarrow> fn p typ (Some e) a1) = (e2, a2)" by fastforce
  have "\<exists>e st'. entry_loop (\<lambda>name. walk_dir fs fn n (Join p name) (wf_Type fs (Join p name))) (sort (fst (wf_ReadDir fs p))) a2 = Some (e, st') \<and> True"
    if "IsDir typ"
  proof (rule entry_loop_total [where Q = "\<lambda>_. True"])
    fix name st
    assume "name \<in> set (sort (fst (wf_ReadDir fs p)))"
    with Suc.prems(2) that have "0 < n" "IsDir (wf_Type fs (Join p name)) \<longrightarrow> shallow fs n (Join p name)" by auto
    from Suc.IH [OF this, of st] show "\<exists>e st'. walk_dir fs fn n (Join p name) (wf_Type fs (Join p name)) st = Some (e, st') \<and> True" by auto
  qed simp
  with f g show ?case by (auto split: option.splits)
qed simp

lemma walk_policy_returns:
  assumes "shallow fs n root"
  shows "walkObserverDirectoriesPolicy fs n ctx root policy fn a \<noteq> None"
proof -
  have "0 < n" using assms by (cases n) simp_all
  then have "walk_dir fs g n root ty a \<noteq> None" for g :: "'a WalkDirFunc" and ty
    using walk_dir_returns [of n ty fs root g a] assms by auto
  then show ?thesis by (auto simp: walkObserverDirectoriesPolicy_def WalkDir_def split: sum.splits)
qed

lemma resync_returns:
  assumes "o_tree ob \<noteq> None" and "o_backend ob \<noteq> None" and "shallow (oe_fs env) (oe_fuel env) (o_root ob)"
  shows "resyncWatchTree env ob \<noteq> None"
proof -
  obtain t b where "o_tree ob = Some t" "o_backend ob = Some b" using assms(1,2) by auto
  then show ?thesis
    using walk_policy_returns [OF assms(3), of "oe_ctx env" "oc_SymlinkPolicy (o_config ob)" "add_observed (o_backendOps ob)" "([], t, b)"]
    by (auto simp: resyncWatchTree_def split: option.splits prod.splits)
qed

lemma remove_subtree_present:
  "remove_subtree path ob = (e, ob') \<Longrightarrow> o_tree ob \<noteq> None \<Longrightarrow> o_backend ob \<noteq> None \<Longrightarrow>
   o_tree ob' \<noteq> None \<and> o_backend ob' \<noteq> None \<and> o_root ob' = o_root ob"
  by (auto simp: remove_subtree_def split: option.splits prod.splits)

text \<open>C38: the collecting goroutine never gets stuck in a handler. On a started observer, when the
  tree below the root and below the path of the event is finite in depth, every iteration of
  \<open>collect\<close> returns, whatever arrives and however the backend and the file system fail.\<close>

theorem collect_returns:
  assumes tree: "o_tree ob \<noteq> None" "o_backend ob \<noteq> None" and root: "shallow (oe_fs env) (oe_fuel env) (o_root ob)"
    and path: "\<forall>raw. inp = RawIn raw \<longrightarrow> shallow (oe_fs env) (oe_fuel env) (Clean (raw_Path raw))"
  shows "\<exists>ob'. collect_step env inp ob = Some ob'"
proof -
  have ren: "handle_renamed env p ob1 \<noteq> None"
    if "o_tree ob1 \<noteq> None" "o_backend ob1 \<noteq> None" "o_root ob1 = o_root ob" for p ob1
  proof -
    obtain e ob2 where r: "remove_subtree p ob1 = (e, ob2)" by fastforce
    have "resyncWatchTree env ob2 \<noteq> None"
      using remove_subtree_present [OF r that(1,2)] root that(3) by (intro resync_returns) simp_all
    with r show ?thesis by (auto simp: handle_renamed_def split: option.splits)
  qed
  have dir: "handle_created_dir env p ob1 \<noteq> None"
    if ob1: "o_tree ob1 \<noteq> None" "o_backend ob1 \<noteq> None" "shallow (oe_fs env) (oe_fuel env) p" for p ob1
  proof -
    obtain t b where tb: "o_tree ob1 = Some t" "o_backend ob1 = Some b" using ob1(1,2) by auto
    obtain e tb1 where a: "wt_Add (o_backendOps ob1) p (t, b) = (e, tb1)" by (rule prod.exhaust)
    obtain r where "walkObserverDirectoriesPolicy (oe_fs env) (oe_fuel env) (oe_ctx env) p (oc_SymlinkPolicy (o_config ob1))
        (wt_Add (o_backendOps ob1)) tb1 = Some r"
      using walk_policy_returns [OF ob1(3), of "oe_ctx env" "oc_SymlinkPolicy (o_config ob1)" "wt_Add (o_backendOps ob1)" tb1] by auto
    with tb a show ?thesis by (cases r) (simp add: handle_created_dir_def split: option.splits)
  qed
  let ?ob = "\<lambda>s. ob\<lparr>o_stats := s\<rparr>"
  have raw: "handleRaw env raw (?ob s) \<noteq> None" if "inp = RawIn raw" for raw s
    using ren [of "?ob s"] dir [of "?ob s"] tree path that by (auto simp: handleRaw_def Let_def split: sum.splits)
  let ?o = "?ob ((o_stats ob)\<lparr>oa_overflows := oa_overflows (o_stats ob) + 1\<rparr>)"
  have "resyncWatchTree env ?o \<noteq> None" by (rule resync_returns) (use tree root in simp_all)
  with raw show ?thesis
    by (cases inp) (auto simp: collect_step_def Let_def split: option.splits)
qed

section \<open>Interleaving\<close>

text \<open>
  The observer with its goroutines: whether \<open>collect\<close> and \<open>emit\<close> run, which of the two channels of
  \<open>collect\<close> are not nil, and how far \<open>Close\<close> is. \<open>Start\<close> is one step: a \<open>Close\<close> in the middle of it
  is not covered.
\<close>

record 'b ObserverSys =
  sy_ob :: "'b Observer"
  sy_collect :: bool
  sy_emit :: bool
  sy_events :: bool
  sy_errs :: bool
  sy_closed :: bool

definition init_sys :: "'b Observer \<Rightarrow> 'b ObserverSys" where
  "init_sys ob = \<lparr>sy_ob = ob, sy_collect = False, sy_emit = False, sy_events = False, sy_errs = False, sy_closed = False\<rparr>"

inductive obs_step :: "'b ObserverSys \<Rightarrow> 'b ObserverSys \<Rightarrow> bool" where
  start_ok: "Start_observer env started bclose (sy_ob s) = Some (None, ob') \<Longrightarrow>
    obs_step s (s\<lparr>sy_ob := ob', sy_collect := True, sy_emit := True, sy_events := True, sy_errs := True\<rparr>)"
| start_failed: "Start_observer env started bclose (sy_ob s) = Some (Some err, ob') \<Longrightarrow> obs_step s (s\<lparr>sy_ob := ob'\<rparr>)"
| cancelled: "obs_step s (s\<lparr>sy_ob := (sy_ob s)\<lparr>o_cancelled := True\<rparr>\<rparr>)"
| collect_event: "sy_collect s \<Longrightarrow> sy_events s \<Longrightarrow> collect_step env (RawIn raw) (sy_ob s) = Some ob' \<Longrightarrow> obs_step s (s\<lparr>sy_ob := ob'\<rparr>)"
| collect_events_end: "sy_collect s \<Longrightarrow> sy_events s \<Longrightarrow> collect_step env EventsEnd (sy_ob s) = Some ob' \<Longrightarrow>
    obs_step s (s\<lparr>sy_ob := ob', sy_events := False\<rparr>)"
| collect_error: "sy_collect s \<Longrightarrow> sy_errs s \<Longrightarrow> collect_step env (ErrIn err) (sy_ob s) = Some ob' \<Longrightarrow> obs_step s (s\<lparr>sy_ob := ob'\<rparr>)"
| collect_errs_end: "sy_collect s \<Longrightarrow> sy_errs s \<Longrightarrow> collect_step env ErrsEnd (sy_ob s) = Some ob' \<Longrightarrow>
    obs_step s (s\<lparr>sy_ob := ob', sy_errs := False\<rparr>)"
| collect_return: "sy_collect s \<Longrightarrow> o_cancelled (sy_ob s) \<or> \<not> sy_events s \<and> \<not> sy_errs s \<Longrightarrow> obs_step s (s\<lparr>sy_collect := False\<rparr>)"
| emit_tick: "sy_emit s \<Longrightarrow> \<forall>m. mset (order m) = mset m \<Longrightarrow> obs_step s (s\<lparr>sy_ob := obs_flush order (sy_ob s)\<rparr>)"
| emit_return: "sy_emit s \<Longrightarrow> o_cancelled (sy_ob s) \<Longrightarrow> obs_step s (s\<lparr>sy_emit := False\<rparr>)"
| receive: "receive_hint (sy_ob s) = ([h], ob') \<Longrightarrow> obs_step s (s\<lparr>sy_ob := ob'\<rparr>)"
| close_call: "\<not> o_closeOnce (sy_ob s) \<Longrightarrow> obs_step s (s\<lparr>sy_ob := close_begin bclose (sy_ob s)\<rparr>)"
| close_return: "o_closeOnce (sy_ob s) \<Longrightarrow> \<not> sy_closed s \<Longrightarrow> \<not> sy_collect s \<Longrightarrow> \<not> sy_emit s \<Longrightarrow>
    obs_step s (s\<lparr>sy_ob := close_end (sy_ob s), sy_closed := True\<rparr>)"

inductive obs_reach :: "'b Observer \<Rightarrow> 'b ObserverSys \<Rightarrow> bool" for ob where
  init: "obs_reach ob (init_sys ob)"
| step: "obs_reach ob s \<Longrightarrow> obs_step s s' \<Longrightarrow> obs_reach ob s'"

text \<open>
  The channels are closed exactly when \<open>Close\<close> has returned, and then no goroutine runs. Before, they
  are open and the invariants hold.
\<close>

definition chan_bounded :: "'a Chan \<Rightarrow> bool" where
  "chan_bounded ch = (\<not> ch_panicked ch \<and> int (length (ch_queue ch)) \<le> ch_cap ch)"

definition obs_body :: "'b Observer \<Rightarrow> bool" where
  "obs_body ob = (gomap_ok (o_pending ob) \<and> (\<forall>(p, h) \<in> set (o_pending ob). hn_Path h = p) \<and>
     int (length (o_pending ob)) \<le> oc_MaxPendingHints (o_config ob) \<and>
     (o_rootPending ob \<longrightarrow> o_pending ob = [] \<and> root_hint (o_root ob) (o_rootHint ob)) \<and>
     chan_bounded (o_hints ob) \<and> chan_bounded (o_errors ob) \<and> obs_tree_ok ob)"

lemma obs_inv_body: "obs_inv ob \<longleftrightarrow> obs_body ob \<and> \<not> ch_closed (o_hints ob) \<and> \<not> ch_closed (o_errors ob)"
  by (auto simp: obs_inv_def obs_body_def queue_ok_def chan_ok_def chan_bounded_def)

lemma obs_body_simps [simp]:
  "obs_body (ob\<lparr>o_cancelled := c\<rparr>) = obs_body ob" "obs_body (close_begin bclose ob) = obs_body ob" "obs_body (close_end ob) = obs_body ob"
  by (simp_all add: obs_body_def close_begin_def close_end_def close_chan_def chan_bounded_def obs_tree_ok_def)

definition sys_inv :: "'b Observer \<Rightarrow> 'b ObserverSys \<Rightarrow> bool" where
  "sys_inv ob0 s = (let ob = sy_ob s in
     obs_body ob \<and> ch_closed (o_hints ob) = sy_closed s \<and> ch_closed (o_errors ob) = sy_closed s \<and>
     o_root ob = o_root ob0 \<and> o_config ob = o_config ob0 \<and> ch_cap (o_hints ob) = ch_cap (o_hints ob0) \<and>
     (sy_closed s \<longrightarrow> \<not> sy_collect s \<and> \<not> sy_emit s \<and> o_closeOnce ob) \<and>
     (o_closeOnce ob \<longleftrightarrow> o_state ob = ObserverStopped) \<and> (o_closeOnce ob \<longrightarrow> o_cancelled ob) \<and>
     (sy_collect s \<or> sy_emit s \<longrightarrow> o_state ob \<noteq> ObserverCreated))"

lemma sys_inv_open:
  assumes "sys_inv ob0 s" and "\<not> sy_closed s"
  shows "obs_inv (sy_ob s)"
  using assms by (auto simp: sys_inv_def Let_def obs_inv_body)

lemma sys_inv_handled:
  assumes "sys_inv ob0 s" and "\<not> sy_closed s" and "handled (sy_ob s) ob'" and "o_state (sy_ob s) \<noteq> ObserverCreated"
  shows "sys_inv ob0 (s\<lparr>sy_ob := ob'\<rparr>)" "sys_inv ob0 (s\<lparr>sy_ob := ob', sy_events := e\<rparr>)" "sys_inv ob0 (s\<lparr>sy_ob := ob', sy_errs := e\<rparr>)"
proof -
  have "obs_inv (sy_ob s)" by (rule sys_inv_open [OF assms(1,2)])
  with assms(3) have i: "obs_body ob'" "\<not> ch_closed (o_hints ob')" "\<not> ch_closed (o_errors ob')"
    by (auto simp: handled_def obs_inv_body)
  have k: "o_root ob' = o_root (sy_ob s)" "o_config ob' = o_config (sy_ob s)" "o_hints ob' = o_hints (sy_ob s)"
    "o_cancelled ob' = o_cancelled (sy_ob s)" "o_closeOnce ob' = o_closeOnce (sy_ob s)"
    "(o_state ob' = ObserverStopped) = (o_state (sy_ob s) = ObserverStopped)" "o_state ob' \<noteq> ObserverCreated"
    using assms(3,4) by (auto simp: handled_def)
  have "sys_inv ob0 (s\<lparr>sy_ob := ob', sy_events := e1, sy_errs := e2\<rparr>)" for e1 e2
    using assms(1,2) i k by (simp add: sys_inv_def Let_def)
  from this [of "sy_events s" "sy_errs s"] this [of e "sy_errs s"] this [of "sy_events s" e]
  show "sys_inv ob0 (s\<lparr>sy_ob := ob'\<rparr>)" "sys_inv ob0 (s\<lparr>sy_ob := ob', sy_events := e\<rparr>)" "sys_inv ob0 (s\<lparr>sy_ob := ob', sy_errs := e\<rparr>)"
    by (simp_all add: sys_inv_def Let_def)
qed

lemma obs_inv_start:
  assumes "sys_inv ob0 s" and "Start_observer env started bclose (sy_ob s) = Some (err, ob')" and "o_state (sy_ob s) = ObserverCreated"
  shows "\<not> sy_closed s \<and> obs_inv ob' \<and> \<not> ch_closed (o_hints ob') \<and> \<not> ch_closed (o_errors ob') \<and> o_root ob' = o_root ob0 \<and>
    o_config ob' = o_config ob0 \<and> ch_cap (o_hints ob') = ch_cap (o_hints ob0) \<and> \<not> o_closeOnce ob' \<and>
    o_state ob' \<noteq> ObserverStopped \<and> o_state ob' \<noteq> ObserverCreated"
proof -
  have nc: "\<not> sy_closed s" "\<not> o_closeOnce (sy_ob s)" using assms(1,3) by (auto simp: sys_inv_def Let_def)
  note st = start_inv [OF sys_inv_open [OF assms(1) nc(1)] assms(3,2)]
  then have "\<not> ch_closed (o_hints ob') \<and> \<not> ch_closed (o_errors ob')" by (auto simp: obs_inv_body)
  with st nc assms(1) show ?thesis by (auto simp: sys_inv_def Let_def split: if_splits)
qed

lemma start_again: "o_state ob \<noteq> ObserverCreated \<Longrightarrow> Start_observer env started bclose ob = Some (err, ob') \<Longrightarrow> ob' = ob \<and> err \<noteq> None"
  by (auto simp: Start_observer_def)

lemma sys_inv_step:
  assumes "obs_step s s'" and "sys_inv ob0 s"
  shows "sys_inv ob0 s'"
  using assms
proof cases
  case (start_ok env started bclose ob')
  then have "o_state (sy_ob s) = ObserverCreated" using start_again by blast
  from obs_inv_start [OF assms(2) start_ok(2) this] start_ok(1) show ?thesis by (auto simp: sys_inv_def Let_def obs_inv_body)
next
  case (start_failed env started bclose err ob')
  show ?thesis
  proof (cases "o_state (sy_ob s) = ObserverCreated")
    case True
    from obs_inv_start [OF assms(2) start_failed(2) this] start_failed(1) show ?thesis by (auto simp: sys_inv_def Let_def obs_inv_body)
  next
    case False
    with start_again [OF _ start_failed(2)] start_failed(1) assms(2) show ?thesis by simp
  qed
next
  case cancelled
  with assms(2) show ?thesis by (auto simp: sys_inv_def Let_def)
next
  case (collect_event env raw ob')
  then have nc: "\<not> sy_closed s" "o_state (sy_ob s) \<noteq> ObserverCreated" using assms(2) by (auto simp: sys_inv_def Let_def)
  from sys_inv_handled(1) [OF assms(2) nc(1) handled_collect [OF sys_inv_open [OF assms(2) nc(1)] collect_event(4)] nc(2)] collect_event(1)
  show ?thesis by simp
next
  case (collect_events_end env ob')
  then have nc: "\<not> sy_closed s" "o_state (sy_ob s) \<noteq> ObserverCreated" using assms(2) by (auto simp: sys_inv_def Let_def)
  from sys_inv_handled(2) [OF assms(2) nc(1) handled_collect [OF sys_inv_open [OF assms(2) nc(1)] collect_events_end(4)] nc(2)] collect_events_end(1)
  show ?thesis by simp
next
  case (collect_error env err ob')
  then have nc: "\<not> sy_closed s" "o_state (sy_ob s) \<noteq> ObserverCreated" using assms(2) by (auto simp: sys_inv_def Let_def)
  from sys_inv_handled(1) [OF assms(2) nc(1) handled_collect [OF sys_inv_open [OF assms(2) nc(1)] collect_error(4)] nc(2)] collect_error(1)
  show ?thesis by simp
next
  case (collect_errs_end env ob')
  then have nc: "\<not> sy_closed s" "o_state (sy_ob s) \<noteq> ObserverCreated" using assms(2) by (auto simp: sys_inv_def Let_def)
  from sys_inv_handled(3) [OF assms(2) nc(1) handled_collect [OF sys_inv_open [OF assms(2) nc(1)] collect_errs_end(4)] nc(2)] collect_errs_end(1)
  show ?thesis by simp
next
  case (emit_tick order)
  then have nc: "\<not> sy_closed s" using assms(2) by (auto simp: sys_inv_def Let_def)
  have i: "obs_inv (sy_ob s)" by (rule sys_inv_open [OF assms(2) nc])
  from flush_moves [OF _ emit_tick(3), of "sy_ob s"] i
  have q: "queue_ok (obs_flush order (sy_ob s))" "ch_cap (o_hints (obs_flush order (sy_ob s))) = ch_cap (o_hints (sy_ob s))"
    by (auto simp: obs_inv_def)
  moreover have "obs_inv (obs_flush order (sy_ob s))" using i q by (simp add: obs_inv_def obs_tree_ok_def)
  ultimately show ?thesis using assms(2) nc emit_tick(1) by (auto simp: sys_inv_def Let_def obs_inv_body)
next
  case (receive h ob')
  then obtain hs where "ch_queue (o_hints (sy_ob s)) = h # hs" "ob' = (sy_ob s)\<lparr>o_hints := (o_hints (sy_ob s))\<lparr>ch_queue := hs\<rparr>\<rparr>"
    by (auto simp: receive_hint_def split: list.splits)
  moreover from this have "obs_body (sy_ob s) \<Longrightarrow> obs_body ob'"
    by (simp add: obs_body_def chan_bounded_def obs_tree_ok_def)
  ultimately show ?thesis using assms(2) receive(1) by (auto simp: sys_inv_def Let_def)
next
  case (close_call bclose)
  with assms(2) show ?thesis by (auto simp: sys_inv_def Let_def) (auto simp: close_begin_def)
next
  case close_return
  with assms(2) show ?thesis by (auto simp: sys_inv_def Let_def) (auto simp: close_end_def close_chan_def)
qed (auto simp: sys_inv_def Let_def)

lemma sys_inv_reach:
  assumes "obs_reach ob s" and "obs_inv ob" and "o_state ob = ObserverCreated" and "\<not> o_closeOnce ob"
  shows "sys_inv ob s"
  using assms
proof (induction rule: obs_reach.induct)
  case init
  then show ?case by (auto simp: sys_inv_def init_sys_def Let_def obs_inv_body)
next
  case (step s s')
  then show ?case by (blast intro: sys_inv_step)
qed


lemma step_state:
  assumes "obs_step s s'" and "sys_inv ob0 s"
  shows "o_state (sy_ob s') = o_state (sy_ob s) \<or> o_state (sy_ob s) = ObserverCreated \<or>
    o_state (sy_ob s) \<noteq> ObserverStopped \<and> o_state (sy_ob s') = ObserverDegraded \<or> o_state (sy_ob s') = ObserverStopped"
proof -
  have col: "o_state ob' = o_state (sy_ob s) \<or> o_state (sy_ob s) \<noteq> ObserverStopped \<and> o_state ob' = ObserverDegraded"
    if "sy_collect s" "collect_step env inp (sy_ob s) = Some ob'" for env inp ob'
  proof -
    have "\<not> sy_closed s" using assms(2) that(1) by (auto simp: sys_inv_def Let_def)
    from handled_collect [OF sys_inv_open [OF assms(2) this] that(2)] show ?thesis by (simp add: handled_def)
  qed
  from assms(1) show ?thesis
    by cases (auto dest: col start_again simp: receive_hint_def close_begin_def close_end_def split: list.splits)
qed

lemma close_reaches_end:
  assumes "sys_inv ob0 s" and "o_closeOnce (sy_ob s)"
  shows "\<exists>s'. obs_step\<^sup>*\<^sup>* s s' \<and> sy_closed s' \<and> ch_closed (o_hints (sy_ob s')) \<and> ch_closed (o_errors (sy_ob s'))"
proof (cases "sy_closed s")
  case True
  with assms(1) show ?thesis by (intro exI [of _ s]) (auto simp: sys_inv_def Let_def)
next
  case False
  have can: "o_cancelled (sy_ob s)" using assms by (auto simp: sys_inv_def Let_def)
  let ?s1 = "s\<lparr>sy_collect := False\<rparr>" and ?s2 = "s\<lparr>sy_collect := False, sy_emit := False\<rparr>"
  have "obs_step\<^sup>*\<^sup>* s ?s1"
  proof (cases "sy_collect s")
    case True
    then show ?thesis using can by (intro r_into_rtranclp obs_step.collect_return) simp_all
  next
    case f: False
    then have "?s1 = s" by simp
    then show ?thesis by (simp only: rtranclp.rtrancl_refl)
  qed
  also have "obs_step\<^sup>*\<^sup>* ?s1 ?s2"
  proof (cases "sy_emit s")
    case True
    then have "obs_step ?s1 (?s1\<lparr>sy_emit := False\<rparr>)" using can by (intro obs_step.emit_return) simp_all
    then show ?thesis by (simp add: r_into_rtranclp)
  next
    case f: False
    then have "?s2 = ?s1" by simp
    then show ?thesis by (simp only: rtranclp.rtrancl_refl)
  qed
  also have "obs_step ?s2 (?s2\<lparr>sy_ob := close_end (sy_ob ?s2), sy_closed := True\<rparr>)"
    using assms(2) False by (intro obs_step.close_return) simp_all
  finally show ?thesis by (intro exI conjI, assumption) (simp_all add: close_end_def close_chan_def)
qed

text \<open>C37: the reported state is honest. In every reachable state, a step takes a degraded observer
  only to degraded or stopped, never back to running, and leaves a stopped one stopped; and \<open>Close\<close>
  never hangs: once it was called, the two goroutines can return and it can finish, in at most three
  steps, after which both channels are closed.\<close>

theorem observer_close_finishes:
  assumes "NewObserver getwd ops config = Inr ob" and "\<forall>wd. getwd = Inr wd \<longrightarrow> IsAbs wd" and "obs_reach ob s"
  shows "(\<forall>s'. obs_step s s' \<longrightarrow>
      (o_state (sy_ob s) = ObserverDegraded \<longrightarrow> o_state (sy_ob s') = ObserverDegraded \<or> o_state (sy_ob s') = ObserverStopped) \<and>
      (o_state (sy_ob s) = ObserverStopped \<longrightarrow> o_state (sy_ob s') = ObserverStopped)) \<and>
    (o_closeOnce (sy_ob s) \<longrightarrow>
      (\<exists>s'. obs_step\<^sup>*\<^sup>* s s' \<and> sy_closed s' \<and> ch_closed (o_hints (sy_ob s')) \<and> ch_closed (o_errors (sy_ob s'))))"
proof -
  have inv: "sys_inv ob s" using sys_inv_reach [OF assms(3)] NewObserver_inv [OF assms(1,2)] by blast
  have "(o_state (sy_ob s) = ObserverDegraded \<longrightarrow> o_state (sy_ob s') = ObserverDegraded \<or> o_state (sy_ob s') = ObserverStopped) \<and>
      (o_state (sy_ob s) = ObserverStopped \<longrightarrow> o_state (sy_ob s') = ObserverStopped)" if "obs_step s s'" for s'
    using step_state [OF that inv] by auto
  with close_reaches_end [OF inv] show ?thesis by blast
qed

section \<open>Concrete runs\<close>

definition ex_walk_fs :: WalkFS where
  "ex_walk_fs = \<lparr>wf_Stat = (\<lambda>p. Inr (ex_info 0x80000000 1)), wf_Lstat = (\<lambda>p. Inr (ex_info 0x80000000 1)),
     wf_ReadDir = (\<lambda>p. (if p = ''/r'' then [''f'', ''d''] else [], None)),
     wf_Type = (\<lambda>p. if p = ''/r/d'' then 0x80000000 else 0)\<rparr>"

definition ex_obs_env :: ObsEnv where
  "ex_obs_env = \<lparr>oe_ctx = background, oe_fs = ex_walk_fs, oe_now = 9, oe_fuel = 4\<rparr>"

definition ex_started :: "unit Observer" where
  "ex_started = (case Start_observer ex_obs_env (Inr ()) id ex_observer of Some (_, ob) \<Rightarrow> ob)"

lemma ex_walk_fs_ok: "walk_fs_ok ex_walk_fs"
proof -
  have "good_part ''f''" "good_part ''d''" "\<not> IsSymlink 0x80000000" "\<not> IsDir 0" by code_simp+
  then show ?thesis by (simp add: walk_fs_ok_def ex_walk_fs_def)
qed

lemma ex_root_info:
  "wf_Lstat (oe_fs ex_obs_env) p = Inr (ex_info 0x80000000 1)" "wf_Stat (oe_fs ex_obs_env) p = Inr (ex_info 0x80000000 1)"
  "IsDir (fi_Mode (ex_info 0x80000000 1))" "\<not> IsSymlink (fi_Mode (ex_info 0x80000000 1))"
proof -
  show "IsDir (fi_Mode (ex_info 0x80000000 1))" "\<not> IsSymlink (fi_Mode (ex_info 0x80000000 1))" by code_simp+
qed (simp_all add: ex_obs_env_def ex_walk_fs_def)

lemma ex_obs_env_fs: "walk_fs_ok (oe_fs ex_obs_env)"
  using ex_walk_fs_ok by (simp add: ex_obs_env_def)

lemma ex_wd: "\<forall>wd. (Inr ''/'' :: GoError + string) = Inr wd \<longrightarrow> IsAbs wd"
  by (simp add: IsAbs_def)

lemma ex_start: "Start_observer ex_obs_env (Inr ()) id ex_observer = Some (None, ex_started)"
proof -
  have "map_option fst (Start_observer ex_obs_env (Inr ()) id ex_observer) = Some None" by code_simp
  then show ?thesis by (auto simp: ex_started_def)
qed

lemma ex_observer_facts: "obs_inv ex_observer" "o_state ex_observer = ObserverCreated" "oc_Recursive (o_config ex_observer)"
  "oc_SymlinkPolicy (o_config ex_observer) \<noteq> FollowSymlinks" "o_root ex_observer = ''/r''"
proof -
  show "obs_inv ex_observer" "o_state ex_observer = ObserverCreated" "oc_SymlinkPolicy (o_config ex_observer) \<noteq> FollowSymlinks"
    using NewObserver_inv [OF ex_observer_New ex_wd] by simp_all
  show "oc_Recursive (o_config ex_observer)" "o_root ex_observer = ''/r''" by code_simp+
qed

lemma ex_started_facts: "obs_inv ex_started" "o_config ex_started = o_config ex_observer" "o_root ex_started = ''/r''"
  using start_inv [OF ex_observer_facts(1,2) ex_start] ex_observer_facts(5) by simp_all

theorem start_watches_tree_witness:
  "o_state ex_started = ObserverRunning \<and>
   (\<exists>t. o_tree ex_started = Some t \<and> watched_paths t = {p. tree_dir ex_walk_fs ''/r'' p}) \<and> length (waiting ex_started) = 1"
proof -
  have fs: "oe_fs ex_obs_env = ex_walk_fs" by (simp add: ex_obs_env_def)
  show ?thesis
    using start_watches_tree [OF ex_observer_New ex_wd _ ex_obs_env_fs ex_root_info(1,3,4,2) ex_start] ex_observer_facts(5)
    unfolding fs by simp
qed

theorem resync_exact_witness:
  "\<exists>ob' t'. resyncWatchTree ex_obs_env ex_started = Some (None, ob') \<and> o_tree ob' = Some t' \<and>
     watched_paths t' = {p. tree_dir ex_walk_fs ''/r'' p}"
proof -
  have "map_option fst (resyncWatchTree ex_obs_env ex_started) = Some None" by code_simp
  then obtain ob' where r: "resyncWatchTree ex_obs_env ex_started = Some (None, ob')" by auto
  have pre: "obs_tree_ok ex_started" "oc_Recursive (o_config ex_started)" "oc_SymlinkPolicy (o_config ex_started) \<noteq> FollowSymlinks"
    using ex_started_facts ex_observer_facts by (simp_all add: obs_inv_def)
  have fs: "oe_fs ex_obs_env = ex_walk_fs" by (simp add: ex_obs_env_def)
  from resync_exact [OF pre(1,2) ex_obs_env_fs pre(3) ex_root_info(1,3,4,2) r] r show ?thesis
    unfolding fs ex_started_facts(3) by blast
qed

theorem raw_event_answered_witness:
  "\<exists>ob'. handleRaw ex_obs_env \<lparr>raw_Path = ''/r/d/x'', raw_Op = OpWrite, raw_Time = 0\<rparr> ex_observer = Some ob' \<and>
     (\<exists>g \<in> set (waiting ob'). answers ''/r'' g (native_change 0 ''/r/d/x'' HintPath))"
proof -
  let ?raw = "\<lparr>raw_Path = ''/r/d/x'', raw_Op = OpWrite, raw_Time = 0\<rparr>"
  have "map_option (\<lambda>_. ()) (handleRaw ex_obs_env ?raw ex_observer) = Some ()" by code_simp
  then obtain ob' where r: "handleRaw ex_obs_env ?raw ex_observer = Some ob'" by auto
  have w: "withinObserver (o_root ex_observer) (Clean (raw_Path ?raw))" "Clean (raw_Path ?raw) = ''/r/d/x''"
    "filter_accepts ex_observer (Clean (raw_Path ?raw))" by code_simp+
  from raw_event_answered [OF ex_observer_facts(1) r w(1) disjI1 [OF w(3)], of 0] r show ?thesis
    unfolding w(2) ex_observer_facts(5) by blast
qed

definition ex_running :: "unit ObserverSys" where
  "ex_running = (init_sys ex_observer)\<lparr>sy_ob := ex_started, sy_collect := True, sy_emit := True, sy_events := True, sy_errs := True\<rparr>"

lemma ex_reach: "obs_reach ex_observer ex_running"
proof (rule obs_reach.step [OF obs_reach.init])
  show "obs_step (init_sys ex_observer) ex_running"
    unfolding ex_running_def by (rule obs_step.start_ok [of ex_obs_env "Inr ()" id]) (simp add: init_sys_def ex_start)
qed


theorem observer_close_finishes_witness:
  "\<exists>s s'. obs_reach ex_observer s \<and> sy_collect s \<and> sy_emit s \<and> obs_step\<^sup>*\<^sup>* s s' \<and> sy_closed s'"
proof -
  let ?s = ex_running
  let ?c = "?s\<lparr>sy_ob := close_begin id (sy_ob ?s)\<rparr>"
  have "\<not> o_closeOnce (sy_ob ?s)" by code_simp
  then have "obs_step ?s ?c" by (rule obs_step.close_call)
  then have r: "obs_reach ex_observer ?c" by (rule obs_reach.step [OF ex_reach])
  have "o_closeOnce (sy_ob ?c)" by (simp add: close_begin_def)
  with observer_close_finishes [OF ex_observer_New ex_wd r] obtain s' where "obs_step\<^sup>*\<^sup>* ?c s'" "sy_closed s'" by blast
  moreover have "sy_collect ?c" "sy_emit ?c" by (simp_all add: ex_running_def)
  ultimately show ?thesis using r by blast
qed

theorem collect_returns_witness:
  "\<exists>ob'. collect_step ex_obs_env (ErrIn ErrOverflow) ex_started = Some ob'"
proof -
  have "o_tree ex_started \<noteq> None" using start_inv [OF ex_observer_facts(1,2) ex_start] by simp
  moreover have "o_backend ex_started \<noteq> None"
    using calculation ex_started_facts(1) unfolding obs_inv_def obs_tree_ok_def by metis
  moreover have "shallow (oe_fs ex_obs_env) (oe_fuel ex_obs_env) (o_root ex_started)" by code_simp
  ultimately show ?thesis by (rule collect_returns) simp
qed

end
