(* ===== verification/Semantic_Diff.thy ===== *)
theory Semantic_Diff
  imports Fsr_Prelude
begin

text \<open>
  \<open>internal/reconcile\<close>: the semantic difference between the previous snapshot, the actual
  filesystem state and the optional expected state. The three inputs are Go maps, so the
  iteration order is the order of the association lists; the specification \<open>snapshot_change\<close>
  below speaks of the maps as functions only.
\<close>

section \<open>Data\<close>

datatype IFileType =
    TypeUnknown | TypeRegular | TypeDirectory | TypeSymlink | TypeOther
  | TypeUndeclared "8 word"

record State =
  i_Path :: string
  i_ID :: string
  i_Type :: IFileType
  i_Size :: "64 word"
  i_ModUnix :: "64 word"
  i_Mode :: "32 word"

record Expected =
  x_Path :: string
  x_Type :: "IFileType option"
  x_Size :: "64 word option"
  x_Fingerprint :: "8 word list"

datatype Kind =
    Created | Modified | Deleted | Moved | AttributeChanged | Missing | Orphan | Replaced | Invalid
  | KindUndeclared "8 word"

record Change =
  c_Kind :: Kind
  c_Path :: string
  c_OldPath :: string
  c_Before :: "State option"
  c_After :: "State option"

definition zero_State :: State where
  "zero_State = \<lparr>i_Path = [], i_ID = [], i_Type = TypeUnknown, i_Size = 0, i_ModUnix = 0, i_Mode = 0\<rparr>"

section \<open>Operations\<close>

definition change :: "Kind \<Rightarrow> string \<Rightarrow> string \<Rightarrow> State option \<Rightarrow> State option \<Rightarrow> Change" where
  "change kind path oldPath before after =
     \<lparr>c_Kind = kind, c_Path = path, c_OldPath = oldPath, c_Before = before, c_After = after\<rparr>"

definition sameIdentity :: "State \<Rightarrow> State \<Rightarrow> bool" where
  "sameIdentity a b = (if i_ID a = [] \<or> i_ID b = [] then True else i_ID a = i_ID b)"

definition contentChanged :: "State \<Rightarrow> State \<Rightarrow> bool" where
  "contentChanged a b =
     (i_Type a \<noteq> i_Type b \<or> i_Size a \<noteq> i_Size b \<or> i_ModUnix a \<noteq> i_ModUnix b)"

definition clone :: "State gomap \<Rightarrow> State gomap" where
  "clone input = fold (\<lambda>(key, value) out. AList.update key value out) input []"

definition sortedKeys :: "'v gomap \<Rightarrow> string list" where
  "sortedKeys values = sort (map fst values)"

fun index_step ::
  "string \<times> State \<Rightarrow> string gomap \<times> unit gomap \<Rightarrow> string gomap \<times> unit gomap" where
  "index_step (path, state) (result, duplicates) =
     (if i_ID state = [] then (result, duplicates)
      else if map_of result (i_ID state) \<noteq> None
      then (result, AList.update (i_ID state) () duplicates)
      else (AList.update (i_ID state) path result, duplicates))"

definition indexUniqueIDs :: "State gomap \<Rightarrow> string gomap" where
  "indexUniqueIDs states =
     (case fold index_step states ([], []) of (result, duplicates) \<Rightarrow>
        fold (\<lambda>(ident, _) result. AList.delete ident result) duplicates result)"

definition lookup_state :: "State gomap \<Rightarrow> string \<Rightarrow> State" where
  "lookup_state m path = (case map_of m path of None \<Rightarrow> zero_State | Some s \<Rightarrow> s)"

text \<open>The switch over a path that exists on both sides.\<close>

definition classify :: "string \<Rightarrow> State \<Rightarrow> State \<Rightarrow> Change list" where
  "classify path before after =
     (if \<not> sameIdentity before after then [change Replaced path [] (Some before) (Some after)]
      else if contentChanged before after then [change Modified path [] (Some before) (Some after)]
      else if i_Mode before \<noteq> i_Mode after
      then [change AttributeChanged path [] (Some before) (Some after)]
      else [])"

text \<open>
  The first loop: paths present on both sides are compared and leave the remaining maps.
\<close>

fun diff_common ::
  "State gomap \<Rightarrow> State gomap \<Rightarrow> string list \<Rightarrow> State gomap \<Rightarrow> State gomap \<Rightarrow>
   Change list \<times> State gomap \<times> State gomap" where
  "diff_common previous actual [] remPrev remAct = ([], remPrev, remAct)"
| "diff_common previous actual (path # paths) remPrev remAct =
     (case map_of previous path of
        None \<Rightarrow> diff_common previous actual paths remPrev remAct
      | Some before \<Rightarrow>
          (let after = lookup_state actual path in
           case diff_common previous actual paths
                  (AList.delete path remPrev) (AList.delete path remAct) of
             (cs, rp, ra) \<Rightarrow> (classify path before after @ cs, rp, ra)))"

text \<open>The second loop: unique identities that left one path and appeared at another.\<close>

fun diff_moves ::
  "string gomap \<Rightarrow> string gomap \<Rightarrow> string list \<Rightarrow> State gomap \<Rightarrow> State gomap \<Rightarrow>
   Change list \<times> State gomap \<times> State gomap" where
  "diff_moves prevIDs actualIDs [] remPrev remAct = ([], remPrev, remAct)"
| "diff_moves prevIDs actualIDs (ident # ids) remPrev remAct =
     (let newPath = (case map_of actualIDs ident of None \<Rightarrow> [] | Some p \<Rightarrow> p) in
      case map_of prevIDs ident of
        None \<Rightarrow> diff_moves prevIDs actualIDs ids remPrev remAct
      | Some oldPath \<Rightarrow>
          if ident = [] then diff_moves prevIDs actualIDs ids remPrev remAct
          else
            (let before = lookup_state remPrev oldPath; after = lookup_state remAct newPath in
             case diff_moves prevIDs actualIDs ids
                    (AList.delete oldPath remPrev) (AList.delete newPath remAct) of
               (cs, rp, ra) \<Rightarrow>
                 (change Moved newPath oldPath (Some before) (Some after) # cs, rp, ra)))"

text \<open>The two loops over the expected state.\<close>

definition expected_violated :: "Expected \<Rightarrow> State \<Rightarrow> bool" where
  "expected_violated exp state =
     ((case x_Type exp of None \<Rightarrow> False | Some ty \<Rightarrow> i_Type state \<noteq> ty) \<or>
      (case x_Size exp of None \<Rightarrow> False | Some sz \<Rightarrow> i_Size state \<noteq> sz))"

definition diff_expected :: "State gomap \<Rightarrow> Expected gomap \<Rightarrow> Change list" where
  "diff_expected actual expected =
     concat (map (\<lambda>path.
       case map_of expected path of
         None \<Rightarrow> []
       | Some exp \<Rightarrow>
           (case map_of actual path of
              None \<Rightarrow> [change Missing path [] None None]
            | Some state \<Rightarrow>
                if expected_violated exp state then [change Invalid path [] None (Some state)]
                else []))
       (sortedKeys expected))"

definition diff_orphans ::
  "State gomap \<Rightarrow> Expected gomap \<Rightarrow> (State \<Rightarrow> bool) option \<Rightarrow> Change list" where
  "diff_orphans actual expected orphanEligible =
     concat (map (\<lambda>path.
       let state = lookup_state actual path in
       if (case orphanEligible of None \<Rightarrow> False | Some eligible \<Rightarrow> \<not> eligible state) then []
       else if map_of expected path = None then [change Orphan path [] None (Some state)]
       else [])
       (sortedKeys actual))"

text \<open>
  The changes that \<open>WalkDiffScoped\<close> hands to its callback, in order, and the walk itself,
  which stops at the first error of the callback.
\<close>

definition diff_changes ::
  "State gomap \<Rightarrow> State gomap \<Rightarrow> Expected gomap option \<Rightarrow> (State \<Rightarrow> bool) option \<Rightarrow> Change list" where
  "diff_changes previous actual expected orphanEligible =
     (case diff_common previous actual (sortedKeys actual) (clone previous) (clone actual) of
        (common, remPrev, remAct) \<Rightarrow>
          let prevIDs = indexUniqueIDs remPrev; actualIDs = indexUniqueIDs remAct in
          (case diff_moves prevIDs actualIDs (sortedKeys actualIDs) remPrev remAct of
             (moves, remPrev', remAct') \<Rightarrow>
               common @ moves @
               map (\<lambda>path. change Created path [] None (Some (lookup_state remAct' path)))
                 (sortedKeys remAct') @
               map (\<lambda>path. change Deleted path [] (Some (lookup_state remPrev' path)) None)
                 (sortedKeys remPrev') @
               (case expected of
                  None \<Rightarrow> []
                | Some ex \<Rightarrow> diff_expected actual ex @ diff_orphans actual ex orphanEligible)))"

definition WalkDiffScoped ::
  "State gomap \<Rightarrow> State gomap \<Rightarrow> Expected gomap option \<Rightarrow> (State \<Rightarrow> bool) option \<Rightarrow>
   (Change \<Rightarrow> 's \<Rightarrow> GoError option \<times> 's) \<Rightarrow> 's \<Rightarrow> GoError option \<times> 's" where
  "WalkDiffScoped previous actual expected orphanEligible emit s =
     for_each emit (diff_changes previous actual expected orphanEligible) s"

definition WalkDiff ::
  "State gomap \<Rightarrow> State gomap \<Rightarrow> Expected gomap option \<Rightarrow>
   (Change \<Rightarrow> 's \<Rightarrow> GoError option \<times> 's) \<Rightarrow> 's \<Rightarrow> GoError option \<times> 's" where
  "WalkDiff previous actual expected emit s = WalkDiffScoped previous actual expected None emit s"

definition Diff :: "State gomap \<Rightarrow> State gomap \<Rightarrow> Expected gomap option \<Rightarrow> Change list" where
  "Diff previous actual expected =
     snd (WalkDiff previous actual expected (\<lambda>ch changes. (None, changes @ [ch])) [])"

section \<open>Specification over maps\<close>

text \<open>
  The identity of an entry that only one side has is a move when both sides have it exactly
  once among such entries.
\<close>

definition sole_owner :: "(string \<rightharpoonup> State) \<Rightarrow> string \<Rightarrow> string \<Rightarrow> bool" where
  "sole_owner m ident p =
     (ident \<noteq> [] \<and> (\<exists>s. m p = Some s \<and> i_ID s = ident) \<and>
      (\<forall>q s. m q = Some s \<and> i_ID s = ident \<longrightarrow> q = p))"

definition moved :: "(string \<rightharpoonup> State) \<Rightarrow> (string \<rightharpoonup> State) \<Rightarrow> string \<Rightarrow> string \<Rightarrow> bool" where
  "moved P A old new =
     (\<exists>ident. sole_owner (P |` (- dom A)) ident old \<and> sole_owner (A |` (- dom P)) ident new)"

inductive snapshot_change :: "(string \<rightharpoonup> State) \<Rightarrow> (string \<rightharpoonup> State) \<Rightarrow> Change \<Rightarrow> bool"
  for P A where
  replaced: "P p = Some b \<Longrightarrow> A p = Some a \<Longrightarrow> \<not> sameIdentity b a \<Longrightarrow>
     snapshot_change P A (change Replaced p [] (Some b) (Some a))"
| modified: "P p = Some b \<Longrightarrow> A p = Some a \<Longrightarrow> sameIdentity b a \<Longrightarrow> contentChanged b a \<Longrightarrow>
     snapshot_change P A (change Modified p [] (Some b) (Some a))"
| attributes: "P p = Some b \<Longrightarrow> A p = Some a \<Longrightarrow> sameIdentity b a \<Longrightarrow> \<not> contentChanged b a \<Longrightarrow>
     i_Mode b \<noteq> i_Mode a \<Longrightarrow> snapshot_change P A (change AttributeChanged p [] (Some b) (Some a))"
| move: "moved P A old new \<Longrightarrow> P old = Some b \<Longrightarrow> A new = Some a \<Longrightarrow>
     snapshot_change P A (change Moved new old (Some b) (Some a))"
| created: "A p = Some a \<Longrightarrow> P p = None \<Longrightarrow> \<not> (\<exists>old. moved P A old p) \<Longrightarrow>
     snapshot_change P A (change Created p [] None (Some a))"
| deleted: "P p = Some b \<Longrightarrow> A p = None \<Longrightarrow> \<not> (\<exists>new. moved P A p new) \<Longrightarrow>
     snapshot_change P A (change Deleted p [] (Some b) None)"

inductive expected_change ::
  "(string \<rightharpoonup> State) \<Rightarrow> (string \<rightharpoonup> Expected) \<Rightarrow> (State \<Rightarrow> bool) \<Rightarrow> Change \<Rightarrow> bool"
  for A E eligible where
  missing: "E p = Some x \<Longrightarrow> A p = None \<Longrightarrow> expected_change A E eligible (change Missing p [] None None)"
| invalid: "E p = Some x \<Longrightarrow> A p = Some a \<Longrightarrow> expected_violated x a \<Longrightarrow>
     expected_change A E eligible (change Invalid p [] None (Some a))"
| orphan: "E p = None \<Longrightarrow> A p = Some a \<Longrightarrow> eligible a \<Longrightarrow>
     expected_change A E eligible (change Orphan p [] None (Some a))"


section \<open>Each loop against the specification\<close>

lemma update_fresh: "k \<notin> fst ` set m \<Longrightarrow> AList.update k v m = m @ [(k, v)]"
  by (induction m) auto

lemma clone_eq: "gomap_ok m \<Longrightarrow> clone m = m"
proof -
  have "gomap_ok (out @ m) \<Longrightarrow> fold (\<lambda>(key, value) out. AList.update key value out) m out = out @ m" for out
    by (induction m arbitrary: out) (auto simp: update_fresh)
  then show "gomap_ok m \<Longrightarrow> clone m = m" by (simp add: clone_def)
qed

lemma sortedKeys_simps [simp]:
  "set (sortedKeys m) = dom (map_of m)" "sorted (sortedKeys m)"
  "distinct (sortedKeys m) \<longleftrightarrow> gomap_ok m"
  by (auto simp: sortedKeys_def dom_map_of_conv_image_fst)

lemma lookup_state_Some [simp]: "map_of m p = Some s \<Longrightarrow> lookup_state m p = s"
  by (simp add: lookup_state_def)

lemma lookup_state_delete [simp]: "p \<noteq> q \<Longrightarrow> lookup_state (AList.delete q m) p = lookup_state m p"
  by (simp add: lookup_state_def gomap_simps)

lemma diff_common_spec:
  "gomap_ok rp \<Longrightarrow> gomap_ok ra \<Longrightarrow>
   (case diff_common previous actual paths rp ra of (cs, rp', ra') \<Rightarrow>
      cs = concat (map (\<lambda>p. case map_of previous p of None \<Rightarrow> []
                           | Some b \<Rightarrow> classify p b (lookup_state actual p)) paths) \<and>
      gomap_ok rp' \<and> gomap_ok ra' \<and>
      (\<forall>p. map_of rp' p = (if p \<in> set paths \<and> map_of previous p \<noteq> None then None else map_of rp p)) \<and>
      (\<forall>p. map_of ra' p = (if p \<in> set paths \<and> map_of previous p \<noteq> None then None else map_of ra p)))"
proof (induction previous actual paths rp ra rule: diff_common.induct)
  case (1 previous actual remPrev remAct)
  then show ?case by simp
next
  case (2 previous actual path paths remPrev remAct)
  then show ?case
    by (cases "map_of previous path") (auto simp: gomap_simps split: prod.splits)
qed

definition owners :: "State gomap \<Rightarrow> string \<Rightarrow> string list" where
  "owners m ident = map fst (filter (\<lambda>(p, s). i_ID s = ident) m)"

lemma owners_snoc: "owners (m @ [(p, s)]) ident = owners m ident @ (if i_ID s = ident then [p] else [])"
  by (simp add: owners_def)

lemma set_owners: "gomap_ok m \<Longrightarrow> p \<in> set (owners m ident) \<longleftrightarrow> (\<exists>s. map_of m p = Some s \<and> i_ID s = ident)"
  by (force simp: owners_def)

lemma distinct_owners: "gomap_ok m \<Longrightarrow> distinct (owners m ident)"
  by (simp add: owners_def distinct_map_filter)

lemma fold_index_step:
  "(case fold index_step m ([], []) of (result, dups) \<Rightarrow>
      gomap_ok result \<and>
      (\<forall>ident. map_of result ident =
         (if ident = [] \<or> owners m ident = [] then None else Some (hd (owners m ident)))) \<and>
      (\<forall>ident. ident \<in> fst ` set dups \<longleftrightarrow> ident \<noteq> [] \<and> 2 \<le> length (owners m ident)))"
proof (induction m rule: rev_induct)
  case Nil
  then show ?case by (simp add: owners_def)
next
  case (snoc ps m)
  obtain p s where ps: "ps = (p, s)" by fastforce
  obtain result dups where r: "fold index_step m ([], []) = (result, dups)" by fastforce
  have IH: "gomap_ok result"
    "\<And>ident. map_of result ident =
       (if ident = [] \<or> owners m ident = [] then None else Some (hd (owners m ident)))"
    "\<And>ident. ident \<in> fst ` set dups \<longleftrightarrow> ident \<noteq> [] \<and> 2 \<le> length (owners m ident)"
    using snoc r by auto
  have two: "2 \<le> Suc (length xs) \<longleftrightarrow> xs \<noteq> []" for xs :: "string list"
    by (cases xs) auto
  consider "i_ID s = []" | "i_ID s \<noteq> []" "owners m (i_ID s) = []" | "i_ID s \<noteq> []" "owners m (i_ID s) \<noteq> []"
    by blast
  then show ?case
  proof cases
    case 1
    then show ?thesis using IH r ps by (auto simp: owners_snoc)
  next
    case 2
    then show ?thesis using IH r ps
      by (auto simp: owners_snoc gomap_simps two)
  next
    case 3
    then show ?thesis using IH r ps
      by (auto simp: owners_snoc gomap_simps two Suc_le_eq)
  qed
qed

lemma fold_delete_keys:
  "map_of (fold (\<lambda>(ident, _) r. AList.delete ident r) ds r) = map_of r |` (- (fst ` set ds)) \<and>
   (gomap_ok r \<longrightarrow> gomap_ok (fold (\<lambda>(ident, _) r. AList.delete ident r) ds r))"
proof (induction ds arbitrary: r)
  case Nil
  then show ?case by (simp add: restrict_map_def)
next
  case (Cons d ds)
  show ?case
    using Cons [of "AList.delete (fst d) r"]
    by (auto simp: gomap_simps split_beta restrict_map_def fun_eq_iff)
qed

lemma single_owner:
  assumes "gomap_ok m"
  shows "length (owners m ident) = 1 \<and> hd (owners m ident) = p \<and> ident \<noteq> [] \<longleftrightarrow> sole_owner (map_of m) ident p"
proof -
  have "length (owners m ident) = 1 \<and> hd (owners m ident) = p \<longleftrightarrow> owners m ident = [p]"
    by (cases "owners m ident") auto
  also have "\<dots> \<longleftrightarrow> set (owners m ident) = {p}"
    using distinct_set_singleton [OF _ distinct_owners [OF assms]] by auto
  finally show ?thesis
    using set_owners [OF assms] by (auto simp: sole_owner_def)
qed

lemma indexUniqueIDs_spec:
  assumes "gomap_ok m"
  shows "map_of (indexUniqueIDs m) ident = Some p \<longleftrightarrow> sole_owner (map_of m) ident p"
    and "gomap_ok (indexUniqueIDs m)"
proof -
  obtain result dups where r: "fold index_step m ([], []) = (result, dups)" by fastforce
  have I: "gomap_ok result"
    "map_of result ident =
       (if ident = [] \<or> owners m ident = [] then None else Some (hd (owners m ident)))"
    "ident \<in> fst ` set dups \<longleftrightarrow> ident \<noteq> [] \<and> 2 \<le> length (owners m ident)"
    using fold_index_step [of m] r by auto
  have "map_of (indexUniqueIDs m) ident =
      (if ident \<noteq> [] \<and> length (owners m ident) = 1 then Some (hd (owners m ident)) else None)"
    using I fold_delete_keys [of dups result] r
    by (cases "owners m ident"; cases "tl (owners m ident)")
       (auto simp: indexUniqueIDs_def restrict_map_def)
  then show "map_of (indexUniqueIDs m) ident = Some p \<longleftrightarrow> sole_owner (map_of m) ident p"
    using single_owner [OF assms, of ident p] by auto
  show "gomap_ok (indexUniqueIDs m)"
    using I(1) fold_delete_keys [of dups result] r by (simp add: indexUniqueIDs_def)
qed


definition move_change ::
  "string gomap \<Rightarrow> string gomap \<Rightarrow> State gomap \<Rightarrow> State gomap \<Rightarrow> string \<Rightarrow> Change list" where
  "move_change pIDs aIDs rp ra i =
     (case (map_of pIDs i, map_of aIDs i) of
        (Some old, Some new) \<Rightarrow>
          [change Moved new old (Some (lookup_state rp old)) (Some (lookup_state ra new))]
      | _ \<Rightarrow> [])"

lemma diff_moves_spec:
  assumes "distinct ids" and "set ids \<subseteq> dom (map_of aIDs)" and "[] \<notin> set ids"
    and "inj_on (map_of pIDs) (dom (map_of pIDs))" and "inj_on (map_of aIDs) (dom (map_of aIDs))"
    and "gomap_ok rp" and "gomap_ok ra"
  shows "case diff_moves pIDs aIDs ids rp ra of (cs, rp', ra') \<Rightarrow>
      cs = concat (map (move_change pIDs aIDs rp ra) ids) \<and>
      gomap_ok rp' \<and> gomap_ok ra' \<and>
      (\<forall>p. map_of rp' p = (if \<exists>i \<in> set ids. map_of pIDs i = Some p then None else map_of rp p)) \<and>
      (\<forall>p. map_of ra' p = (if \<exists>i \<in> set ids. map_of pIDs i \<noteq> None \<and> map_of aIDs i = Some p
                           then None else map_of ra p))"
  using assms
proof (induction ids arbitrary: rp ra)
  case Nil
  then show ?case by simp
next
  case (Cons i ids)
  then obtain new where new: "map_of aIDs i = Some new" by auto
  show ?case
  proof (cases "map_of pIDs i")
    case None
    with Cons.IH [of rp ra] Cons.prems new show ?thesis
      by (auto simp: move_change_def split: prod.splits)
  next
    case (Some old)
    have apart: "j \<in> set ids \<Longrightarrow> map_of pIDs j = Some q \<Longrightarrow> q \<noteq> old"
      "j \<in> set ids \<Longrightarrow> map_of aIDs j = Some q \<Longrightarrow> q \<noteq> new" for j q
      using Cons.prems(1,4,5) Some new by (auto simp: inj_on_def) (metis domI)+
    have same: "map (move_change pIDs aIDs (AList.delete old rp) (AList.delete new ra)) ids =
        map (move_change pIDs aIDs rp ra) ids"
      using apart by (intro map_cong refl) (auto simp: move_change_def split: option.split)
    obtain cs rp' ra' where d:
      "diff_moves pIDs aIDs ids (AList.delete old rp) (AList.delete new ra) = (cs, rp', ra')"
      by (cases "diff_moves pIDs aIDs ids (AList.delete old rp) (AList.delete new ra)") auto
    have IH: "case diff_moves pIDs aIDs ids (AList.delete old rp) (AList.delete new ra) of
        (cs, rp', ra') \<Rightarrow>
          cs = concat (map (move_change pIDs aIDs (AList.delete old rp) (AList.delete new ra)) ids) \<and>
          gomap_ok rp' \<and> gomap_ok ra' \<and>
          (\<forall>p. map_of rp' p = (if \<exists>i \<in> set ids. map_of pIDs i = Some p then None
             else map_of (AList.delete old rp) p)) \<and>
          (\<forall>p. map_of ra' p = (if \<exists>i \<in> set ids. map_of pIDs i \<noteq> None \<and> map_of aIDs i = Some p
             then None else map_of (AList.delete new ra) p))"
      by (rule Cons.IH) (use Cons.prems in auto)
    have mc: "move_change pIDs aIDs rp ra i =
        [change Moved new old (Some (lookup_state rp old)) (Some (lookup_state ra new))]"
      by (simp add: move_change_def Some new)
    from IH show ?thesis
      unfolding same using d Some new Cons.prems(3) by (auto simp: gomap_simps mc)
  qed
qed


section \<open>The whole difference\<close>

lemma sole_owner_inj:
  "sole_owner m i p \<Longrightarrow> sole_owner m j p \<Longrightarrow> i = j"
  by (auto simp: sole_owner_def)

lemma sole_owner_fun: "sole_owner m i p \<Longrightarrow> sole_owner m i q \<Longrightarrow> p = q"
  by (auto simp: sole_owner_def)

lemma indexUniqueIDs_inj:
  assumes "gomap_ok m"
  shows "inj_on (map_of (indexUniqueIDs m)) (dom (map_of (indexUniqueIDs m)))"
  using sole_owner_inj by (intro inj_onI) (auto simp: indexUniqueIDs_spec [OF assms])

lemma indexUniqueIDs_nonempty: "gomap_ok m \<Longrightarrow> [] \<notin> dom (map_of (indexUniqueIDs m))"
  by (auto simp: indexUniqueIDs_spec(1) sole_owner_def)

text \<open>
  The intermediate results of \<open>diff_changes\<close> on well-formed maps: the remaining entries of
  both sides before and after the moves.
\<close>

definition only_prev :: "(string \<rightharpoonup> State) \<Rightarrow> (string \<rightharpoonup> State) \<Rightarrow> string \<rightharpoonup> State" where
  "only_prev P A p = (if A p = None \<and> \<not> (\<exists>new. moved P A p new) then P p else None)"

definition only_act :: "(string \<rightharpoonup> State) \<Rightarrow> (string \<rightharpoonup> State) \<Rightarrow> string \<rightharpoonup> State" where
  "only_act P A p = (if P p = None \<and> \<not> (\<exists>old. moved P A old p) then A p else None)"

lemma diff_changes_decomp:
  assumes "gomap_ok previous" and "gomap_ok actual"
  obtains rp ra rp' ra' where
    "gomap_ok rp" "gomap_ok ra" "gomap_ok rp'" "gomap_ok ra'"
    "map_of rp = map_of previous |` (- dom (map_of actual))"
    "map_of ra = map_of actual |` (- dom (map_of previous))"
    "map_of rp' = only_prev (map_of previous) (map_of actual)"
    "map_of ra' = only_act (map_of previous) (map_of actual)"
    "diff_changes previous actual expected el =
       concat (map (\<lambda>p. case map_of previous p of None \<Rightarrow> []
                    | Some b \<Rightarrow> classify p b (lookup_state actual p)) (sortedKeys actual)) @
       concat (map (move_change (indexUniqueIDs rp) (indexUniqueIDs ra) rp ra)
         (sortedKeys (indexUniqueIDs ra))) @
       map (\<lambda>path. change Created path [] None (Some (lookup_state ra' path))) (sortedKeys ra') @
       map (\<lambda>path. change Deleted path [] (Some (lookup_state rp' path)) None) (sortedKeys rp') @
       (case expected of None \<Rightarrow> []
        | Some ex \<Rightarrow> diff_expected actual ex @ diff_orphans actual ex el)"
proof -
  let ?P = "map_of previous" and ?A = "map_of actual"
  obtain cs rp ra where c:
    "diff_common previous actual (sortedKeys actual) (clone previous) (clone actual) = (cs, rp, ra)"
    by (cases "diff_common previous actual (sortedKeys actual) (clone previous) (clone actual)") auto
  have c': "cs = concat (map (\<lambda>p. case ?P p of None \<Rightarrow> []
              | Some b \<Rightarrow> classify p b (lookup_state actual p)) (sortedKeys actual))"
    and ok: "gomap_ok rp" "gomap_ok ra"
    and rp: "\<And>p. map_of rp p = (if ?A p \<noteq> None \<and> ?P p \<noteq> None then None else ?P p)"
    and ra: "\<And>p. map_of ra p = (if ?A p \<noteq> None \<and> ?P p \<noteq> None then None else ?A p)"
    using diff_common_spec [where rp = previous and ra = actual and previous = previous and actual = actual
        and paths = "sortedKeys actual"] c assms
    by (simp_all add: clone_eq domIff)
  have rp_eq: "map_of rp = ?P |` (- dom ?A)" and ra_eq: "map_of ra = ?A |` (- dom ?P)"
    by (auto simp: rp ra restrict_map_def fun_eq_iff)
  let ?pI = "indexUniqueIDs rp" and ?aI = "indexUniqueIDs ra"
  note pI = indexUniqueIDs_spec [OF ok(1)] and aI = indexUniqueIDs_spec [OF ok(2)]
  obtain ms rp' ra' where m: "diff_moves ?pI ?aI (sortedKeys ?aI) rp ra = (ms, rp', ra')"
    by (cases "diff_moves ?pI ?aI (sortedKeys ?aI) rp ra") auto
  have m': "ms = concat (map (move_change ?pI ?aI rp ra) (sortedKeys ?aI))"
    and ok': "gomap_ok rp'" "gomap_ok ra'"
    and rp': "\<And>p. map_of rp' p = (if \<exists>i \<in> dom (map_of ?aI). map_of ?pI i = Some p then None else map_of rp p)"
    and ra': "\<And>p. map_of ra' p =
       (if \<exists>i \<in> dom (map_of ?aI). map_of ?pI i \<noteq> None \<and> map_of ?aI i = Some p then None else map_of ra p)"
    using diff_moves_spec [of "sortedKeys ?aI" ?aI ?pI rp ra] m aI(2) ok
      indexUniqueIDs_inj [OF ok(1)] indexUniqueIDs_inj [OF ok(2)] indexUniqueIDs_nonempty [OF ok(2)]
    by simp_all
  have dom_aI: "i \<in> dom (map_of ?aI) \<longleftrightarrow> (\<exists>q. map_of ?aI i = Some q)" for i
    by blast
  have mv1: "(\<exists>i \<in> dom (map_of ?aI). map_of ?pI i = Some p) \<longleftrightarrow> (\<exists>new. moved ?P ?A p new)" for p
    unfolding dom_aI Bex_def pI aI rp_eq ra_eq by (auto simp: moved_def)
  have mv2: "(\<exists>i \<in> dom (map_of ?aI). map_of ?pI i \<noteq> None \<and> map_of ?aI i = Some p) \<longleftrightarrow>
      (\<exists>old. moved ?P ?A old p)" for p
    unfolding dom_aI Bex_def not_None_eq pI aI rp_eq ra_eq by (auto simp: moved_def)
  have rp'': "map_of rp' p = (if \<exists>new. moved ?P ?A p new then None else map_of rp p)" for p
    unfolding rp' mv1 ..
  have ra'': "map_of ra' p = (if \<exists>old. moved ?P ?A old p then None else map_of ra p)" for p
    unfolding ra' mv2 ..
  have "map_of rp' = only_prev ?P ?A" and "map_of ra' = only_act ?P ?A"
    by (auto simp: fun_eq_iff rp'' ra'' only_prev_def only_act_def rp ra)
  moreover have "diff_changes previous actual expected el = cs @ ms @
       map (\<lambda>path. change Created path [] None (Some (lookup_state ra' path))) (sortedKeys ra') @
       map (\<lambda>path. change Deleted path [] (Some (lookup_state rp' path)) None) (sortedKeys rp') @
       (case expected of None \<Rightarrow> []
        | Some ex \<Rightarrow> diff_expected actual ex @ diff_orphans actual ex el)"
    by (simp add: diff_changes_def c m)
  ultimately show thesis
    using that ok ok' rp_eq ra_eq c' m' by blast
qed


lemma change_simps [simp]:
  "c_Kind (change k p q b a) = k" "c_Path (change k p q b a) = p" "c_OldPath (change k p q b a) = q"
  "c_Before (change k p q b a) = b" "c_After (change k p q b a) = a"
  by (simp_all add: change_def)

lemma change_inject [simp]:
  "change k p q b a = change k' p' q' b' a' \<longleftrightarrow> k = k' \<and> p = p' \<and> q = q' \<and> b = b' \<and> a = a'"
  by (auto simp: change_def)

inductive_simps snapshot_change_Replaced: "snapshot_change P A (change Replaced p q b a)"
inductive_simps snapshot_change_Moved: "snapshot_change P A (change Moved p q b a)"

lemma set_common:
  assumes "gomap_ok actual"
  shows "ch \<in> set (concat (map (\<lambda>p. case map_of previous p of None \<Rightarrow> []
       | Some b \<Rightarrow> classify p b (lookup_state actual p)) (sortedKeys actual))) \<longleftrightarrow>
     (\<exists>p b a. map_of previous p = Some b \<and> map_of actual p = Some a \<and> ch \<in> set (classify p b a))"
proof -
  have "ch \<in> set (case map_of previous p of None \<Rightarrow> [] | Some b \<Rightarrow> classify p b (lookup_state actual p)) \<longleftrightarrow>
      (\<exists>b. map_of previous p = Some b \<and> ch \<in> set (classify p b (lookup_state actual p)))" for p
    by (cases "map_of previous p") auto
  then show ?thesis by (auto simp: dom_def) force+
qed

lemma set_moves:
  assumes "gomap_ok rp" and "gomap_ok ra"
  shows "ch \<in> set (concat (map (move_change (indexUniqueIDs rp) (indexUniqueIDs ra) rp ra)
      (sortedKeys (indexUniqueIDs ra)))) \<longleftrightarrow>
    (\<exists>i old new. sole_owner (map_of rp) i old \<and> sole_owner (map_of ra) i new \<and>
       ch = change Moved new old (Some (lookup_state rp old)) (Some (lookup_state ra new)))"
proof -
  have mem: "i \<in> dom (map_of (indexUniqueIDs ra)) \<longleftrightarrow> (\<exists>new. sole_owner (map_of ra) i new)" for i
    using indexUniqueIDs_spec(1) [OF assms(2), of i] by auto
  have mc: "ch \<in> set (move_change (indexUniqueIDs rp) (indexUniqueIDs ra) rp ra i) \<longleftrightarrow>
      (\<exists>old new. sole_owner (map_of rp) i old \<and> sole_owner (map_of ra) i new \<and>
       ch = change Moved new old (Some (lookup_state rp old)) (Some (lookup_state ra new)))" for i
    unfolding move_change_def
      indexUniqueIDs_spec(1) [OF assms(1), symmetric] indexUniqueIDs_spec(1) [OF assms(2), symmetric]
    by (auto split: option.splits)
  have "ch \<in> set (concat (map (move_change (indexUniqueIDs rp) (indexUniqueIDs ra) rp ra)
      (sortedKeys (indexUniqueIDs ra)))) \<longleftrightarrow>
    (\<exists>i. i \<in> dom (map_of (indexUniqueIDs ra)) \<and>
       ch \<in> set (move_change (indexUniqueIDs rp) (indexUniqueIDs ra) rp ra i))"
    by auto
  also have "\<dots> \<longleftrightarrow> (\<exists>i old new. sole_owner (map_of rp) i old \<and> sole_owner (map_of ra) i new \<and>
       ch = change Moved new old (Some (lookup_state rp old)) (Some (lookup_state ra new)))"
    unfolding mem mc by blast
  finally show ?thesis .
qed

lemma set_classify:
  "ch \<in> set (classify p b a) \<longleftrightarrow>
     (\<not> sameIdentity b a \<and> ch = change Replaced p [] (Some b) (Some a)) \<or>
     (sameIdentity b a \<and> contentChanged b a \<and> ch = change Modified p [] (Some b) (Some a)) \<or>
     (sameIdentity b a \<and> \<not> contentChanged b a \<and> i_Mode b \<noteq> i_Mode a \<and>
        ch = change AttributeChanged p [] (Some b) (Some a))"
  by (auto simp: classify_def)

lemma sole_owner_restrict:
  "sole_owner (m |` S) i p \<Longrightarrow> p \<in> S \<and> (\<exists>s. m p = Some s \<and> i_ID s = i)"
  by (auto simp: sole_owner_def restrict_map_def split: if_splits)

lemma moved_dom:
  "moved P A old new \<Longrightarrow> (\<exists>b a. P old = Some b \<and> A old = None \<and> A new = Some a \<and> P new = None)"
  unfolding moved_def using sole_owner_restrict by fastforce

lemma set_snapshot_part:
  assumes "gomap_ok previous" and "gomap_ok actual"
  shows "set (diff_changes previous actual None el) =
     {ch. snapshot_change (map_of previous) (map_of actual) ch}"
proof -
  let ?P = "map_of previous" and ?A = "map_of actual"
  obtain rp ra rp' ra' where
    ok: "gomap_ok rp" "gomap_ok ra" "gomap_ok rp'" "gomap_ok ra'"
    and rp: "map_of rp = ?P |` (- dom ?A)" and ra: "map_of ra = ?A |` (- dom ?P)"
    and rp': "map_of rp' = only_prev ?P ?A" and ra': "map_of ra' = only_act ?P ?A"
    and eq: "diff_changes previous actual None el =
       concat (map (\<lambda>p. case ?P p of None \<Rightarrow> []
                    | Some b \<Rightarrow> classify p b (lookup_state actual p)) (sortedKeys actual)) @
       concat (map (move_change (indexUniqueIDs rp) (indexUniqueIDs ra) rp ra)
         (sortedKeys (indexUniqueIDs ra))) @
       map (\<lambda>path. change Created path [] None (Some (lookup_state ra' path))) (sortedKeys ra') @
       map (\<lambda>path. change Deleted path [] (Some (lookup_state rp' path)) None) (sortedKeys rp')"
    by (rule diff_changes_decomp [OF assms, of None el]) simp
  have cr: "ch \<in> set (map (\<lambda>path. change Created path [] None (Some (lookup_state ra' path))) (sortedKeys ra'))
      \<longleftrightarrow> (\<exists>p a. only_act ?P ?A p = Some a \<and> ch = change Created p [] None (Some a))" for ch
    by (auto simp: ra' [symmetric] image_iff lookup_state_def dom_def split: option.splits)
  have de: "ch \<in> set (map (\<lambda>path. change Deleted path [] (Some (lookup_state rp' path)) None) (sortedKeys rp'))
      \<longleftrightarrow> (\<exists>p b. only_prev ?P ?A p = Some b \<and> ch = change Deleted p [] (Some b) None)" for ch
    by (auto simp: rp' [symmetric] image_iff lookup_state_def dom_def split: option.splits)
  have mo: "(\<exists>i old new. sole_owner (map_of rp) i old \<and> sole_owner (map_of ra) i new \<and>
       ch = change Moved new old (Some (lookup_state rp old)) (Some (lookup_state ra new))) \<longleftrightarrow>
     (\<exists>old new b a. moved ?P ?A old new \<and> ?P old = Some b \<and> ?A new = Some a \<and>
       ch = change Moved new old (Some b) (Some a))" for ch
  proof
    assume "\<exists>i old new. sole_owner (map_of rp) i old \<and> sole_owner (map_of ra) i new \<and>
       ch = change Moved new old (Some (lookup_state rp old)) (Some (lookup_state ra new))"
    then obtain i old new where o: "sole_owner (map_of rp) i old" "sole_owner (map_of ra) i new"
      and ch: "ch = change Moved new old (Some (lookup_state rp old)) (Some (lookup_state ra new))"
      by blast
    from o have mv: "moved ?P ?A old new" by (auto simp: moved_def rp ra)
    with moved_dom obtain b a where "?P old = Some b" "?A old = None" "?A new = Some a" "?P new = None"
      by blast
    moreover from this have "map_of rp old = Some b" "map_of ra new = Some a"
      by (simp_all add: rp ra restrict_map_def domIff)
    ultimately show "\<exists>old new b a. moved ?P ?A old new \<and> ?P old = Some b \<and> ?A new = Some a \<and>
       ch = change Moved new old (Some b) (Some a)"
      using mv ch by auto
  next
    assume "\<exists>old new b a. moved ?P ?A old new \<and> ?P old = Some b \<and> ?A new = Some a \<and>
       ch = change Moved new old (Some b) (Some a)"
    then obtain old new b a where mv: "moved ?P ?A old new" and ba: "?P old = Some b" "?A new = Some a"
      and ch: "ch = change Moved new old (Some b) (Some a)" by blast
    with moved_dom [OF mv] have "map_of rp old = Some b" "map_of ra new = Some a"
      by (auto simp: rp ra restrict_map_def domIff)
    with mv ch show "\<exists>i old new. sole_owner (map_of rp) i old \<and> sole_owner (map_of ra) i new \<and>
       ch = change Moved new old (Some (lookup_state rp old)) (Some (lookup_state ra new))"
      by (fastforce simp: moved_def rp ra)
  qed
  show ?thesis
    unfolding eq set_append set_eq_iff Un_iff set_common [OF assms(2)] set_moves [OF ok(1,2)] cr de mo
      set_classify mem_Collect_eq snapshot_change.simps only_act_def only_prev_def
    by (auto split: if_splits) 
qed


lemma distinct_move_changes:
  assumes "gomap_ok ra"
  shows "distinct (concat (map (move_change pIDs (indexUniqueIDs ra) rp ra)
    (sortedKeys (indexUniqueIDs ra))))"
proof (rule distinct_concat_map)
  fix i j z
  assume "z \<in> set (move_change pIDs (indexUniqueIDs ra) rp ra i)"
    and "z \<in> set (move_change pIDs (indexUniqueIDs ra) rp ra j)"
  then have "map_of (indexUniqueIDs ra) i = Some (c_Path z)"
    and "map_of (indexUniqueIDs ra) j = Some (c_Path z)"
    by (auto simp: move_change_def split: option.splits)
  then show "i = j"
    using sole_owner_inj indexUniqueIDs_spec(1) [OF assms] by blast
qed (auto simp: move_change_def indexUniqueIDs_spec(2) [OF assms] split: option.split)

lemma distinct_common:
  assumes "gomap_ok actual"
  shows "distinct (concat (map (\<lambda>p. case map_of previous p of None \<Rightarrow> []
       | Some b \<Rightarrow> classify p b (lookup_state actual p)) (sortedKeys actual)))"
  by (rule distinct_concat_map) (auto simp: assms classify_def split: option.splits if_splits)

lemma distinct_snapshot_part:
  assumes "gomap_ok previous" and "gomap_ok actual"
  shows "distinct (diff_changes previous actual None el)"
proof -
  obtain rp ra rp' ra' where
    ok: "gomap_ok rp" "gomap_ok ra" "gomap_ok rp'" "gomap_ok ra'"
    and eq: "diff_changes previous actual None el =
       concat (map (\<lambda>p. case map_of previous p of None \<Rightarrow> []
                    | Some b \<Rightarrow> classify p b (lookup_state actual p)) (sortedKeys actual)) @
       concat (map (move_change (indexUniqueIDs rp) (indexUniqueIDs ra) rp ra)
         (sortedKeys (indexUniqueIDs ra))) @
       map (\<lambda>path. change Created path [] None (Some (lookup_state ra' path))) (sortedKeys ra') @
       map (\<lambda>path. change Deleted path [] (Some (lookup_state rp' path)) None) (sortedKeys rp')"
    by (rule diff_changes_decomp [OF assms, of None el]) simp
  have "distinct (map (\<lambda>path. change Created path [] None (Some (lookup_state ra' path))) (sortedKeys ra'))"
    and "distinct (map (\<lambda>path. change Deleted path [] (Some (lookup_state rp' path)) None) (sortedKeys rp'))"
    using ok by (simp_all add: distinct_map inj_on_def)
  then show ?thesis
    unfolding eq distinct_append
    using distinct_common [OF assms(2)] distinct_move_changes [OF ok(2)]
    by (auto simp: classify_def move_change_def split: option.splits if_splits)
qed

lemma diff_changes_expected:
  assumes "gomap_ok previous" and "gomap_ok actual"
  shows "diff_changes previous actual (Some ex) el =
     diff_changes previous actual None el @ diff_expected actual ex @ diff_orphans actual ex el"
  by (simp add: diff_changes_def Let_def split: prod.split)

lemma set_expected_part:
  "set (diff_expected actual ex @ diff_orphans actual ex el) =
     {ch. expected_change (map_of actual) (map_of ex)
            (\<lambda>s. case el of None \<Rightarrow> True | Some f \<Rightarrow> f s) ch}"
proof -
  have 1: "ch \<in> set (diff_expected actual ex) \<longleftrightarrow>
      (\<exists>p x. map_of ex p = Some x \<and> map_of actual p = None \<and> ch = change Missing p [] None None) \<or>
      (\<exists>p x a. map_of ex p = Some x \<and> map_of actual p = Some a \<and> expected_violated x a \<and>
         ch = change Invalid p [] None (Some a))" for ch
    by (force simp: diff_expected_def dom_def split: option.splits if_splits)
  have 2: "ch \<in> set (diff_orphans actual ex el) \<longleftrightarrow>
      (\<exists>p a. map_of ex p = None \<and> map_of actual p = Some a \<and>
         (case el of None \<Rightarrow> True | Some f \<Rightarrow> f a) \<and> ch = change Orphan p [] None (Some a))" for ch
    by (cases el) (auto simp: diff_orphans_def dom_def Let_def lookup_state_def split: if_splits)
  show ?thesis
    unfolding set_append set_eq_iff Un_iff 1 2 mem_Collect_eq expected_change.simps by blast
qed

lemma Diff_eq: "Diff previous actual expected = diff_changes previous actual expected None"
proof -
  have "fold (\<lambda>ch changes. changes @ [ch]) xs acc = acc @ xs" for xs acc :: "Change list"
    by (induction xs arbitrary: acc) auto
  then show ?thesis
    using for_each_total [of "diff_changes previous actual expected None"
        "\<lambda>ch changes. (None, changes @ [ch])" "\<lambda>ch changes. changes @ [ch]" "[]"]
    by (simp add: Diff_def WalkDiff_def WalkDiffScoped_def)
qed

text \<open>The loops read the maps through lookups and sorted keys only.\<close>

lemma sortedKeys_cong:
  "gomap_ok m \<Longrightarrow> gomap_ok m' \<Longrightarrow> map_of m = map_of m' \<Longrightarrow> sortedKeys m = sortedKeys m'"
  using sort_keys_eq [of m m'] by (simp add: sortedKeys_def dom_map_of_conv_image_fst [symmetric])

lemma lookup_state_cong: "map_of m = map_of m' \<Longrightarrow> lookup_state m = lookup_state m'"
  by (simp add: lookup_state_def fun_eq_iff)

lemma indexUniqueIDs_cong:
  "gomap_ok m \<Longrightarrow> gomap_ok m' \<Longrightarrow> map_of m = map_of m' \<Longrightarrow>
   map_of (indexUniqueIDs m) = map_of (indexUniqueIDs m')"
  by (rule ext) (metis indexUniqueIDs_spec(1) option.exhaust)

lemma move_change_cong:
  assumes "map_of i = map_of i'" and "map_of j = map_of j'" and "map_of r = map_of r'"
    and "map_of s = map_of s'"
  shows "move_change i j r s = move_change i' j' r' s'"
  unfolding move_change_def assms(1,2) lookup_state_cong [OF assms(3)] lookup_state_cong [OF assms(4)] ..

section \<open>Replaying the difference\<close>

definition apply_change :: "Change \<Rightarrow> (string \<rightharpoonup> State) \<Rightarrow> (string \<rightharpoonup> State)" where
  "apply_change ch m =
     (case c_Kind ch of
        Created \<Rightarrow> m(c_Path ch := c_After ch)
      | Modified \<Rightarrow> m(c_Path ch := c_After ch)
      | AttributeChanged \<Rightarrow> m(c_Path ch := c_After ch)
      | Replaced \<Rightarrow> m(c_Path ch := c_After ch)
      | Deleted \<Rightarrow> m(c_Path ch := None)
      | Moved \<Rightarrow> m(c_OldPath ch := None, c_Path ch := c_After ch)
      | _ \<Rightarrow> m)"

definition same_entry :: "State option \<Rightarrow> State option \<Rightarrow> bool" where
  "same_entry x y =
     (case (x, y) of
        (None, None) \<Rightarrow> True
      | (Some s, Some a) \<Rightarrow> sameIdentity s a \<and> \<not> contentChanged s a \<and> i_Mode s = i_Mode a
      | _ \<Rightarrow> False)"

definition touches :: "Change \<Rightarrow> string \<Rightarrow> bool" where
  "touches ch p = (p = c_Path ch \<or> c_Kind ch = Moved \<and> p = c_OldPath ch)"

lemma apply_snapshot_change:
  "snapshot_change P A ch \<Longrightarrow> apply_change ch m p = (if touches ch p then A p else m p)"
  by (induction rule: snapshot_change.induct)
     (auto simp: apply_change_def touches_def dest: moved_dom)

lemma fold_apply_snapshot_changes:
  "\<forall>ch \<in> set cs. snapshot_change P A ch \<Longrightarrow>
   fold apply_change cs m p = (if \<exists>ch \<in> set cs. touches ch p then A p else m p)"
  by (induction cs arbitrary: m) (auto simp: apply_snapshot_change)

lemma untouched_same:
  assumes "\<And>ch. snapshot_change P A ch \<Longrightarrow> \<not> touches ch p"
  shows "same_entry (P p) (A p)"
proof -
  have no: "\<not> snapshot_change P A (change k p q x y)" for k q x y
    using assms [of "change k p q x y"] by (auto simp: touches_def)
  have no_old: "\<not> snapshot_change P A (change Moved q p x y)" for q x y
    using assms [of "change Moved q p x y"] by (auto simp: touches_def)
  show ?thesis
  proof (cases "P p"; cases "A p")
    fix b a
    assume "P p = Some b" "A p = Some a"
    with no snapshot_change.replaced [of P p b A a] snapshot_change.modified [of P p b A a]
      snapshot_change.attributes [of P p b A a]
    show ?thesis by (auto simp: same_entry_def)
  next
    fix a
    assume p: "P p = None" "A p = Some a"
    with no snapshot_change.created [of A p a P] obtain old where mv: "moved P A old p" by auto
    with moved_dom obtain b where "P old = Some b" by blast
    with mv p no snapshot_change.move [of P A old p b a] show ?thesis by simp
  next
    fix b
    assume p: "P p = Some b" "A p = None"
    with no snapshot_change.deleted [of P p b A] obtain new where mv: "moved P A p new" by auto
    with moved_dom obtain a where "A new = Some a" by blast
    with mv p no_old snapshot_change.move [of P A p new b a] show ?thesis by simp
  qed (simp add: same_entry_def)
qed

lemma same_entry_refl: "same_entry x x"
  by (auto simp: same_entry_def sameIdentity_def contentChanged_def split: option.split)


section \<open>Properties\<close>

text \<open>C2: \<open>Diff\<close> without expected state emits exactly the changes of the declarative
  specification \<open>snapshot_change\<close> (replaced, modified, attribute, moved, created, deleted),
  each once, for every iteration order of the two maps.\<close>

theorem diff_exact:
  assumes "gomap_ok previous" and "gomap_ok actual"
  shows "set (Diff previous actual None) = {ch. snapshot_change (map_of previous) (map_of actual) ch} \<and>
     distinct (Diff previous actual None)"
  using set_snapshot_part [OF assms, of None] distinct_snapshot_part [OF assms, of None]
  by (simp add: Diff_eq)

text \<open>C17: the emitted changes are complete: replaying them on the previous snapshot gives, at
  every path, an entry that agrees with the actual one in existence, type, size, modification
  time and mode, and in identity wherever both identities are known.\<close>

theorem diff_replay:
  assumes "gomap_ok previous" and "gomap_ok actual"
  shows "same_entry (fold apply_change (Diff previous actual None) (map_of previous) p) (map_of actual p)"
proof -
  have cs: "set (Diff previous actual None) = {ch. snapshot_change (map_of previous) (map_of actual) ch}"
    using set_snapshot_part [OF assms, of None] by (simp add: Diff_eq)
  then have "fold apply_change (Diff previous actual None) (map_of previous) p =
      (if \<exists>ch \<in> set (Diff previous actual None). touches ch p then map_of actual p else map_of previous p)"
    by (intro fold_apply_snapshot_changes [where P = "map_of previous"]) simp
  then show ?thesis
    using untouched_same [of "map_of previous" "map_of actual" p] cs by (auto simp: same_entry_refl)
qed

text \<open>C18: with expected state the walk emits, besides the snapshot changes, exactly one
  \<open>Missing\<close> per expected path that does not exist, one \<open>Invalid\<close> per violated type or size
  constraint and one \<open>Orphan\<close> per unlisted entry the predicate admits.\<close>

theorem diff_expected_exact:
  assumes "gomap_ok previous" and "gomap_ok actual"
  shows "set (diff_changes previous actual (Some ex) el) =
     {ch. snapshot_change (map_of previous) (map_of actual) ch} \<union>
     {ch. expected_change (map_of actual) (map_of ex)
            (\<lambda>s. case el of None \<Rightarrow> True | Some f \<Rightarrow> f s) ch}"
  using set_snapshot_part [OF assms, of el] set_expected_part [of actual ex el]
  by (auto simp: diff_changes_expected [OF assms])


text \<open>A concrete pair of states used by the witnesses: one file edited in place, one file
  moved, one directory created and one file deleted.\<close>

definition ex_state :: "string \<Rightarrow> string \<Rightarrow> IFileType \<Rightarrow> 64 word \<Rightarrow> State" where
  "ex_state path ident ty mtime =
     \<lparr>i_Path = path, i_ID = ident, i_Type = ty, i_Size = 1, i_ModUnix = mtime, i_Mode = 420\<rparr>"

definition ex_previous :: "State gomap" where
  "ex_previous =
     [(''/d/a'', ex_state ''/d/a'' ''1'' TypeRegular 5), (''/d/b'', ex_state ''/d/b'' ''2'' TypeRegular 5),
      (''/d/x'', ex_state ''/d/x'' ''4'' TypeRegular 5)]"

definition ex_actual :: "State gomap" where
  "ex_actual =
     [(''/d/c'', ex_state ''/d/c'' ''2'' TypeRegular 5), (''/d/a'', ex_state ''/d/a'' ''1'' TypeRegular 6),
      (''/d/s'', ex_state ''/d/s'' ''3'' TypeDirectory 5)]"

lemma ex_maps_ok: "gomap_ok ex_previous" "gomap_ok ex_actual" "gomap_ok (rev ex_previous)" "gomap_ok (rev ex_actual)"
  by (simp_all add: ex_previous_def ex_actual_def)

theorem diff_exact_witness:
  "gomap_ok ex_previous \<and> gomap_ok ex_actual \<and>
   map (\<lambda>ch. (c_Kind ch, c_Path ch, c_OldPath ch)) (Diff ex_previous ex_actual None) =
     [(Modified, ''/d/a'', []), (Moved, ''/d/c'', ''/d/b''), (Created, ''/d/s'', []), (Deleted, ''/d/x'', [])] \<and>
   set (Diff ex_previous ex_actual None) =
     {ch. snapshot_change (map_of ex_previous) (map_of ex_actual) ch}"
proof -
  have v: "map (\<lambda>ch. (c_Kind ch, c_Path ch, c_OldPath ch)) (Diff ex_previous ex_actual None) =
     [(Modified, ''/d/a'', []), (Moved, ''/d/c'', ''/d/b''), (Created, ''/d/s'', []), (Deleted, ''/d/x'', [])]"
    by code_simp
  show ?thesis using ex_maps_ok(1,2) v diff_exact [OF ex_maps_ok(1,2)] by blast
qed

theorem diff_replay_witness:
  "gomap_ok ex_previous \<and> gomap_ok ex_actual \<and>
   same_entry (fold apply_change (Diff ex_previous ex_actual None) (map_of ex_previous) ''/d/c'')
     (map_of ex_actual ''/d/c'')"
  using ex_maps_ok(1,2) diff_replay [OF ex_maps_ok(1,2), of "''/d/c''"] by blast

definition ex_expected :: "Expected gomap" where
  "ex_expected =
     [(''/d/a'', \<lparr>x_Path = ''/d/a'', x_Type = Some TypeRegular, x_Size = Some 9, x_Fingerprint = []\<rparr>),
      (''/d/m'', \<lparr>x_Path = ''/d/m'', x_Type = None, x_Size = None, x_Fingerprint = []\<rparr>)]"

theorem diff_expected_exact_witness:
  "gomap_ok ex_previous \<and> gomap_ok ex_actual \<and>
   map (\<lambda>ch. (c_Kind ch, c_Path ch))
     (drop 4 (diff_changes ex_previous ex_actual (Some ex_expected) (Some (\<lambda>s. i_Type s = TypeRegular)))) =
     [(Invalid, ''/d/a''), (Missing, ''/d/m''), (Orphan, ''/d/c'')] \<and>
   set (diff_changes ex_previous ex_actual (Some ex_expected) (Some (\<lambda>s. i_Type s = TypeRegular))) =
     {ch. snapshot_change (map_of ex_previous) (map_of ex_actual) ch} \<union>
     {ch. expected_change (map_of ex_actual) (map_of ex_expected) (\<lambda>s. i_Type s = TypeRegular) ch}"
proof -
  have v: "map (\<lambda>ch. (c_Kind ch, c_Path ch))
     (drop 4 (diff_changes ex_previous ex_actual (Some ex_expected) (Some (\<lambda>s. i_Type s = TypeRegular)))) =
     [(Invalid, ''/d/a''), (Missing, ''/d/m''), (Orphan, ''/d/c'')]"
    by code_simp
  show ?thesis
    using ex_maps_ok(1,2) v
      diff_expected_exact [OF ex_maps_ok(1,2), of ex_expected "Some (\<lambda>s. i_Type s = TypeRegular)"]
    by simp
qed


end
