(* ===== verification/Event_Conversion.thy ===== *)
theory Event_Conversion
  imports Semantic_Diff Scanner_Walk
begin

text \<open>
  The conversions between scanner entries, public states and events, and the diff engine
  (\<open>reconcile.go\<close> from \<open>toInternalStates\<close> on, \<open>tracker.go\<close> from \<open>scannerPolicy\<close> on), and
  the accounting of events in a report. \<open>UnixNano\<close> is the instant modulo \<open>2^64\<close> as a signed
  value, \<open>time.Unix(0, n)\<close> its inverse.
\<close>

section \<open>Operations\<close>

definition scannerPolicy :: "SymlinkPolicy \<Rightarrow> ScanPolicy" where
  "scannerPolicy policy =
     (case policy of
        IgnoreSymlinks \<Rightarrow> ScanIgnoreSymlinks
      | ReportSymlinks \<Rightarrow> ScanReportSymlinks
      | FollowSymlinks \<Rightarrow> ScanFollowSymlinks
      | RejectSymlinks \<Rightarrow> ScanRejectSymlinks
      | SymlinkPolicyUndeclared _ \<Rightarrow> ScanIgnoreSymlinks)"

definition stateFromEntry :: "Entry \<Rightarrow> FileState" where
  "stateFromEntry entry =
     \<lparr>st_Path = en_Path entry, st_ID = newFileID (en_Identity entry), st_Type = fileType (en_Mode entry),
      st_Size = en_Size entry, st_ModTime = en_ModTime entry, st_Mode = en_Mode entry\<rparr>"

primrec internalTypeFromPublic :: "FileType \<Rightarrow> IFileType" where
  "internalTypeFromPublic FileTypeRegular = TypeRegular"
| "internalTypeFromPublic FileTypeDirectory = TypeDirectory"
| "internalTypeFromPublic FileTypeSymlink = TypeSymlink"
| "internalTypeFromPublic FileTypeOther = TypeOther"
| "internalTypeFromPublic FileTypeUnknown = TypeUnknown"
| "internalTypeFromPublic (FileTypeUndeclared _) = TypeUnknown"

primrec fileTypeFromInternal :: "IFileType \<Rightarrow> FileType" where
  "fileTypeFromInternal TypeRegular = FileTypeRegular"
| "fileTypeFromInternal TypeDirectory = FileTypeDirectory"
| "fileTypeFromInternal TypeSymlink = FileTypeSymlink"
| "fileTypeFromInternal TypeOther = FileTypeOther"
| "fileTypeFromInternal TypeUnknown = FileTypeUnknown"
| "fileTypeFromInternal (TypeUndeclared _) = FileTypeUnknown"

definition UnixNano :: "Time \<Rightarrow> 64 word" where
  "UnixNano t = word_of_int t"

definition time_Unix :: "64 word \<Rightarrow> Time" where
  "time_Unix n = sint n"

definition to_internal :: "string \<Rightarrow> FileState \<Rightarrow> State" where
  "to_internal path state =
     \<lparr>i_Path = path, i_ID = id_value (st_ID state), i_Type = internalTypeFromPublic (st_Type state),
      i_Size = st_Size state, i_ModUnix = UnixNano (st_ModTime state), i_Mode = st_Mode state\<rparr>"

definition toInternalStates :: "FileState gomap \<Rightarrow> State gomap" where
  "toInternalStates states =
     fold (\<lambda>(path, state) result. AList.update path (to_internal path state) result) states []"

definition fromInternalState :: "State \<Rightarrow> FileState" where
  "fromInternalState state =
     \<lparr>st_Path = i_Path state, st_ID = newFileID (i_ID state), st_Type = fileTypeFromInternal (i_Type state),
      st_Size = i_Size state, st_ModTime = time_Unix (i_ModUnix state), st_Mode = i_Mode state\<rparr>"

primrec eventKindFromInternal :: "Kind \<Rightarrow> GoError + EventKind" where
  "eventKindFromInternal Created = Inr EventCreated"
| "eventKindFromInternal Modified = Inr EventModified"
| "eventKindFromInternal Deleted = Inr EventDeleted"
| "eventKindFromInternal Moved = Inr EventMoved"
| "eventKindFromInternal AttributeChanged = Inr EventAttributeChanged"
| "eventKindFromInternal Missing = Inr EventMissing"
| "eventKindFromInternal Orphan = Inr EventOrphan"
| "eventKindFromInternal Replaced = Inr EventReplaced"
| "eventKindFromInternal Invalid = Inr EventInvalid"
| "eventKindFromInternal (KindUndeclared k) = Inl (ErrMsg (''fsrecon: unknown internal event kind '' @ fmt_d k))"

text \<open>The time of the event, \<open>time.Now()\<close>, is an argument.\<close>

definition eventFromChange :: "Time \<Rightarrow> Change \<Rightarrow> GoError + Event" where
  "eventFromChange now ch =
     (case eventKindFromInternal (c_Kind ch) of
        Inl err \<Rightarrow> Inl err
      | Inr kind \<Rightarrow>
          Inr \<lparr>ev_Kind = kind, ev_Path = c_Path ch, ev_OldPath = c_OldPath ch,
               ev_Before = map_option fromInternalState (c_Before ch),
               ev_After = map_option fromInternalState (c_After ch),
               ev_Source = SourceReconcile, ev_Time = now\<rparr>)"

primrec countEvent :: "EventKind \<Rightarrow> ReconcileReport \<Rightarrow> ReconcileReport" where
  "countEvent EventCreated r = r\<lparr>rr_Created := rr_Created r + 1\<rparr>"
| "countEvent EventModified r = r\<lparr>rr_Modified := rr_Modified r + 1\<rparr>"
| "countEvent EventAttributeChanged r = r\<lparr>rr_Modified := rr_Modified r + 1\<rparr>"
| "countEvent EventDeleted r = r\<lparr>rr_Deleted := rr_Deleted r + 1\<rparr>"
| "countEvent EventMoved r = r\<lparr>rr_Moved := rr_Moved r + 1\<rparr>"
| "countEvent EventReplaced r = r\<lparr>rr_Replaced := rr_Replaced r + 1\<rparr>"
| "countEvent EventMissing r = r\<lparr>rr_Missing := rr_Missing r + 1\<rparr>"
| "countEvent EventOrphan r = r\<lparr>rr_Orphan := rr_Orphan r + 1\<rparr>"
| "countEvent EventInvalid r = r\<lparr>rr_Invalid := rr_Invalid r + 1\<rparr>"
| "countEvent EventCorrupt r = r\<lparr>rr_Corrupt := rr_Corrupt r + 1\<rparr>"
| "countEvent EventOverflow r = r"
| "countEvent EventRescanRequired r = r"
| "countEvent (EventUndeclared _) r = r"

definition addReportEvent :: "int \<Rightarrow> Event \<Rightarrow> ReconcileReport \<Rightarrow> ReconcileReport" where
  "addReportEvent limit event r =
     (if int (length (rr_Events r)) < limit then r\<lparr>rr_Events := rr_Events r @ [event]\<rparr>
      else r\<lparr>rr_EventsTruncated := rr_EventsTruncated r + 1\<rparr>)"

text \<open>Copies of the states behind the pointers of an event; in this model a value already.\<close>

definition cloneEvents :: "Event list \<Rightarrow> Event list" where
  "cloneEvents events =
     map (\<lambda>event. event\<lparr>ev_Before := map_option (\<lambda>value. value) (ev_Before event),
                        ev_After := map_option (\<lambda>value. value) (ev_After event)\<rparr>) events"

text \<open>The counting and reporting of one event, as in the two loops of \<open>reconcileScopes\<close>.\<close>

definition report_event :: "int \<Rightarrow> Event \<Rightarrow> ReconcileReport \<Rightarrow> ReconcileReport" where
  "report_event limit event r = addReportEvent limit event (countEvent (ev_Kind event) r)"

section \<open>Lemmas\<close>

lemma cloneEvents_eq [simp]: "cloneEvents events = events"
  by (simp add: cloneEvents_def map_option.id [unfolded id_def])

lemma toInternalStates_eq:
  assumes "gomap_ok states"
  shows "toInternalStates states = map (\<lambda>(path, state). (path, to_internal path state)) states"
proof -
  have "fold (\<lambda>(path, state) result. AList.update path (to_internal path state) result) xs acc =
      acc @ map (\<lambda>(path, state). (path, to_internal path state)) xs"
    if "distinct (map fst acc @ map fst xs)" for xs acc
    using that
    by (induction xs arbitrary: acc) (auto simp: update_fresh)
  then show ?thesis using assms by (simp add: toInternalStates_def)
qed

lemma gomap_ok_toInternalStates [simp]: "gomap_ok states \<Longrightarrow> gomap_ok (toInternalStates states)"
  by (simp add: toInternalStates_eq comp_def case_prod_beta)

lemma map_of_toInternalStates:
  assumes "gomap_ok states"
  shows "map_of (toInternalStates states) p = map_option (to_internal p) (map_of states p)"
  unfolding toInternalStates_eq [OF assms] by (induction states) auto

lemma UnixNano_inverse: "- (2 ^ 63) \<le> t \<Longrightarrow> t < 2 ^ 63 \<Longrightarrow> time_Unix (UnixNano t) = t"
  by (simp add: time_Unix_def UnixNano_def signed_of_int signed_take_bit_int_eq_self)

lemma countEvent_keeps [simp]:
  "rr_Events (countEvent k r) = rr_Events r" "rr_EventsTruncated (countEvent k r) = rr_EventsTruncated r"
  "rr_Scanned (countEvent k r) = rr_Scanned r" "rr_Generation (countEvent k r) = rr_Generation r"
  "rr_Healthy (countEvent k r) = rr_Healthy r"
  by (cases k; simp)+

lemma report_event_keeps [simp]:
  "rr_Scanned (report_event l e r) = rr_Scanned r" "rr_Generation (report_event l e r) = rr_Generation r"
  by (simp_all add: report_event_def addReportEvent_def)

definition kind_count :: "EventKind set \<Rightarrow> Event list \<Rightarrow> 64 word" where
  "kind_count ks events = of_nat (length (filter (\<lambda>e. ev_Kind e \<in> ks) events))"

lemma kind_count_simps [simp]:
  "kind_count ks [] = 0"
  "kind_count ks (e # es) = (if ev_Kind e \<in> ks then 1 else 0) + kind_count ks es"
  by (simp_all add: kind_count_def)

lemma report_events_counts:
  "rr_Created (fold (report_event l) es r) = rr_Created r + kind_count {EventCreated} es"
  "rr_Modified (fold (report_event l) es r) = rr_Modified r + kind_count {EventModified, EventAttributeChanged} es"
  "rr_Deleted (fold (report_event l) es r) = rr_Deleted r + kind_count {EventDeleted} es"
  "rr_Moved (fold (report_event l) es r) = rr_Moved r + kind_count {EventMoved} es"
  "rr_Replaced (fold (report_event l) es r) = rr_Replaced r + kind_count {EventReplaced} es"
  "rr_Missing (fold (report_event l) es r) = rr_Missing r + kind_count {EventMissing} es"
  "rr_Orphan (fold (report_event l) es r) = rr_Orphan r + kind_count {EventOrphan} es"
  "rr_Invalid (fold (report_event l) es r) = rr_Invalid r + kind_count {EventInvalid} es"
  "rr_Corrupt (fold (report_event l) es r) = rr_Corrupt r + kind_count {EventCorrupt} es"
proof -
  have step: "rr_Created (report_event l e r) = rr_Created r + kind_count {EventCreated} [e]"
    "rr_Modified (report_event l e r) = rr_Modified r + kind_count {EventModified, EventAttributeChanged} [e]"
    "rr_Deleted (report_event l e r) = rr_Deleted r + kind_count {EventDeleted} [e]"
    "rr_Moved (report_event l e r) = rr_Moved r + kind_count {EventMoved} [e]"
    "rr_Replaced (report_event l e r) = rr_Replaced r + kind_count {EventReplaced} [e]"
    "rr_Missing (report_event l e r) = rr_Missing r + kind_count {EventMissing} [e]"
    "rr_Orphan (report_event l e r) = rr_Orphan r + kind_count {EventOrphan} [e]"
    "rr_Invalid (report_event l e r) = rr_Invalid r + kind_count {EventInvalid} [e]"
    "rr_Corrupt (report_event l e r) = rr_Corrupt r + kind_count {EventCorrupt} [e]" for e r
    by (cases "ev_Kind e"; simp add: report_event_def addReportEvent_def)+
  show "rr_Created (fold (report_event l) es r) = rr_Created r + kind_count {EventCreated} es"
    by (induction es arbitrary: r) (simp_all add: step)
  show "rr_Modified (fold (report_event l) es r) = rr_Modified r + kind_count {EventModified, EventAttributeChanged} es"
    by (induction es arbitrary: r) (simp_all add: step)
  show "rr_Deleted (fold (report_event l) es r) = rr_Deleted r + kind_count {EventDeleted} es"
    by (induction es arbitrary: r) (simp_all add: step)
  show "rr_Moved (fold (report_event l) es r) = rr_Moved r + kind_count {EventMoved} es"
    by (induction es arbitrary: r) (simp_all add: step)
  show "rr_Replaced (fold (report_event l) es r) = rr_Replaced r + kind_count {EventReplaced} es"
    by (induction es arbitrary: r) (simp_all add: step)
  show "rr_Missing (fold (report_event l) es r) = rr_Missing r + kind_count {EventMissing} es"
    by (induction es arbitrary: r) (simp_all add: step)
  show "rr_Orphan (fold (report_event l) es r) = rr_Orphan r + kind_count {EventOrphan} es"
    by (induction es arbitrary: r) (simp_all add: step)
  show "rr_Invalid (fold (report_event l) es r) = rr_Invalid r + kind_count {EventInvalid} es"
    by (induction es arbitrary: r) (simp_all add: step)
  show "rr_Corrupt (fold (report_event l) es r) = rr_Corrupt r + kind_count {EventCorrupt} es"
    by (induction es arbitrary: r) (simp_all add: step)
qed

lemma report_events_bounded:
  assumes "0 \<le> l" and "rr_Events r = []"
  shows "rr_Events (fold (report_event l) es r) = take (nat l) es"
    and "rr_EventsTruncated (fold (report_event l) es r) = rr_EventsTruncated r + of_nat (length es - nat l)"
proof -
  have "rr_Events (fold (report_event l) es r) = take (nat l) (rr_Events r @ es) \<and>
      rr_EventsTruncated (fold (report_event l) es r) =
        rr_EventsTruncated r + of_nat (length (rr_Events r @ es) - nat l)"
    if "length (rr_Events r) \<le> nat l" for r
    using that
  proof (induction es arbitrary: r)
    case (Cons e es)
    let ?r = "report_event l e r"
    show ?case
    proof (cases "length (rr_Events r) < nat l")
      case True
      then have "rr_Events ?r = rr_Events r @ [e]" "rr_EventsTruncated ?r = rr_EventsTruncated r"
        using assms(1) by (simp_all add: report_event_def addReportEvent_def nat_less_iff zless_nat_eq_int_zless)
      with Cons.IH [of ?r] True show ?thesis by simp
    next
      case False
      with Cons.prems have len: "length (rr_Events r) = nat l" by simp
      then have "rr_Events ?r = rr_Events r" "rr_EventsTruncated ?r = rr_EventsTruncated r + 1"
        using assms(1) by (simp_all add: report_event_def addReportEvent_def)
      with Cons.IH [of ?r] len show ?thesis by simp
    qed
  qed simp
  from this [of r] assms(2)
  show "rr_Events (fold (report_event l) es r) = take (nat l) es"
    and "rr_EventsTruncated (fold (report_event l) es r) = rr_EventsTruncated r + of_nat (length es - nat l)"
    by simp_all
qed

section \<open>Round trip\<close>

text \<open>A state survives the conversion to the diff engine and back, as it is reported in
  events, when its type is declared and its time fits the int64 nanoseconds; the conversion of
  maps keeps every path.\<close>

lemma state_roundtrip:
  assumes "gomap_ok states" and "map_of states p = Some st" and "st_Path st = p"
    and "- (2 ^ 63) \<le> st_ModTime st" and "st_ModTime st < 2 ^ 63" and "\<nexists>w. st_Type st = FileTypeUndeclared w"
  shows "map_option fromInternalState (map_of (toInternalStates states) p) = Some st"
proof -
  have "fileTypeFromInternal (internalTypeFromPublic (st_Type st)) = st_Type st"
    using assms(6) by (cases "st_Type st") auto
  then show ?thesis
    using assms UnixNano_inverse [OF assms(4,5)]
    by (cases "st_ID st") (simp add: map_of_toInternalStates fromInternalState_def to_internal_def newFileID_def)
qed

end
