(* ===== verification/Pending_Resume.thy ===== *)
theory Pending_Resume
  imports Tracker_State Event_Conversion
begin

text \<open>
  The retained generation of a tracker: \<open>deliverPending\<close> and \<open>resumePending\<close> of
  \<open>reconcile.go\<close>, \<open>resumePendingIntegrity\<close> of \<open>integrity.go\<close>, and the commit of a
  generation to the snapshot store, which \<open>reconcileScopes\<close> and \<open>resumePending\<close> share up to
  the wrapping of errors. The times that the code reads from the clock are arguments, and so are
  the contexts of the calls it makes.
\<close>

section \<open>Contexts of one run\<close>

datatype ctx_use =
    UseWalk string | UseScan string | UseGet | UseApply | UseDelete string | UsePut string
  | UseActual | UsePrevious | UseReplace

section \<open>Operations\<close>

definition deliverPending :: "('s, 'k, 'b) Tracker \<Rightarrow> GoError option \<times> ('s, 'k, 'b) Tracker" where
  "deliverPending t =
     (case t_pending t of
        None \<Rightarrow> (None, t)
      | Some p \<Rightarrow>
          (case cf_ChangeSink (t_config t) of
             None \<Rightarrow> (None, t)
           | Some sink \<Rightarrow>
               (case deliver (Some sink) (pg_sessionID p) (pg_generation p) (cf_ChangeBatchSize (t_config t))
                       (pg_events p) (t_sinkState t) of
                  (err, k) \<Rightarrow> (err, t\<lparr>t_sinkState := k\<rparr>))))"

text \<open>One batch when the store has \<open>Apply\<close>, otherwise operation by operation.\<close>

definition commit_snapshot ::
  "(ctx_use \<Rightarrow> Ctx) \<Rightarrow> (GoError \<Rightarrow> GoError) \<Rightarrow> (string \<Rightarrow> GoError \<Rightarrow> GoError) \<Rightarrow> (string \<Rightarrow> GoError \<Rightarrow> GoError) \<Rightarrow>
   ('s, 'a) SnapshotStore \<Rightarrow> FileState list \<Rightarrow> string list \<Rightarrow> 's \<Rightarrow> GoError option \<times> 's" where
  "commit_snapshot ctx wrapApply wrapDelete wrapPut store puts deletes s =
     (case ss_Apply store of
        Some apply_batch \<Rightarrow>
          (case apply_batch (ctx UseApply) puts deletes s of
             (Some err, s') \<Rightarrow> (Some (wrapApply err), s')
           | (None, s') \<Rightarrow> (None, s'))
      | None \<Rightarrow>
          (case for_each (\<lambda>path s.
                  case ss_Delete store (ctx (UseDelete path)) path s of
                    (Some err, s') \<Rightarrow> (Some (wrapDelete path err), s')
                  | (None, s') \<Rightarrow> (None, s')) deletes s of
             (Some err, s') \<Rightarrow> (Some err, s')
           | (None, s') \<Rightarrow>
               for_each (\<lambda>state s.
                  case ss_Put store (ctx (UsePut (st_Path state))) state s of
                    (Some err, s') \<Rightarrow> (Some (wrapPut (st_Path state) err), s')
                  | (None, s') \<Rightarrow> (None, s')) puts s'))"

definition count_reconcile :: "ReconcileReport \<Rightarrow> trackerStats \<Rightarrow> trackerStats" where
  "count_reconcile report s = s
     \<lparr>ts_reconciliations := ts_reconciliations s + 1,
      ts_filesScanned := ts_filesScanned s + rr_Scanned report,
      ts_missingDetected := ts_missingDetected s + rr_Missing report,
      ts_orphansDetected := ts_orphansDetected s + rr_Orphan report,
      ts_reportEventsTruncated := ts_reportEventsTruncated s + rr_EventsTruncated report\<rparr>"

definition resumePending ::
  "(ctx_use \<Rightarrow> Ctx) \<Rightarrow> Time \<Rightarrow> Time \<Rightarrow> pendingGeneration \<Rightarrow> ('s, 'k, 'b) Tracker \<Rightarrow>
   (ReconcileReport \<times> GoError option) \<times> ('s, 'k, 'b) Tracker" where
  "resumePending ctx started elapsed p t0 =
     (let report = (pg_report p)\<lparr>rr_StartedAt := started, rr_Duration := elapsed\<rparr> in
      case deliverPending t0 of
        (Some err, t) \<Rightarrow> ((report, Some err), t)
      | (None, t) \<Rightarrow>
          (case commit_snapshot ctx (\<lambda>e. e) (\<lambda>_ e. e) (\<lambda>_ e. e) (t_store t) (pg_puts p) (pg_deletes p) (t_snapshot t) of
             (Some err, s) \<Rightarrow> ((report, Some err), t\<lparr>t_snapshot := s\<rparr>)
           | (None, s) \<Rightarrow>
               ((report, None),
                setConsistentState
                  (t\<lparr>t_snapshot := s, t_pending := None, t_generation := pg_generation p,
                     t_stats := count_reconcile report (t_stats t)\<rparr>))))"

definition count_integrity :: "IntegrityReport \<Rightarrow> trackerStats \<Rightarrow> trackerStats" where
  "count_integrity report s = s
     \<lparr>ts_integrityScanned := ts_integrityScanned s + ig_Scanned report,
      ts_corruptDetected := ts_corruptDetected s + ig_Corrupt report,
      ts_reportEventsTruncated := ts_reportEventsTruncated s + ig_EventsTruncated report\<rparr>"

definition resumePendingIntegrity ::
  "('s, 'k, 'b) Tracker \<Rightarrow> (IntegrityReport \<times> GoError option) \<times> ('s, 'k, 'b) Tracker" where
  "resumePendingIntegrity t =
     (case t_pending t of
        None \<Rightarrow> ((zero_integrity, Some (ErrMsg ''fsrecon: no pending integrity generation'')), t)
      | Some p \<Rightarrow>
          (case pg_integrity p of
             None \<Rightarrow> ((zero_integrity, Some (ErrMsg ''fsrecon: no pending integrity generation'')), t)
           | Some report \<Rightarrow>
               (case deliver (cf_ChangeSink (t_config t)) (pg_sessionID p) (pg_generation p)
                       (cf_ChangeBatchSize (t_config t)) (pg_events p) (t_sinkState t) of
                  (Some err, k) \<Rightarrow> ((report, Some err), t\<lparr>t_sinkState := k\<rparr>)
                | (None, k) \<Rightarrow>
                    ((report, None),
                     fold sendEvent (ig_Events report)
                       (t\<lparr>t_sinkState := k, t_pending := None, t_generation := pg_generation p,
                          t_stats := count_integrity report (t_stats t)\<rparr>)))))"

section \<open>Lemmas\<close>

text \<open>
  The commit on any store that meets the laws, with or without \<open>Apply\<close>.
\<close>

context snapshot_kv
begin

lemma commit_law:
  assumes "invar s" and "list_all admissible puts" and "list_all canonical deletes"
    and "ss_Put store = put" and "ss_Delete store = delete" and "ss_Apply store = None \<or> ss_Apply store = Some batch"
    and "commit_snapshot ctx wa wd wp store puts deletes s = (None, s')"
  shows "invar s' \<and> lookup s' = apply_map puts deletes (lookup s)"
proof (cases "ss_Apply store")
  case (Some ap)
  with assms(6,7) have "batch (ctx UseApply) puts deletes s = (None, s')"
    by (auto simp: commit_snapshot_def split: prod.splits option.splits)
  with batch_lookup [OF assms(1-3) this] batch_invar [OF assms(1-3), of "ctx UseApply"] show ?thesis by simp
next
  case None
  with assms(4,5,7) obtain s1 where
    d: "for_each (\<lambda>p s. case delete (ctx (UseDelete p)) p s of (Some e, s') \<Rightarrow> (Some (wd p e), s') | (None, s') \<Rightarrow> (None, s')) deletes s = (None, s1)"
    and p: "for_each (\<lambda>st s. case put (ctx (UsePut (st_Path st))) st s of (Some e, s') \<Rightarrow> (Some (wp (st_Path st) e), s') | (None, s') \<Rightarrow> (None, s')) puts s1 = (None, s')"
    by (auto simp: commit_snapshot_def split: prod.splits option.splits)
  note del = delete_loop [OF assms(1,3) d]
  with put_loop [OF _ assms(2) p] show ?thesis by (simp add: apply_map_def)
qed

lemma commit_batch_error:
  assumes "invar s" and "list_all admissible puts" and "list_all canonical deletes"
    and "ss_Apply store = Some batch" and "commit_snapshot ctx wa wd wp store puts deletes s = (Some err, s')"
  shows "invar s' \<and> lookup s' = lookup s"
proof -
  obtain e where "batch (ctx UseApply) puts deletes s = (Some e, s')"
    using assms(4,5) by (auto simp: commit_snapshot_def split: prod.splits option.splits)
  with batch_lookup [OF assms(1-3) this] batch_invar [OF assms(1-3), of "ctx UseApply"] show ?thesis by simp
qed

end

lemma memory_store_ops [simp]:
  "ss_Get memory_store = ms_Get" "ss_Put memory_store = ms_Put" "ss_Delete memory_store = ms_Delete"
  "ss_Apply memory_store = Some ms_Apply" "ss_WalkScope memory_store = Some ms_WalkScope"
  by (simp_all add: memory_store_def)

lemma deliverPending_keeps:
  assumes "deliverPending t = (err, t')"
  shows "t_pending t' = t_pending t" "t_snapshot t' = t_snapshot t" "t_generation t' = t_generation t"
    "t_store t' = t_store t" "t_watchTree t' = t_watchTree t" "t_closed t' = t_closed t" "t_events t' = t_events t"
    "t_config t' = t_config t" "t_root t' = t_root t"
  using assms by (auto simp: deliverPending_def split: option.splits prod.splits)

lemma deliverPending_offer:
  assumes "t_pending t = Some p" and "cf_ChangeSink (t_config t) = Some sink" and "cf_ChangeBatchSize (t_config t) = int n" and "0 < n"
    and "deliverPending t = (err, t')"
  shows "(err = None, t_sinkState t') = offer sink (batches (pg_sessionID p) (pg_generation p) n (pg_events p)) (t_sinkState t)"
  using assms deliver_offer [OF assms(4), of sink "pg_sessionID p" "pg_generation p" "pg_events p" "t_sinkState t"]
  by (auto simp: deliverPending_def split: prod.splits)

section \<open>Properties\<close>

definition writes_canonical :: "pendingGeneration \<Rightarrow> bool" where
  "writes_canonical p = (list_all (\<lambda>st. canonical (st_Path st)) (pg_puts p) \<and> list_all canonical (pg_deletes p))"

text \<open>C7: a retained generation is frozen until it is complete. Resuming it offers the sink the
  same numbered batches of the retained events, whatever the file system looks like by now. If
  the sink refuses a batch or the snapshot commit fails, the generation stays retained with the
  same content, the generation counter does not move and the snapshot is as before; if all
  succeeds, the snapshot has the retained writes, the counter is the retained generation and
  nothing is retained any more.\<close>

theorem resume_replays_generation:
  assumes "t_pending t = Some p" and "cf_ChangeSink (t_config t) = Some sink"
    and "cf_ChangeBatchSize (t_config t) = int n" and "0 < n" and "t_store t = memory_store"
    and "store_ok (t_snapshot t)" and "writes_canonical p"
    and "resumePending ctx started elapsed p t = ((report, err), t')"
  shows "(let attempt = offer sink (batches (pg_sessionID p) (pg_generation p) n (pg_events p)) (t_sinkState t) in
      t_sinkState t' = snd attempt \<and> (err = None \<longrightarrow> fst attempt)) \<and> store_ok (t_snapshot t') \<and>
    (err = None \<longrightarrow> ms_lookup (t_snapshot t') = apply_map (pg_puts p) (pg_deletes p) (ms_lookup (t_snapshot t)) \<and>
       t_generation t' = pg_generation p \<and> t_pending t' = None) \<and>
    (err \<noteq> None \<longrightarrow> ms_lookup (t_snapshot t') = ms_lookup (t_snapshot t) \<and>
       t_generation t' = t_generation t \<and> t_pending t' = Some p)"
proof -
  have w: "list_all (\<lambda>st. canonical (st_Path st)) (pg_puts p)" "list_all canonical (pg_deletes p)"
    using assms(7) by (auto simp: writes_canonical_def)
  obtain e t1 where d: "deliverPending t = (e, t1)" by fastforce
  have off: "offer sink (batches (pg_sessionID p) (pg_generation p) n (pg_events p)) (t_sinkState t) = (e = None, t_sinkState t1)"
    using deliverPending_offer [OF assms(1-4) d] by simp
  have keep: "t_pending t1 = t_pending t" "t_snapshot t1 = t_snapshot t" "t_generation t1 = t_generation t" "t_store t1 = memory_store"
    using deliverPending_keeps [OF d] assms(5) by simp_all
  obtain e2 s2 where c: "commit_snapshot ctx (\<lambda>e. e) (\<lambda>_ e. e) (\<lambda>_ e. e)
      (memory_store :: (MemoryStore, FileState gomap) SnapshotStore) (pg_puts p) (pg_deletes p) (t_snapshot t) = (e2, s2)"
    by fastforce
  have ok: "e2 = None \<Longrightarrow> store_ok s2 \<and> ms_lookup s2 = apply_map (pg_puts p) (pg_deletes p) (ms_lookup (t_snapshot t))"
    using memory.commit_law [OF assms(6) w, of memory_store ctx] c by simp
  have bad: "e2 \<noteq> None \<Longrightarrow> store_ok s2 \<and> ms_lookup s2 = ms_lookup (t_snapshot t)"
    using memory.commit_batch_error [OF assms(6) w memory_store_ops(4)] c by (metis option.exhaust)
  show ?thesis
  proof (cases e)
    case (Some x)
    with assms(1,6,8) d off keep show ?thesis by (auto simp: resumePending_def Let_def)
  next
    case None
    with assms(1,8) d off keep c ok bad show ?thesis
      by (cases e2) (auto simp: resumePending_def Let_def)
  qed
qed

definition ex_pending :: pendingGeneration where
  "ex_pending = \<lparr>pg_kind = pendingReconcile, pg_sessionID = ''s'', pg_generation = 5, pg_report = zero_report,
     pg_events = map ex_event [''/w/a'', ''/w/b''], pg_puts = [ex_file ''/w/n''], pg_deletes = [''/w/a'', ''/w/b''],
     pg_integrity = None\<rparr>"

definition ex_sink_config :: "(ChangeBatch list \<Rightarrow> ChangeBatch \<Rightarrow> GoError option) \<Rightarrow> (MemoryStore, ChangeBatch list) Config" where
  "ex_sink_config fails = \<lparr>cf_Root = ''/w'', cf_Recursive = True, cf_Expected = None, cf_ExpectedScope = ExpectedRegularFiles,
     cf_ChangeSink = Some (log_sink fails), cf_Integrity = None, cf_Store = None, cf_Filter = None,
     cf_SymlinkPolicy = IgnoreSymlinks, cf_HardlinkPolicy = AllowHardlinks, cf_DebounceWindow = 1,
     cf_ReconcileInterval = 0, cf_EventBuffer = 4, cf_ReportEventLimit = 4, cf_ChangeBatchSize = 1\<rparr>"

definition ex_sink_tracker :: "(ChangeBatch list \<Rightarrow> ChangeBatch \<Rightarrow> GoError option) \<Rightarrow> (MemoryStore, ChangeBatch list, unit) Tracker" where
  "ex_sink_tracker fails = \<lparr>t_config = ex_sink_config fails, t_root = ''/w'',
     t_store = memory_store, t_snapshot = fold put_entry [ex_file ''/w/a'', ex_file ''/w/b''] NewMemoryStore,
     t_sinkState = [], t_state = StateDirty, t_started = False,
     t_closed = False, t_backendHealthy = False, t_sessionID = ''s'', t_backendOps = ex_backend_ops, t_backend = (),
     t_watchTree = None, t_events = make_chan 4, t_errors = make_chan 16, t_channelsClosed = False,
     t_stats = zero_stats, t_generation = 4, t_pending = Some ex_pending, t_dirtyPending = False\<rparr>"

lemma ex_sink_snapshot_ok: "store_ok (t_snapshot (ex_sink_tracker fails))"
proof -
  have "list_all (\<lambda>st. canonical (st_Path st)) [ex_file ''/w/a'', ex_file ''/w/b'']" by code_simp
  from fold_put_entry [OF store_ok_New this] show ?thesis by (simp add: ex_sink_tracker_def)
qed

theorem resume_replays_generation_witness:
  "writes_canonical ex_pending \<and> store_ok (t_snapshot (ex_sink_tracker (\<lambda>_ _. None))) \<and>
   (case resumePending (\<lambda>_. background) 1 2 ex_pending (ex_sink_tracker (\<lambda>_ _. None)) of ((report, err), t') \<Rightarrow>
      err = None \<and> t_pending t' = None \<and> t_generation t' = 5 \<and>
      map (\<lambda>b. (cb_Sequence b, cb_Final b, map ev_Path (cb_Events b))) (t_sinkState t') =
        [(0, False, [''/w/a'']), (1, True, [''/w/b''])])"
proof -
  let ?t = "ex_sink_tracker (\<lambda>_ _. None)"
  have h: "t_pending ?t = Some ex_pending" "cf_ChangeSink (t_config ?t) = Some (log_sink (\<lambda>_ _. None))"
    "cf_ChangeBatchSize (t_config ?t) = int 1" "0 < (1 :: nat)" "t_store ?t = memory_store"
    by (simp_all add: ex_sink_tracker_def ex_sink_config_def)
  have w: "writes_canonical ex_pending" by code_simp
  obtain report err t' where r: "resumePending (\<lambda>_. background) 1 2 ex_pending ?t = ((report, err), t')"
    by (metis surj_pair)
  have v: "case resumePending (\<lambda>_. background) 1 2 ex_pending ?t of ((report, err), t') \<Rightarrow> err = None \<and>
      map (\<lambda>b. (cb_Sequence b, cb_Final b, map ev_Path (cb_Events b))) (t_sinkState t') =
        [(0, False, [''/w/a'']), (1, True, [''/w/b''])]" by code_simp
  have "pg_generation ex_pending = 5" by (simp add: ex_pending_def)
  with resume_replays_generation [OF h ex_sink_snapshot_ok w r] v w r ex_sink_snapshot_ok show ?thesis by simp
qed

end
