(* ===== verification/Expected_Load.thy ===== *)
theory Expected_Load
  imports Tracker_State Event_Conversion
begin

text \<open>
  The expected state of \<open>reconcile.go\<close>: \<open>expectedPath\<close>, \<open>expectedRootCanBeExpected\<close> and
  \<open>loadExpectedScopes\<close>. The provider belongs to the application: it hands its entries to the
  callback until the callback fails, and returns that error, or its own error at the end.
\<close>

section \<open>Operations\<close>

definition expectedPath :: "string \<Rightarrow> string \<Rightarrow> GoError + string" where
  "expectedPath root path0 =
     (if blank path0 then Inl (ErrMsg ''fsrecon: expected path is empty'')
      else
        let path = Clean (if \<not> IsAbs path0 then Join root path0 else path0) in
        (case Rel root path of
           None \<Rightarrow> Inl (ErrMsg (''fsrecon: expected path '' @ quote path @ '' is outside root''))
         | Some rel \<Rightarrow>
             if rel = ''..'' \<or> strings_HasPrefix rel ''../''
             then Inl (ErrMsg (''fsrecon: expected path '' @ quote path @ '' is outside root''))
             else Inr path))"

definition expectedRootCanBeExpected ::
  "(string \<Rightarrow> GoError + FileInfo) \<Rightarrow> Ctx \<Rightarrow> ('s, 'k, 'b) Tracker \<Rightarrow> GoError + bool" where
  "expectedRootCanBeExpected lstat ctx t =
     (case lstat (t_root t) of
        Inr info \<Rightarrow> Inr (\<not> IsDir (fi_Mode info))
      | Inl err \<Rightarrow>
          if \<not> errors_Is err ErrNotExist then Inl err
          else
            (case ss_Get (t_store t) ctx (t_snapshot t) (t_root t) of
               Inl err \<Rightarrow> Inl err
             | Inr None \<Rightarrow> Inr True
             | Inr (Some state) \<Rightarrow> Inr (st_Type state \<noteq> FileTypeDirectory)))"

text \<open>The closure \<open>consume\<close>: what one entry does to the map of expected entries.\<close>

definition filter_rejects :: "('s, 'k) Config \<Rightarrow> string \<Rightarrow> ExpectedEntry \<Rightarrow> bool" where
  "filter_rejects config path entry =
     (case cf_Filter config of
        None \<Rightarrow> False
      | Some keep \<Rightarrow>
          \<not> keep path (zero_FileState\<lparr>st_Path := path,
               st_Type := (case ee_Type entry of
                  Some ty \<Rightarrow> ty
                | None \<Rightarrow> if cf_ExpectedScope config = ExpectedRegularFiles then FileTypeRegular else FileTypeUnknown)\<rparr>))"

definition expected_in_scope :: "string \<Rightarrow> bool \<Rightarrow> string list \<Rightarrow> string \<Rightarrow> ExpectedEntry \<Rightarrow> bool" where
  "expected_in_scope root rootExpectedAllowed scopes path entry =
     (if path = root then ee_Type entry \<noteq> None \<or> rootExpectedAllowed
      else list_ex (\<lambda>scope. pathHasPrefix path scope) scopes)"

definition expected_type :: "('s, 'k) Config \<Rightarrow> ExpectedEntry \<Rightarrow> FileType option" where
  "expected_type config entry =
     (if ee_Type entry = None \<and> cf_ExpectedScope config = ExpectedRegularFiles then Some FileTypeRegular
      else ee_Type entry)"

definition consume ::
  "('s, 'k) Config \<Rightarrow> string \<Rightarrow> bool \<Rightarrow> string list \<Rightarrow> ExpectedEntry \<Rightarrow> Expected gomap \<Rightarrow> GoError option \<times> Expected gomap" where
  "consume config root rootExpectedAllowed scopes entry expected =
     (case expectedPath root (ee_Path entry) of
        Inl err \<Rightarrow> (Some err, expected)
      | Inr path \<Rightarrow>
          if filter_rejects config path entry then (None, expected)
          else if \<not> expected_in_scope root rootExpectedAllowed scopes path entry then (None, expected)
          else (None, AList.update path
                  \<lparr>x_Path = path, x_Type = map_option internalTypeFromPublic (expected_type config entry),
                   x_Size = ee_Size entry, x_Fingerprint = ee_Fingerprint entry\<rparr> expected))"

definition provide ::
  "ExpectedEntry list \<times> GoError option \<Rightarrow> (ExpectedEntry \<Rightarrow> 'a \<Rightarrow> GoError option \<times> 'a) \<Rightarrow> 'a \<Rightarrow> GoError option \<times> 'a" where
  "provide stream fn a =
     (case for_each fn (fst stream) a of
        (Some err, a') \<Rightarrow> (Some err, a')
      | (None, a') \<Rightarrow> (snd stream, a'))"

definition loadExpectedScopes ::
  "(string \<Rightarrow> GoError + FileInfo) \<Rightarrow> Ctx \<Rightarrow> ('s, 'k, 'b) Tracker \<Rightarrow> string list \<Rightarrow> GoError + Expected gomap option" where
  "loadExpectedScopes lstat ctx t scopes =
     (case cf_Expected (t_config t) of
        None \<Rightarrow> Inr None
      | Some provider \<Rightarrow>
          (case expectedRootCanBeExpected lstat ctx t of
             Inl err \<Rightarrow> Inl (ErrWrap ''fsrecon: inspect expected root: '' err [])
           | Inr rootExpectedAllowed \<Rightarrow>
               let fn = consume (t_config t) (t_root t) rootExpectedAllowed scopes;
                   result =
                     (case ep_WalkExpectedScope provider of
                        Some walk \<Rightarrow> for_each (\<lambda>scope. provide (walk (t_root t) scope) fn) scopes []
                      | None \<Rightarrow> provide (ep_WalkExpected provider (t_root t)) fn [])
               in (case result of
                     (Some err, _) \<Rightarrow> Inl (ErrWrap ''fsrecon: walk expected state: '' err [])
                   | (None, expected) \<Rightarrow> Inr (Some expected))))"

definition loadExpected ::
  "(string \<Rightarrow> GoError + FileInfo) \<Rightarrow> Ctx \<Rightarrow> ('s, 'k, 'b) Tracker \<Rightarrow> GoError + Expected gomap option" where
  "loadExpected lstat ctx t = loadExpectedScopes lstat ctx t [t_root t]"

section \<open>Lemmas\<close>

lemma expectedPath_within:
  assumes "canonical root" and "expectedPath root p = Inr path"
  shows "canonical path \<and> prefix (elems root) (elems path)"
proof -
  let ?p = "if \<not> IsAbs p then Join root p else p"
  have abs: "IsAbs ?p" using canonical_IsAbs [OF assms(1)] by (simp add: IsAbs_Join)
  have path: "path = Clean ?p" and rel: "case Rel root path of None \<Rightarrow> False
      | Some r \<Rightarrow> r \<noteq> ''..'' \<and> \<not> strings_HasPrefix r ''../''"
    using assms(2) by (auto simp: expectedPath_def Let_def split: if_splits option.splits)
  have c: "canonical path" using abs path by (simp add: canonical_Clean)
  have "within root path"
    using rel by (auto simp: within_def startsWithParent_def strings_HasPrefix_def numeral_3_eq_3 split: option.splits)
  then show ?thesis using c assms(1) by (simp add: within_canonical)
qed

definition expected_good :: "string \<Rightarrow> string list \<Rightarrow> string \<Rightarrow> Expected \<Rightarrow> bool" where
  "expected_good root scopes p x = (x_Path x = p \<and> canonical p \<and> prefix (elems root) (elems p) \<and>
     (p = root \<or> list_ex (\<lambda>scope. pathHasPrefix p scope) scopes))"

definition expected_ok :: "string \<Rightarrow> string list \<Rightarrow> Expected gomap \<Rightarrow> bool" where
  "expected_ok root scopes m = (gomap_ok m \<and> (\<forall>(p, x) \<in> set m. expected_good root scopes p x))"

lemma consume_ok:
  assumes "canonical root" and "expected_ok root scopes m"
  shows "expected_ok root scopes (snd (consume config root allowed scopes entry m))"
proof (cases "expectedPath root (ee_Path entry)")
  case (Inl err)
  with assms(2) show ?thesis by (simp add: consume_def)
next
  case (Inr path)
  have "expected_good root scopes path \<lparr>x_Path = path, x_Type = ty, x_Size = sz, x_Fingerprint = fp\<rparr>"
    if "expected_in_scope root allowed scopes path entry" for ty sz fp
    using expectedPath_within [OF assms(1) Inr] that by (auto simp: expected_good_def expected_in_scope_def split: if_splits)
  with assms(2) Inr show ?thesis
    by (auto simp: consume_def expected_ok_def split: if_splits dest!: in_set_updateD)
qed

lemma provide_ok:
  assumes "canonical root" and "expected_ok root scopes m"
  shows "expected_ok root scopes (snd (provide stream (consume config root allowed scopes) m))"
proof -
  have "expected_ok root scopes (snd (for_each (consume config root allowed scopes) (fst stream) m))"
    using assms(2) consume_ok [OF assms(1)] by (rule for_each_invariant)
  then show ?thesis by (auto simp: provide_def split: prod.split option.split)
qed

section \<open>Properties\<close>

text \<open>C27: the expected state that a reconciliation compares with is confined: whatever the
  provider streams, every expected entry has a clean path inside the root, recorded under that
  path, and lies in one of the reconciled scopes or is the root itself; an entry outside the root
  or with a blank path makes the load fail instead.\<close>

theorem load_expected_confined:
  assumes "canonical (t_root t)" and "loadExpectedScopes lstat ctx t scopes = Inr (Some m)"
  shows "gomap_ok m \<and> (\<forall>p x. map_of m p = Some x \<longrightarrow>
      x_Path x = p \<and> canonical p \<and> prefix (elems (t_root t)) (elems p) \<and>
      (p = t_root t \<or> list_ex (\<lambda>scope. pathHasPrefix p scope) scopes))"
proof -
  from assms(2) obtain provider where p: "cf_Expected (t_config t) = Some provider"
    by (cases "cf_Expected (t_config t)") (simp_all add: loadExpectedScopes_def)
  with assms(2) obtain allowed where a: "expectedRootCanBeExpected lstat ctx t = Inr allowed"
    by (cases "expectedRootCanBeExpected lstat ctx t") (simp_all add: loadExpectedScopes_def)
  have run: "(case ep_WalkExpectedScope provider of
        Some walk \<Rightarrow> for_each (\<lambda>scope. provide (walk (t_root t) scope) (consume (t_config t) (t_root t) allowed scopes)) scopes []
      | None \<Rightarrow> provide (ep_WalkExpected provider (t_root t)) (consume (t_config t) (t_root t) allowed scopes) []) = (None, m)"
    using assms(2) p a by (auto simp: loadExpectedScopes_def Let_def split: option.splits prod.splits)
  have init: "expected_ok (t_root t) scopes []" by (simp add: expected_ok_def)
  have "expected_ok (t_root t) scopes (snd (for_each (\<lambda>scope. provide (walk (t_root t) scope)
      (consume (t_config t) (t_root t) allowed scopes)) scopes []))" for walk
    using init provide_ok [OF assms(1)] by (rule for_each_invariant)
  from this [of "the (ep_WalkExpectedScope provider)"]
  have "ep_WalkExpectedScope provider \<noteq> None \<Longrightarrow> expected_ok (t_root t) scopes m" using run by auto
  moreover note provide_ok [OF assms(1) init, of "ep_WalkExpected provider (t_root t)" "t_config t" allowed]
  ultimately have "expected_ok (t_root t) scopes m"
    using run by (cases "ep_WalkExpectedScope provider") simp_all
  then show ?thesis unfolding expected_ok_def expected_good_def by (auto dest: map_of_SomeD)
qed

definition ex_entry :: "string \<Rightarrow> FileType option \<Rightarrow> ExpectedEntry" where
  "ex_entry p ty = \<lparr>ee_Path = p, ee_Type = ty, ee_Size = None, ee_Fingerprint = [1, 2]\<rparr>"

definition ex_provider :: ExpectedProvider where
  "ex_provider = \<lparr>ep_WalkExpected = (\<lambda>root. ([ex_entry ''a/x'' None, ex_entry ''/w/e/b'' (Some FileTypeDirectory)], None)),
     ep_WalkExpectedScope = None\<rparr>"

definition ex_tracker :: "(MemoryStore, unit, unit) Tracker" where
  "ex_tracker = \<lparr>t_config = ex_config\<lparr>cf_Expected := Some ex_provider, cf_Root := ''/w/e''\<rparr>, t_root = ''/w/e'',
     t_store = memory_store, t_snapshot = NewMemoryStore, t_sinkState = (), t_state = StateCreated, t_started = False,
     t_closed = False, t_backendHealthy = False, t_sessionID = ''s'', t_backendOps = ex_backend_ops, t_backend = (),
     t_watchTree = None, t_events = make_chan 4, t_errors = make_chan 16, t_channelsClosed = False,
     t_stats = zero_stats, t_generation = 0, t_pending = None, t_dirtyPending = False\<rparr>"

definition ex_expected_map :: "Expected gomap" where
  "ex_expected_map = [(''/w/e/a/x'', \<lparr>x_Path = ''/w/e/a/x'', x_Type = Some TypeRegular, x_Size = None, x_Fingerprint = [1, 2]\<rparr>)]"

theorem load_expected_confined_witness:
  "canonical (t_root ex_tracker) \<and>
   loadExpectedScopes (\<lambda>_. Inl ErrNotExist) background ex_tracker [''/w/e/a''] = Inr (Some ex_expected_map) \<and>
   gomap_ok ex_expected_map"
proof -
  have h: "canonical (t_root ex_tracker)" by code_simp
  have r: "loadExpectedScopes (\<lambda>_. Inl ErrNotExist) background ex_tracker [''/w/e/a''] = Inr (Some ex_expected_map)"
    by code_simp
  show ?thesis using h r load_expected_confined [OF h r] by blast
qed

text \<open>An entry that leaves the root makes the load fail.\<close>

lemma expected_outside_fails:
  "expectedPath ''/w/e'' ''../x'' = Inl (ErrMsg (''fsrecon: expected path '' @ quote ''/w/x'' @ '' is outside root''))"
  by code_simp

end
