(* ===== verification/Scope_Set.thy ===== *)
theory Scope_Set
  imports Go_Path
begin

text \<open>
  The abstract specification of a minimal set of subtrees. A scope is a list of path parts; a
  set of scopes covers a path when one of its scopes is a prefix of it. Adding a scope to a set
  keeps the set when the scope is covered, and otherwise inserts it and drops the scopes below
  it. \<open>internal/dirtyset\<close> implements this with a trie and \<open>collapseScopes\<close> of
  \<open>reconcile.go\<close> with a list of paths; the interface they share is the locale
  \<open>scope_collector\<close>.
\<close>

definition covers :: "string list set \<Rightarrow> string list \<Rightarrow> bool" where
  "covers S p = (\<exists>q \<in> S. prefix q p)"

definition add_scope :: "string list \<Rightarrow> string list set \<Rightarrow> string list set" where
  "add_scope p S = (if covers S p then S else insert p {q \<in> S. \<not> prefix p q})"

definition scope_antichain :: "string list set \<Rightarrow> bool" where
  "scope_antichain S = (\<forall>p \<in> S. \<forall>q \<in> S. prefix p q \<longrightarrow> p = q)"

definition minimal_scopes :: "string list set \<Rightarrow> string list set" where
  "minimal_scopes S = {p \<in> S. \<forall>q \<in> S. prefix q p \<longrightarrow> q = p}"

lemma covers_empty [simp]: "\<not> covers {} p"
  by (simp add: covers_def)

lemma scope_antichain_empty [simp]: "scope_antichain {}"
  by (simp add: scope_antichain_def)

lemma add_scope_antichain: "scope_antichain S \<Longrightarrow> scope_antichain (add_scope p S)"
  by (auto simp: scope_antichain_def add_scope_def covers_def)

lemma add_scope_covers: "covers (add_scope p S) q \<longleftrightarrow> covers S q \<or> prefix p q"
  unfolding add_scope_def covers_def by (auto intro: prefix_order.trans)

lemma minimal_scopes_antichain: "scope_antichain S \<Longrightarrow> minimal_scopes S = S"
  by (auto simp: scope_antichain_def minimal_scopes_def)

lemma minimal_scopes_covers:
  assumes "p \<in> S"
  shows "covers (minimal_scopes S) p"
proof -
  have "\<exists>q \<in> S. prefix q p" using assms by blast
  then obtain q where q: "q \<in> S \<and> prefix q p" and
    least: "\<And>r. r \<in> S \<and> prefix r p \<Longrightarrow> length q \<le> length r"
    using ex_has_least_nat [of "\<lambda>q. q \<in> S \<and> prefix q p" _ length] by metis
  have "r = q" if "r \<in> S" and "prefix r q" for r
  proof -
    have "length q \<le> length r" using that q least [of r] by (auto intro: prefix_order.trans)
    with that(2) show ?thesis by (auto simp: prefix_def)
  qed
  with q show ?thesis by (auto simp: covers_def minimal_scopes_def)
qed

lemma add_scope_minimal:
  "add_scope p (minimal_scopes S) = minimal_scopes (insert p S)"
proof (cases "covers S p")
  case True
  then obtain q where q: "q \<in> S" "prefix q p" by (auto simp: covers_def)
  then obtain r where r: "r \<in> minimal_scopes S" "prefix r q"
    using minimal_scopes_covers by (auto simp: covers_def)
  then have "covers (minimal_scopes S) p"
    using q by (auto simp: covers_def intro: prefix_order.trans)
  moreover have "minimal_scopes (insert p S) = minimal_scopes S"
    using q by (auto simp: minimal_scopes_def intro: prefix_order.trans)
  ultimately show ?thesis by (simp add: add_scope_def)
next
  case False
  then have "\<not> covers (minimal_scopes S) p" by (auto simp: covers_def minimal_scopes_def)
  with False show ?thesis
    by (auto simp: add_scope_def minimal_scopes_def covers_def)
qed

text \<open>
  A collector of scopes: a state with an invariant, the set of scopes it holds, and an operation
  that adds a path, which stands for the scope \<open>key\<close> of the path. The laws hold for the
  paths that the collector accepts.
\<close>

locale scope_collector =
  fixes invar :: "'s \<Rightarrow> bool"
    and accepts :: "'a \<Rightarrow> bool"
    and scopes :: "'s \<Rightarrow> string list set"
    and key :: "'a \<Rightarrow> string list"
    and add :: "'a \<Rightarrow> 's \<Rightarrow> 's"
  assumes invar_add: "invar s \<Longrightarrow> accepts p \<Longrightarrow> invar (add p s)"
    and scopes_add: "invar s \<Longrightarrow> accepts p \<Longrightarrow> scopes (add p s) = add_scope (key p) (scopes s)"
begin

lemma invar_fold: "invar s \<Longrightarrow> list_all accepts ps \<Longrightarrow> invar (fold add ps s)"
  by (induction ps arbitrary: s) (simp_all add: invar_add)

lemma scopes_fold: "invar s \<Longrightarrow> list_all accepts ps \<Longrightarrow> scopes (fold add ps s) = fold add_scope (map key ps) (scopes s)"
  by (induction ps arbitrary: s) (simp_all add: invar_add scopes_add)

lemma fold_antichain:
  "invar s \<Longrightarrow> list_all accepts ps \<Longrightarrow> scope_antichain (scopes s) \<Longrightarrow> scope_antichain (scopes (fold add ps s))"
proof (induction ps arbitrary: s)
  case (Cons p ps)
  then show ?case by (simp add: invar_add scopes_add add_scope_antichain)
qed simp

lemma fold_covers:
  "invar s \<Longrightarrow> list_all accepts ps \<Longrightarrow> covers (scopes (fold add ps s)) q \<longleftrightarrow>
     covers (scopes s) q \<or> (\<exists>p \<in> set ps. prefix (key p) q)"
proof (induction ps arbitrary: s)
  case (Cons p ps)
  then show ?case by (auto simp: invar_add scopes_add add_scope_covers)
qed simp

lemma fold_minimal:
  assumes "invar s" and "list_all accepts ps" and "scopes s = minimal_scopes S"
  shows "scopes (fold add ps s) = minimal_scopes (S \<union> key ` set ps)"
  using assms
proof (induction ps arbitrary: s S)
  case (Cons p ps)
  have "scopes (add p s) = minimal_scopes (insert (key p) S)"
    using Cons.prems by (simp add: scopes_add add_scope_minimal)
  from Cons.IH [OF invar_add [OF Cons.prems(1)] _ this] Cons.prems(2) show ?case by simp
qed simp

end

end
