(* ===== verification/Scope_Collapse.thy ===== *)
theory Scope_Collapse
  imports Scope_Set
begin

text \<open>
  \<open>collapseScopes\<close> of \<open>reconcile.go\<close>: a list of requested paths becomes a list of subtrees
  of the root that do not overlap. It meets the laws of \<open>scope_collector\<close> for paths without
  backslash bytes; on others \<open>pathHasPrefix\<close> takes the backslash for a separator.
\<close>

definition collapse_path :: "string \<Rightarrow> string \<Rightarrow> string" where
  "collapse_path root path0 =
     (let path = Clean path0 in if \<not> pathHasPrefix path root then root else path)"

definition collapse_step :: "string \<Rightarrow> string \<Rightarrow> string list \<Rightarrow> string list" where
  "collapse_step root path0 paths =
     (let path = collapse_path root path0 in
      if list_ex (\<lambda>existing. pathHasPrefix path existing) paths then paths
      else filter (\<lambda>existing. \<not> pathHasPrefix existing path) paths @ [path])"

definition collapseScopes :: "string \<Rightarrow> string list \<Rightarrow> string list" where
  "collapseScopes root requested = fold (collapse_step root) requested []"

definition plain :: "string \<Rightarrow> bool" where
  "plain p = (canonical p \<and> no_backslash p)"

definition scopes_ok :: "string \<Rightarrow> string list \<Rightarrow> bool" where
  "scopes_ok root paths =
     (plain root \<and> distinct paths \<and> list_all (\<lambda>p. plain p \<and> prefix (elems root) (elems p)) paths)"

lemma pathHasPrefix_relative:
  assumes "canonical root" and "\<not> IsAbs p"
  shows "\<not> pathHasPrefix p root"
proof -
  have "root \<noteq> []" "hd root = CHR ''/''" using assms(1) by (auto simp: canonical_def IsAbs_def split: list.splits)
  then show ?thesis using assms(2)
    by (cases root; cases p) (auto simp: pathHasPrefix_def strings_HasPrefix_def IsAbs_def)
qed

lemma collapse_path_canonical:
  assumes "canonical root"
  shows "canonical (collapse_path root p)"
proof (cases "IsAbs p")
  case True
  then show ?thesis using assms by (simp add: collapse_path_def Let_def canonical_Clean)
next
  case False
  then show ?thesis using assms pathHasPrefix_relative [of root "Clean p"] by (simp add: collapse_path_def Let_def)
qed

lemma collapseScopes_canonical:
  assumes "canonical root"
  shows "list_all canonical (collapseScopes root requested)"
proof -
  have step: "list_all canonical (collapse_step root p paths)" if "list_all canonical paths" for p paths
    using that collapse_path_canonical [OF assms] by (auto simp: collapse_step_def Let_def list_all_iff)
  have "list_all canonical (fold (collapse_step root) ps paths)" if "list_all canonical paths" for ps paths
    using that by (induction ps arbitrary: paths) (simp_all add: step)
  then show ?thesis by (simp add: collapseScopes_def)
qed

lemma plain_prefix: "plain r \<Longrightarrow> plain p \<Longrightarrow> pathHasPrefix p r \<longleftrightarrow> prefix (elems r) (elems p)"
  by (simp add: plain_def pathHasPrefix_canonical)

lemma collapse_path_plain:
  assumes "plain root" and "no_backslash (Clean p)"
  shows "plain (collapse_path root p)" and "prefix (elems root) (elems (collapse_path root p))"
proof -
  have "plain (collapse_path root p) \<and> prefix (elems root) (elems (collapse_path root p))"
  proof (cases "IsAbs p")
    case True
    then have "plain (Clean p)" using assms(2) by (simp add: plain_def canonical_Clean)
    then show ?thesis using assms(1) by (simp add: collapse_path_def Let_def plain_prefix)
  next
    case False
    then have "\<not> pathHasPrefix (Clean p) root"
      using assms(1) pathHasPrefix_relative IsAbs_Clean by (auto simp: plain_def)
    then show ?thesis using assms(1) by (simp add: collapse_path_def Let_def)
  qed
  then show "plain (collapse_path root p)" and "prefix (elems root) (elems (collapse_path root p))" by auto
qed

lemma plain_inject: "plain p \<Longrightarrow> plain q \<Longrightarrow> elems p = elems q \<longleftrightarrow> p = q"
  using canonical_elems_inject by (auto simp: plain_def)

lemma collapse_step_spec:
  assumes "scopes_ok root paths" and "no_backslash (Clean p)"
  shows "scopes_ok root (collapse_step root p paths)"
    and "elems ` set (collapse_step root p paths) = add_scope (elems (collapse_path root p)) (elems ` set paths)"
proof -
  let ?q = "collapse_path root p"
  have root: "plain root" using assms(1) by (simp add: scopes_ok_def)
  note q = collapse_path_plain [OF root assms(2)]
  have paths: "plain x" if "x \<in> set paths" for x using assms(1) that by (auto simp: scopes_ok_def list_all_iff)
  have pre: "pathHasPrefix ?q x \<longleftrightarrow> prefix (elems x) (elems ?q)" "pathHasPrefix x ?q \<longleftrightarrow> prefix (elems ?q) (elems x)"
    if "x \<in> set paths" for x using paths [OF that] q(1) by (simp_all add: plain_prefix)
  have cov: "list_ex (\<lambda>existing. pathHasPrefix ?q existing) paths \<longleftrightarrow> covers (elems ` set paths) (elems ?q)"
    using pre by (auto simp: list_ex_iff covers_def)
  show "elems ` set (collapse_step root p paths) = add_scope (elems ?q) (elems ` set paths)"
    using pre by (auto simp: collapse_step_def Let_def cov add_scope_def)
  have "?q \<notin> set paths" if "\<not> covers (elems ` set paths) (elems ?q)"
    using that by (auto simp: covers_def)
  then show "scopes_ok root (collapse_step root p paths)"
    using assms(1) q by (auto simp: collapse_step_def Let_def cov scopes_ok_def list_all_iff)
qed

interpretation collapse: scope_collector "scopes_ok root" "\<lambda>p. no_backslash (Clean p)"
  "\<lambda>paths. elems ` set paths" "\<lambda>p. elems (collapse_path root p)" "collapse_step root" for root :: string
  by unfold_locales (simp_all add: collapse_step_spec)

lemma collapseScopes_ok:
  assumes "plain root" and "list_all (\<lambda>p. no_backslash (Clean p)) requested"
  shows "scopes_ok root (collapseScopes root requested)"
  using collapse.invar_fold [OF _ assms(2), of root "[]"] assms(1)
  by (simp add: collapseScopes_def scopes_ok_def)

lemma collapseScopes_canonical_root: "canonical root \<Longrightarrow> collapseScopes root [root] = [root]"
  by (simp add: collapseScopes_def collapse_step_def collapse_path_def Let_def Clean_canonical pathHasPrefix_def)

lemma collapseScopes_root: "plain root \<Longrightarrow> collapseScopes root [root] = [root]"
  by (simp add: plain_def collapseScopes_canonical_root)

section \<open>Properties\<close>

text \<open>C22: the scopes of a reconciliation are the minimal subtrees among the requested paths, a
  path outside the root standing for the root: they are clean, lie in the root, no scope lies in
  another, and every requested path is covered by one of them. This holds for any requested paths without backslash bytes.\<close>

theorem collapse_minimal:
  assumes "plain root" and "list_all (\<lambda>p. no_backslash (Clean p)) requested"
  shows "scopes_ok root (collapseScopes root requested) \<and>
    elems ` set (collapseScopes root requested) =
      minimal_scopes ((\<lambda>p. elems (collapse_path root p)) ` set requested) \<and>
    scope_antichain (elems ` set (collapseScopes root requested)) \<and>
    (\<forall>p \<in> set requested. covers (elems ` set (collapseScopes root requested)) (elems (collapse_path root p)))"
proof -
  have init: "scopes_ok root []" using assms(1) by (simp add: scopes_ok_def)
  have "elems ` set (collapseScopes root requested) =
      minimal_scopes ((\<lambda>p. elems (collapse_path root p)) ` set requested)"
    using collapse.fold_minimal [OF init assms(2), of "{}"] by (simp add: collapseScopes_def minimal_scopes_def)
  moreover have "scope_antichain (elems ` set (collapseScopes root requested))"
    using collapse.fold_antichain [OF init assms(2)] by (simp add: collapseScopes_def)
  moreover have "covers (elems ` set (collapseScopes root requested)) (elems (collapse_path root p))"
    if "p \<in> set requested" for p
    using collapse.fold_covers [OF init assms(2), of "elems (collapse_path root p)"] that
    by (auto simp: collapseScopes_def)
  ultimately show ?thesis using collapseScopes_ok [OF assms] by blast
qed

theorem collapse_minimal_witness:
  "plain ''/r'' \<and> list_all (\<lambda>p. no_backslash (Clean p)) [''/r/a/x'', ''/r/a'', ''/r/b/../a/y'', ''/r/c''] \<and>
   collapseScopes ''/r'' [''/r/a/x'', ''/r/a'', ''/r/b/../a/y'', ''/r/c''] = [''/r/a'', ''/r/c''] \<and>
   scope_antichain (elems ` set [''/r/a'', ''/r/c''])"
proof -
  have h: "plain ''/r''" "list_all (\<lambda>p. no_backslash (Clean p)) [''/r/a/x'', ''/r/a'', ''/r/b/../a/y'', ''/r/c'']"
    by code_simp+
  have v: "collapseScopes ''/r'' [''/r/a/x'', ''/r/a'', ''/r/b/../a/y'', ''/r/c''] = [''/r/a'', ''/r/c'']" by code_simp
  from collapse_minimal [OF h] have "scope_antichain (elems ` set [''/r/a'', ''/r/c''])"
    unfolding v by (elim conjE)
  with h v show ?thesis by (intro conjI)
qed

text \<open>A backslash is an ordinary byte in a Unix file name, yet a scope whose name extends
  another with a backslash is dropped, although the kept scope does not contain it.\<close>

lemma collapse_drops_backslash_sibling:
  "collapseScopes ''/r'' [''/r/a'', ''/r/a'' @ [CHR 0x5C, CHR ''b'']] = [''/r/a''] \<and>
   \<not> within ''/r/a'' (''/r/a'' @ [CHR 0x5C, CHR ''b''])"
  by code_simp

end
