(* ===== verification/Reconcile_Run.thy ===== *)
theory Reconcile_Run
  imports Pending_Resume Expected_Load Scope_Collapse
begin

text \<open>
  \<open>reconcileScopes\<close> of \<open>reconcile.go\<close>, the whole run: resuming a retained generation,
  collapsing the scopes, collecting the previous state, scanning, synchronising the watches,
  loading the expected state, the difference, delivery, commit and publication. It runs under
  \<open>reconcileMu\<close>, so it is one function from tracker to tracker. What the run reads from outside
  is its environment. The fast path for the Bolt store is an argument, \<open>None\<close> for every other
  store. \<open>None\<close> as the result stands for a scan that does not end.
\<close>

section \<open>Environment\<close>

text \<open>
  The contexts of the calls, the answers of \<open>os.Lstat\<close> for a scope, the file system during the
  scan of a scope, \<open>os.Lstat\<close> while the expected state is loaded, the depth bound of the scans,
  the order in which \<open>range\<close> visits the two maps at the end, and the clock.
\<close>

record Env =
  env_ctx :: "ctx_use \<Rightarrow> Ctx"
  env_lstat :: "string \<Rightarrow> GoError + FileInfo"
  env_fs :: "string \<Rightarrow> FS"
  env_rootLstat :: "string \<Rightarrow> GoError + FileInfo"
  env_fuel :: nat
  env_range :: "FileState gomap \<Rightarrow> FileState gomap"
  env_started :: Time
  env_elapsed :: Time
  env_policyTime :: "nat \<Rightarrow> Time"
  env_eventTime :: "nat \<Rightarrow> Time"

section \<open>Previous state\<close>

definition collect_previous ::
  "Env \<Rightarrow> ('s, 'k, 'b) Tracker \<Rightarrow> string list \<Rightarrow> GoError option \<times> FileState gomap" where
  "collect_previous env t scopes =
     for_each (\<lambda>scope previous.
       case walkSnapshotScope (env_ctx env (UseWalk scope)) (t_store t) (t_snapshot t) scope
              (\<lambda>state m. (None, record_state state m)) previous of
         (Some err, m) \<Rightarrow> (Some (ErrWrap (''fsrecon: walk snapshot '' @ quote scope @ '': '') err []), m)
       | (None, m) \<Rightarrow> (None, m)) scopes []"

section \<open>Scan\<close>

record 'b scan_acc =
  sa_previous :: "FileState gomap"
  sa_actual :: "FileState gomap"
  sa_policy :: "Event list"
  sa_observed :: stringset
  sa_tree :: "WatchTree option"
  sa_backend :: 'b
  sa_scanned :: "64 word"

definition observe_directory ::
  "('s, 'k) Config \<Rightarrow> 'b WatchBackend \<Rightarrow> FileState \<Rightarrow> 'b scan_acc \<Rightarrow> GoError option \<times> 'b scan_acc" where
  "observe_directory config backend state acc =
     (if st_Type state = FileTypeDirectory \<and> cf_Recursive config then
        (case (case sa_tree acc of
                 None \<Rightarrow> (None, acc)
               | Some tree \<Rightarrow>
                   (case wt_Add backend (st_Path state) (tree, sa_backend acc) of
                      (err, tree', b') \<Rightarrow>
                        (map_option (\<lambda>e. ErrWrap ''add recursive watch: '' e []) err,
                         acc\<lparr>sa_tree := Some tree', sa_backend := b'\<rparr>))) of
           (Some err, acc') \<Rightarrow> (Some err, acc')
         | (None, acc') \<Rightarrow> (None, acc'\<lparr>sa_observed := AList.update (st_Path state) () (sa_observed acc')\<rparr>))
      else (None, acc))"

definition hardlink_event :: "Env \<Rightarrow> FileState \<Rightarrow> 'b scan_acc \<Rightarrow> Event" where
  "hardlink_event env state acc =
     \<lparr>ev_Kind = EventInvalid, ev_Path = st_Path state, ev_OldPath = [], ev_Before = None, ev_After = Some state,
      ev_Source = SourceReconcile, ev_Time = env_policyTime env (length (sa_policy acc))\<rparr>"

definition record_actual :: "FileState \<Rightarrow> 'b scan_acc \<Rightarrow> 'b scan_acc" where
  "record_actual state acc =
     acc\<lparr>sa_actual := AList.update (st_Path state) state (sa_actual acc), sa_scanned := sa_scanned acc + 1\<rparr>"

definition scan_callback ::
  "Env \<Rightarrow> ('s, 'k) Config \<Rightarrow> 'b WatchBackend \<Rightarrow> Entry \<Rightarrow> 'b scan_acc \<Rightarrow> GoError option \<times> 'b scan_acc" where
  "scan_callback env config backend entry acc0 =
     (let state = stateFromEntry entry in
      case observe_directory config backend state acc0 of
        (Some err, acc) \<Rightarrow> (Some err, acc)
      | (None, acc) \<Rightarrow>
          if st_Type state = FileTypeRegular \<and> en_Links entry > 1 then
            (case cf_HardlinkPolicy config of
               RejectHardlinks \<Rightarrow> (Some (ErrWrap [] ErrHardlink ('': '' @ en_Path entry)), acc)
             | ReportHardlinks \<Rightarrow>
                 (None, record_actual state (acc\<lparr>sa_policy := sa_policy acc @ [hardlink_event env state acc]\<rparr>))
             | _ \<Rightarrow> (None, record_actual state acc))
          else (None, record_actual state acc))"

definition tracker_scanner :: "('s, 'k) Config \<Rightarrow> Scanner" where
  "tracker_scanner config =
     \<lparr>sc_Recursive = cf_Recursive config, sc_SymlinkPolicy = scannerPolicy (cf_SymlinkPolicy config),
      sc_Filter = map_option (\<lambda>keep entry. keep (st_Path (stateFromEntry entry)) (stateFromEntry entry)) (cf_Filter config)\<rparr>"

definition scan_scope ::
  "Env \<Rightarrow> ('s, 'k, 'b) Tracker \<Rightarrow> string \<Rightarrow> 'b scan_acc \<Rightarrow> (GoError option \<times> 'b scan_acc) option" where
  "scan_scope env t scope acc0 =
     (case env_lstat env scope of
        Inl statErr \<Rightarrow>
          if errors_Is statErr ErrNotExist then Some (None, acc0)
          else Some (Some (ErrWrap (''fsrecon: stat scope '' @ quote scope @ '': '') statErr []), acc0)
      | Inr info \<Rightarrow>
          let acc = (if IsDir (fi_Mode info)
                     then acc0\<lparr>sa_previous := AList.delete scope (sa_previous acc0),
                               sa_observed := AList.update scope () (sa_observed acc0)\<rparr>
                     else acc0)
          in (case Scan (tracker_scanner (t_config t)) (env_fs env scope) (env_ctx env (UseScan scope)) (env_fuel env) scope
                     (scan_callback env (t_config t) (t_backendOps t)) acc of
                None \<Rightarrow> None
              | Some (None, acc') \<Rightarrow> Some (None, acc')
              | Some (Some err, acc') \<Rightarrow>
                  if errors_Is err ErrNotExist then Some (None, acc')
                  else
                    let err = (if errors_Is err ScannerErrSymlink
                               then ErrWrap [] ErrSymlink ('': '' @ error_text err) else err)
                    in Some (Some (ErrWrap (''fsrecon: scan '' @ quote scope @ '': '') err []), acc')))"

definition scan_scopes ::
  "Env \<Rightarrow> ('s, 'k, 'b) Tracker \<Rightarrow> string list \<Rightarrow> FileState gomap \<Rightarrow> (GoError option \<times> 'b scan_acc) option" where
  "scan_scopes env t scopes previous =
     entry_loop (scan_scope env t) scopes
       \<lparr>sa_previous = previous, sa_actual = [], sa_policy = [], sa_observed = [(t_root t, ())],
        sa_tree = t_watchTree t, sa_backend = t_backend t, sa_scanned = 0\<rparr>"

section \<open>Difference and report\<close>

definition orphan_eligible :: "('s, 'k) Config \<Rightarrow> State \<Rightarrow> bool" where
  "orphan_eligible config state =
     (cf_ExpectedScope config = ExpectedAllEntries \<or> fileTypeFromInternal (i_Type state) = FileTypeRegular)"

definition emit_change ::
  "Env \<Rightarrow> ('s, 'k) Config \<Rightarrow> Change \<Rightarrow> ReconcileReport \<times> Event list \<Rightarrow> GoError option \<times> ReconcileReport \<times> Event list" where
  "emit_change env config ch acc =
     (case acc of (report, allEvents) \<Rightarrow>
        (case eventFromChange (env_eventTime env (length allEvents)) ch of
           Inl err \<Rightarrow> (Some err, report, allEvents)
         | Inr event \<Rightarrow> (None, report_event (cf_ReportEventLimit config) event report, allEvents @ [event])))"

definition reconcile_events ::
  "Env \<Rightarrow> ('s, 'k) Config \<Rightarrow> FileState gomap \<Rightarrow> FileState gomap \<Rightarrow> Expected gomap option \<Rightarrow> Event list \<Rightarrow>
   ReconcileReport \<Rightarrow> GoError option \<times> ReconcileReport \<times> Event list" where
  "reconcile_events env config previous actual expected policyEvents report =
     (case WalkDiffScoped (toInternalStates previous) (toInternalStates actual) expected (Some (orphan_eligible config))
             (emit_change env config) (report, []) of
        (Some err, acc) \<Rightarrow> (Some err, acc)
      | (None, report', allEvents) \<Rightarrow>
          (None, fold (report_event (cf_ReportEventLimit config)) policyEvents report', allEvents @ policyEvents))"

definition healthy_count :: "FileState gomap \<Rightarrow> Expected gomap option \<Rightarrow> ReconcileReport \<Rightarrow> 64 word" where
  "healthy_count actual expected report =
     (case expected of
        Some ex \<Rightarrow>
          fold (\<lambda>(path, entry) n.
            case map_of actual path of
              None \<Rightarrow> n
            | Some state \<Rightarrow>
                if (case x_Type entry of None \<Rightarrow> True | Some ty \<Rightarrow> internalTypeFromPublic (st_Type state) = ty) \<and>
                   (case x_Size entry of None \<Rightarrow> True | Some sz \<Rightarrow> st_Size state = sz)
                then n + 1 else n) ex (rr_Healthy report)
      | None \<Rightarrow> of_nat (length actual) - rr_Created report - rr_Modified report - rr_Replaced report)"

section \<open>The run\<close>

type_synonym ('s, 'k, 'b) run_result = "(ReconcileReport \<times> GoError option) \<times> ('s, 'k, 'b) Tracker"

definition reconcile_fail ::
  "Env \<Rightarrow> ReconcileReport \<Rightarrow> GoError \<Rightarrow> ('s, 'k, 'b) Tracker \<Rightarrow> ('s, 'k, 'b) run_result" where
  "reconcile_fail env report err t = ((report\<lparr>rr_Duration := env_elapsed env\<rparr>, Some err), markDirty t)"

definition wrapApply :: "GoError \<Rightarrow> GoError" where
  "wrapApply err = ErrWrap ''fsrecon: apply snapshot batch: '' err []"

definition wrapDelete :: "string \<Rightarrow> GoError \<Rightarrow> GoError" where
  "wrapDelete path err = ErrWrap (''fsrecon: delete snapshot '' @ quote path @ '': '') err []"

definition wrapPut :: "string \<Rightarrow> GoError \<Rightarrow> GoError" where
  "wrapPut path err = ErrWrap (''fsrecon: put snapshot '' @ quote path @ '': '') err []"

text \<open>From the computed changes on: retain the generation, deliver, commit, publish.\<close>

definition finish_reconcile ::
  "Env \<Rightarrow> FileState gomap \<Rightarrow> FileState gomap \<Rightarrow> Expected gomap option \<Rightarrow> ReconcileReport \<Rightarrow> Event list \<Rightarrow>
   ('s, 'k, 'b) Tracker \<Rightarrow> ('s, 'k, 'b) run_result" where
  "finish_reconcile env previous actual expected report allEvents t0 =
     (let deletes = map fst (filter (\<lambda>(path, _). map_of actual path = None) (env_range env previous));
          puts = map snd (env_range env actual);
          t1 = (if cf_ChangeSink (t_config t0) \<noteq> None
                then t0\<lparr>t_pending := Some \<lparr>pg_kind = pendingReconcile, pg_sessionID = t_sessionID t0,
                         pg_generation = rr_Generation report, pg_report = report, pg_events = cloneEvents allEvents,
                         pg_puts = puts, pg_deletes = deletes, pg_integrity = None\<rparr>\<rparr>
                else t0)
      in case (if cf_ChangeSink (t_config t1) \<noteq> None then deliverPending t1 else (None, t1)) of
           (Some err, t2) \<Rightarrow> reconcile_fail env report err t2
         | (None, t2) \<Rightarrow>
             (case commit_snapshot (env_ctx env) wrapApply wrapDelete wrapPut (t_store t2) puts deletes (t_snapshot t2) of
                (Some err, s) \<Rightarrow> reconcile_fail env report err (t2\<lparr>t_snapshot := s\<rparr>)
              | (None, s) \<Rightarrow>
                  let report = report\<lparr>rr_Healthy := healthy_count actual expected report, rr_Duration := env_elapsed env\<rparr>;
                      t3 = setConsistentState
                        (t2\<lparr>t_snapshot := s, t_pending := None, t_stats := count_reconcile report (t_stats t2),
                            t_generation := rr_Generation report\<rparr>)
                  in ((report, None), fold sendEvent (rr_Events report) t3)))"

text \<open>The watches of the scopes follow the directories that the scan observed.\<close>

definition sync_watches ::
  "string list \<Rightarrow> stringset \<Rightarrow> ('s, 'k, 'b) Tracker \<Rightarrow> GoError option \<times> ('s, 'k, 'b) Tracker" where
  "sync_watches scopes observedDirectories t =
     (case (if cf_Recursive (t_config t) then t_watchTree t else None) of
        None \<Rightarrow> (None, t)
      | Some tree \<Rightarrow>
          (case wt_Sync (t_backendOps t) scopes observedDirectories (tree, t_backend t) of
             (err, tree', b') \<Rightarrow>
               (map_option (\<lambda>e. ErrWrap ''fsrecon: sync recursive watches: '' e []) err,
                t\<lparr>t_watchTree := Some tree', t_backend := b'\<rparr>)))"

definition reconcile_generic ::
  "Env \<Rightarrow> string list \<Rightarrow> ReconcileReport \<Rightarrow> ('s, 'k, 'b) Tracker \<Rightarrow> ('s, 'k, 'b) run_result option" where
  "reconcile_generic env scopes report t =
     (case collect_previous env t scopes of
        (Some err, _) \<Rightarrow> Some (reconcile_fail env report err t)
      | (None, previous) \<Rightarrow>
     (case scan_scopes env t scopes previous of
        None \<Rightarrow> None
      | Some (scanErr, acc) \<Rightarrow>
          let t = t\<lparr>t_watchTree := sa_tree acc, t_backend := sa_backend acc\<rparr>;
              report = report\<lparr>rr_Scanned := sa_scanned acc\<rparr>
          in (case scanErr of
                Some err \<Rightarrow> Some (reconcile_fail env report err t)
              | None \<Rightarrow>
          (case sync_watches scopes (sa_observed acc) t of
             (Some err, t) \<Rightarrow> Some (reconcile_fail env report err t)
           | (None, t) \<Rightarrow>
          (case loadExpectedScopes (env_rootLstat env) (env_ctx env UseGet) t scopes of
             Inl err \<Rightarrow> Some (reconcile_fail env report err t)
           | Inr expected \<Rightarrow>
          (case reconcile_events env (t_config t) (sa_previous acc) (sa_actual acc) expected (sa_policy acc) report of
             (Some err, report, _) \<Rightarrow> Some (reconcile_fail env report err t)
           | (None, report, allEvents) \<Rightarrow>
               Some (finish_reconcile env (sa_previous acc) (sa_actual acc) expected report allEvents t)))))))"

text \<open>
  \<open>reconcileScopes\<close> on a non-nil context. \<open>bolt\<close> is the fast path of \<open>reconcile_bolt.go\<close> when
  the store is a \<open>BoltStore\<close>.
\<close>

definition reconcileScopes ::
  "(ReconcileReport \<Rightarrow> ('s, 'k, 'b) Tracker \<Rightarrow> ('s, 'k, 'b) run_result option) option \<Rightarrow> Env \<Rightarrow> string list \<Rightarrow>
   ('s, 'k, 'b) Tracker \<Rightarrow> ('s, 'k, 'b) run_result option" where
  "reconcileScopes bolt env requested t0 =
     (if t_closed t0 then Some ((zero_report, Some ErrClosed), t0)
      else
        let start = (\<lambda>t.
          let t = setState StateReconciling t;
              report = zero_report\<lparr>rr_StartedAt := env_started env, rr_Generation := t_generation t + 1\<rparr>;
              scopes = collapseScopes (t_root t) requested
          in if scopes = [] then
               Some ((report\<lparr>rr_Duration := env_elapsed env\<rparr>, None),
                     setConsistentState (t\<lparr>t_generation := rr_Generation report\<rparr>))
             else
               (case bolt of
                  Some fast \<Rightarrow>
                    if cf_ChangeSink (t_config t) = None \<and> length scopes = 1 \<and> scopes ! 0 = t_root t
                    then fast report t else reconcile_generic env scopes report t
                | None \<Rightarrow> reconcile_generic env scopes report t))
        in (case t_pending t0 of
              None \<Rightarrow> start t0
            | Some p \<Rightarrow>
                if pg_kind p = pendingIntegrity then
                  (case resumePendingIntegrity t0 of
                     ((_, Some err), t) \<Rightarrow> Some ((zero_report, Some err), t)
                   | ((_, None), t) \<Rightarrow> start t)
                else Some (resumePending (env_ctx env) (env_started env) (env_elapsed env) p t0)))"

definition Reconcile ::
  "(ReconcileReport \<Rightarrow> ('s, 'k, 'b) Tracker \<Rightarrow> ('s, 'k, 'b) run_result option) option \<Rightarrow> Env \<Rightarrow>
   ('s, 'k, 'b) Tracker \<Rightarrow> ('s, 'k, 'b) run_result option" where
  "Reconcile bolt env t = reconcileScopes bolt env [t_root t] t"

section \<open>Lemmas\<close>

definition range_ok :: "Env \<Rightarrow> bool" where
  "range_ok env = (\<forall>m. mset (env_range env m) = mset m)"

lemma range_set: "range_ok env \<Longrightarrow> set (env_range env m) = set m"
  by (metis range_ok_def set_mset_mset)

lemma range_distinct: "range_ok env \<Longrightarrow> distinct (map f (env_range env m)) = distinct (map f m)"
  by (metis mset_eq_imp_distinct_iff mset_map range_ok_def)

lemma states_within_map:
  assumes "finite (dom m)" and "\<And>p st. m p = Some st \<Longrightarrow> st_Path st = p"
  shows "fold put_map (states_within m scope) m0 p = (if prefix (elems scope) (elems p) \<and> p \<in> dom m then m p else m0 p)"
proof -
  let ?S = "{p \<in> dom m. prefix (elems scope) (elems p)}" and ?sts = "states_within m scope"
  have fin: "finite ?S" using assms(1) by simp
  have path: "st_Path (the (m q)) = q" if "q \<in> dom m" for q using that assms(2) by auto
  have keys: "map st_Path ?sts = sorted_list_of_set ?S"
    using path fin by (auto simp: states_within_def comp_def intro!: map_idI)
  have pairs: "(q, st) \<in> set (map (\<lambda>st. (st_Path st, st)) ?sts) \<longleftrightarrow> q \<in> ?S \<and> m q = Some st" for q st
    using path fin by (force simp: states_within_def)
  have d: "distinct (map st_Path ?sts)" using keys by simp
  have "map_of (map (\<lambda>st. (st_Path st, st)) ?sts) p = (if p \<in> ?S then m p else None)"
  proof (cases "p \<in> ?S")
    case True
    then obtain st where "m p = Some st" by auto
    with True pairs [of p st] d show ?thesis by (auto intro!: map_of_is_SomeI simp: comp_def)
  next
    case False
    then have "map_of (map (\<lambda>st. (st_Path st, st)) ?sts) p = None"
      using pairs [of p] by (auto simp: map_of_eq_None_iff image_iff)
    with False show ?thesis by auto
  qed
  then have "map_of (rev (map (\<lambda>st. (st_Path st, st)) ?sts)) p = (if p \<in> ?S then m p else None)"
    by (simp only: map_of_states [OF d])
  then show ?thesis by (auto simp: fold_put_map map_add_def split: option.split)
qed

text \<open>The previous state is the part of the snapshot in the scopes.\<close>

definition in_scopes :: "string list \<Rightarrow> string \<Rightarrow> bool" where
  "in_scopes scopes p = (\<exists>scope \<in> set scopes. prefix (elems scope) (elems p))"

lemma collect_step:
  assumes "store_ok s" and "canonical scope"
    and "walkSnapshotScope ctx memory_store s scope (\<lambda>state m. (None, record_state state m)) m = (None, m')"
  shows "m' = fold record_state (states_within (ms_lookup s) scope) m"
proof -
  have "ms_WalkScope ctx s scope (\<lambda>state m. (None, record_state state m)) m = (None, m')"
    using assms(3) by (simp add: walkSnapshotScope_def)
  then show ?thesis by (rule memory.walk_states [OF assms(1,2)])
qed

lemma collect_previous_memory:
  assumes "t_store t = memory_store" and "store_ok (t_snapshot t)" and "list_all canonical scopes"
    and "collect_previous env t scopes = (None, previous)"
  shows "gomap_ok previous \<and>
    map_of previous = (\<lambda>p. if in_scopes scopes p then ms_lookup (t_snapshot t) p else None)"
proof -
  let ?look = "ms_lookup (t_snapshot t)"
  have fin: "finite (dom ?look)" by (simp add: finite_dom_map_of)
  have path: "?look p = Some st \<Longrightarrow> st_Path st = p" for p st using store_okD(4) [OF assms(2)] .
  have "gomap_ok m' \<and> map_of m' = (\<lambda>p. if in_scopes scopes p \<and> p \<in> dom ?look then ?look p else map_of m p)"
    if "gomap_ok m" and "list_all canonical scopes" and
      "for_each (\<lambda>scope previous.
         case walkSnapshotScope (env_ctx env (UseWalk scope)) (t_store t) (t_snapshot t) scope
                (\<lambda>state m. (None, record_state state m)) previous of
           (Some err, m) \<Rightarrow> (Some (ErrWrap (''fsrecon: walk snapshot '' @ quote scope @ '': '') err []), m)
         | (None, m) \<Rightarrow> (None, m)) scopes m = (None, m')" for scopes m m'
    using that
  proof (induction scopes arbitrary: m)
    case Nil
    then show ?case by (simp add: in_scopes_def)
  next
    case (Cons scope scopes)
    obtain e m1 where w: "walkSnapshotScope (env_ctx env (UseWalk scope)) (t_store t) (t_snapshot t) scope
                (\<lambda>state m. (None, record_state state m)) m = (e, m1)" by fastforce
    with Cons.prems(3) have e: "e = None" by (auto split: option.splits)
    have m1: "m1 = fold record_state (states_within ?look scope) m"
      using collect_step [OF assms(2), of scope] Cons.prems(2) w e assms(1) by simp
    have ok: "gomap_ok m1" using Cons.prems(1) by (simp add: m1 gomap_ok_record_states)
    have look: "map_of m1 p = (if prefix (elems scope) (elems p) \<and> p \<in> dom ?look then ?look p else map_of m p)" for p
      by (simp add: m1 map_of_record_states states_within_map [OF fin path])
    from Cons.IH [OF ok] Cons.prems(2,3) w e
    have "gomap_ok m' \<and> map_of m' = (\<lambda>p. if in_scopes scopes p \<and> p \<in> dom ?look then ?look p else map_of m1 p)"
      by simp
    then show ?case by (auto simp: look in_scopes_def fun_eq_iff)
  qed
  from this [of "[]" scopes previous] assms(3,4) show ?thesis
    by (auto simp: collect_previous_def fun_eq_iff dom_def)
qed

text \<open>What one entry of the scan does to the maps.\<close>

lemma observe_directory_maps:
  assumes "observe_directory config backend state acc = (err, acc')"
  shows "sa_previous acc' = sa_previous acc" "sa_actual acc' = sa_actual acc" "sa_scanned acc' = sa_scanned acc"
  using assms by (auto simp: observe_directory_def split: if_splits option.splits prod.splits)

lemma scan_callback_maps:
  assumes "scan_callback env config backend entry acc = (err, acc')"
  shows "sa_previous acc' = sa_previous acc"
    and "sa_actual acc' = (if err = None then AList.update (en_Path entry) (stateFromEntry entry) (sa_actual acc) else sa_actual acc)"
    and "sa_scanned acc' = (if err = None then sa_scanned acc + 1 else sa_scanned acc)"
proof -
  obtain e acc1 where o: "observe_directory config backend (stateFromEntry entry) acc = (e, acc1)" by fastforce
  have path: "st_Path (stateFromEntry entry) = en_Path entry" by (simp add: stateFromEntry_def)
  show "sa_previous acc' = sa_previous acc"
    and "sa_actual acc' = (if err = None then AList.update (en_Path entry) (stateFromEntry entry) (sa_actual acc) else sa_actual acc)"
    and "sa_scanned acc' = (if err = None then sa_scanned acc + 1 else sa_scanned acc)"
    using assms o observe_directory_maps [OF o]
    by (auto simp: scan_callback_def Let_def record_actual_def path split: option.splits if_splits HardlinkPolicy.splits)
qed

text \<open>The observed states of a run.\<close>

definition actual_ok :: "(string \<Rightarrow> bool) \<Rightarrow> FileState gomap \<Rightarrow> bool" where
  "actual_ok inside m = (gomap_ok m \<and> (\<forall>(p, st) \<in> set m. canonical p \<and> st_Path st = p \<and> inside p))"

lemma actual_ok_callback:
  assumes "actual_ok inside (sa_actual acc)" and "canonical (en_Path entry)" and "inside (en_Path entry)"
  shows "actual_ok inside (sa_actual (snd (scan_callback env config backend entry acc)))"
proof -
  obtain err acc' where r: "scan_callback env config backend entry acc = (err, acc')" by fastforce
  have "st_Path (stateFromEntry entry) = en_Path entry" by (simp add: stateFromEntry_def)
  with assms show ?thesis
    using scan_callback_maps(2) [OF r] r by (auto simp: actual_ok_def dest!: in_set_updateD)
qed

lemma scan_scope_ok:
  assumes "names_ok (env_fs env scope)" and "canonical scope" and "actual_ok inside (sa_actual acc)"
    and "\<And>p. prefix (elems scope) (elems p) \<Longrightarrow> inside p"
    and "scan_scope env t scope acc = Some (err, acc')"
  shows "actual_ok inside (sa_actual acc')"
    and "sa_previous acc' = sa_previous acc \<or> sa_previous acc' = AList.delete scope (sa_previous acc)"
proof -
  let ?P = "\<lambda>a. actual_ok inside (sa_actual a) \<and>
    (sa_previous a = sa_previous acc \<or> sa_previous a = AList.delete scope (sa_previous acc))"
  have step: "?P (snd (scan_callback env (t_config t) (t_backendOps t) entry a))"
    if "canonical (en_Path entry)" "prefix (elems scope) (elems (en_Path entry))" "?P a" for entry a
    using that actual_ok_callback [of inside a entry env "t_config t" "t_backendOps t"] assms(4)
      scan_callback_maps(1) [of env "t_config t" "t_backendOps t" entry a] by (metis prod.collapse)
  have "?P acc'"
  proof (cases "env_lstat env scope")
    case (Inl e)
    with assms(3,5) show ?thesis by (auto simp: scan_scope_def split: if_splits)
  next
    case (Inr info)
    let ?acc = "if IsDir (fi_Mode info)
                     then acc\<lparr>sa_previous := AList.delete scope (sa_previous acc),
                               sa_observed := AList.update scope () (sa_observed acc)\<rparr>
                     else acc"
    obtain e where run: "Scan (tracker_scanner (t_config t)) (env_fs env scope) (env_ctx env (UseScan scope)) (env_fuel env) scope
        (scan_callback env (t_config t) (t_backendOps t)) ?acc = Some (e, acc')"
      using assms(5) Inr by (auto simp: scan_scope_def Let_def split: option.splits if_splits)
    have init: "?P ?acc" using assms(3) by simp
    show ?thesis by (rule Scan_invariant [where P = ?P, OF assms(1,2) init step run])
  qed
  then show "actual_ok inside (sa_actual acc')"
    and "sa_previous acc' = sa_previous acc \<or> sa_previous acc' = AList.delete scope (sa_previous acc)" by auto
qed

lemma scan_scopes_ok:
  assumes "\<And>scope. scope \<in> set scopes \<Longrightarrow> names_ok (env_fs env scope)" and "list_all canonical scopes"
    and "gomap_ok previous" and "scan_scopes env t scopes previous = Some (err, acc)"
  obtains dirs where "dirs \<subseteq> set scopes" and "actual_ok (in_scopes scopes) (sa_actual acc)"
    and "gomap_ok (sa_previous acc)" and "map_of (sa_previous acc) = map_of previous |` (- dirs)"
proof -
  let ?Q = "\<lambda>a. actual_ok (in_scopes scopes) (sa_actual a) \<and> gomap_ok (sa_previous a) \<and>
    (\<exists>dirs \<subseteq> set scopes. map_of (sa_previous a) = map_of previous |` (- dirs))"
  have "?Q acc"
    using assms(4) unfolding scan_scopes_def
  proof (rule entry_loop_invariant [where Q = ?Q])
    show "?Q \<lparr>sa_previous = previous, sa_actual = [], sa_policy = [], sa_observed = [(t_root t, ())],
        sa_tree = t_watchTree t, sa_backend = t_backend t, sa_scanned = 0\<rparr>"
      using assms(3) by (auto simp: actual_ok_def intro!: exI [of _ "{}"])
  next
    fix scope a e a'
    assume sc: "scope \<in> set scopes" and q: "?Q a" and run: "scan_scope env t scope a = Some (e, a')"
    have c: "canonical scope" using assms(2) sc by (auto simp: list_all_iff)
    have ins: "prefix (elems scope) (elems p) \<Longrightarrow> in_scopes scopes p" for p using sc by (auto simp: in_scopes_def)
    note ok = scan_scope_ok [OF assms(1) [OF sc] c conjunct1 [OF q] ins run]
    from q obtain dirs where d: "dirs \<subseteq> set scopes" "map_of (sa_previous a) = map_of previous |` (- dirs)" by auto
    from ok(2) show "?Q a'"
    proof
      assume "sa_previous a' = sa_previous a"
      with ok(1) q show ?thesis by simp
    next
      assume del: "sa_previous a' = AList.delete scope (sa_previous a)"
      have "map_of (sa_previous a') = map_of previous |` (- insert scope dirs)"
        using d(2) by (auto simp: del gomap_simps restrict_map_def fun_eq_iff)
      with ok(1) q sc d(1) del show ?thesis by (intro conjI exI [of _ "insert scope dirs"]) auto
    qed
  qed
  then show ?thesis using that by blast
qed

definition put_list :: "Env \<Rightarrow> FileState gomap \<Rightarrow> FileState list" where
  "put_list env actual = map snd (env_range env actual)"

definition delete_list :: "Env \<Rightarrow> FileState gomap \<Rightarrow> FileState gomap \<Rightarrow> string list" where
  "delete_list env previous actual = map fst (filter (\<lambda>(path, _). map_of actual path = None) (env_range env previous))"

lemma writes_effect:
  assumes "range_ok env" and "actual_ok inside actual" and "gomap_ok previous" and "dom (map_of previous) \<subseteq> dom m"
  shows "apply_map (put_list env actual) (delete_list env previous actual) m p =
    (if p \<in> dom (map_of actual) then map_of actual p else if p \<in> dom (map_of previous) then None else m p)"
proof (rule apply_map_commit)
  have ok: "gomap_ok actual" "\<And>p st. (p, st) \<in> set actual \<Longrightarrow> st_Path st = p" using assms(2) by (auto simp: actual_ok_def)
  show "st \<in> set (put_list env actual) \<longleftrightarrow> map_of actual (st_Path st) = Some st" for st
  proof -
    have "st \<in> set (put_list env actual) \<longleftrightarrow> (\<exists>q. (q, st) \<in> set actual)"
      by (force simp: put_list_def range_set [OF assms(1)])
    moreover have "(\<exists>q. (q, st) \<in> set actual) \<longleftrightarrow> (st_Path st, st) \<in> set actual" using ok(2) by blast
    ultimately show ?thesis using ok(1) by simp
  qed
  show "map_of actual q = Some st \<Longrightarrow> st_Path st = q" for q st using ok(2) by (auto dest: map_of_SomeD)
  have "map st_Path (put_list env actual) = map fst (env_range env actual)"
    using ok(2) by (auto simp: put_list_def range_set [OF assms(1)])
  then show "distinct (map st_Path (put_list env actual))" using range_distinct [OF assms(1), of fst actual] ok(1) by simp
  show "q \<in> set (delete_list env previous actual) \<longleftrightarrow> q \<in> dom (map_of previous) \<and> q \<in> dom m \<and> map_of actual q = None" for q
  proof -
    have "q \<in> set (delete_list env previous actual) \<longleftrightarrow> (\<exists>st. (q, st) \<in> set previous) \<and> map_of actual q = None"
      by (force simp: delete_list_def range_set [OF assms(1)])
    moreover have "(\<exists>st. (q, st) \<in> set previous) \<longleftrightarrow> q \<in> dom (map_of previous)"
      by (force simp: dom_map_of_conv_image_fst)
    ultimately show ?thesis using assms(4) by blast
  qed
qed

lemma writes_canonical_lists:
  assumes "range_ok env" and "actual_ok inside actual" and "\<And>p. p \<in> dom (map_of previous) \<Longrightarrow> canonical p"
  shows "list_all (\<lambda>st. canonical (st_Path st)) (put_list env actual)"
    and "list_all canonical (delete_list env previous actual)"
  using assms(2,3) by (auto simp: list_all_iff put_list_def delete_list_def range_set [OF assms(1)] actual_ok_def
      dom_map_of_conv_image_fst)

text \<open>The last part of a run on the memory store.\<close>

lemma finish_reconcile_memory:
  assumes "t_store t = memory_store" and "store_ok (t_snapshot t)" and "range_ok env" and "actual_ok inside actual"
    and "gomap_ok previous" and "dom (map_of previous) \<subseteq> dom (ms_lookup (t_snapshot t))"
    and "finish_reconcile env previous actual expected report events t = ((report', err), t')"
  shows "store_ok (t_snapshot t')"
    and "err \<noteq> None \<Longrightarrow> ms_lookup (t_snapshot t') = ms_lookup (t_snapshot t) \<and> t_generation t' = t_generation t"
    and "err = None \<Longrightarrow> t_pending t' = None \<and> t_generation t' = rr_Generation report \<and>
      ms_lookup (t_snapshot t') = (\<lambda>p. if p \<in> dom (map_of actual) then map_of actual p
        else if p \<in> dom (map_of previous) then None else ms_lookup (t_snapshot t) p)"
proof -
  let ?puts = "put_list env actual" and ?deletes = "delete_list env previous actual"
  let ?look = "ms_lookup (t_snapshot t)"
  have canon: "p \<in> dom (map_of previous) \<Longrightarrow> canonical p" for p
    using assms(6) store_okD(3) [OF assms(2)] by blast
  note w = writes_canonical_lists [OF assms(3,4) canon]
  define t1 where "t1 = (if cf_ChangeSink (t_config t) \<noteq> None
      then t\<lparr>t_pending := Some \<lparr>pg_kind = pendingReconcile, pg_sessionID = t_sessionID t,
               pg_generation = rr_Generation report, pg_report = report, pg_events = cloneEvents events,
               pg_puts = ?puts, pg_deletes = ?deletes, pg_integrity = None\<rparr>\<rparr>
      else t)"
  obtain e t2 where d: "(if cf_ChangeSink (t_config t1) \<noteq> None then deliverPending t1 else (None, t1)) = (e, t2)" by fastforce
  have keep: "t_snapshot t2 = t_snapshot t" "t_generation t2 = t_generation t" "t_store t2 = memory_store"
    using d deliverPending_keeps [of t1 e t2] assms(1) by (auto simp: t1_def split: if_splits)
  obtain e2 s2 where c: "commit_snapshot (env_ctx env) wrapApply wrapDelete wrapPut
      (memory_store :: (MemoryStore, FileState gomap) SnapshotStore) ?puts ?deletes (t_snapshot t) = (e2, s2)" by fastforce
  have eff: "e2 = None \<Longrightarrow> store_ok s2 \<and> ms_lookup s2 = apply_map ?puts ?deletes ?look"
    using memory.commit_law [OF assms(2) w memory_store_ops(2,3) disjI2 [OF memory_store_ops(4)]] c by blast
  have bad: "e2 \<noteq> None \<Longrightarrow> store_ok s2 \<and> ms_lookup s2 = ?look"
    using memory.commit_batch_error [OF assms(2) w memory_store_ops(4)] c by (metis option.exhaust)
  have writes: "apply_map ?puts ?deletes ?look = (\<lambda>p. if p \<in> dom (map_of actual) then map_of actual p
        else if p \<in> dom (map_of previous) then None else ?look p)"
    by (rule ext) (rule writes_effect [OF assms(3-6)])
  have run: "((report', err), t') = (case e of
      Some x \<Rightarrow> reconcile_fail env report x t2
    | None \<Rightarrow> (case e2 of
        Some x \<Rightarrow> reconcile_fail env report x (t2\<lparr>t_snapshot := s2\<rparr>)
      | None \<Rightarrow>
          let report = report\<lparr>rr_Healthy := healthy_count actual expected report, rr_Duration := env_elapsed env\<rparr>;
              t3 = setConsistentState (t2\<lparr>t_snapshot := s2, t_pending := None, t_stats := count_reconcile report (t_stats t2),
                            t_generation := rr_Generation report\<rparr>)
          in ((report, None), fold sendEvent (rr_Events report) t3)))"
    using assms(7) d c keep unfolding finish_reconcile_def put_list_def [symmetric] delete_list_def [symmetric] Let_def t1_def [symmetric]
    by (auto split: option.splits)
  have all: "store_ok (t_snapshot t') \<and> (err \<noteq> None \<longrightarrow> ms_lookup (t_snapshot t') = ?look \<and> t_generation t' = t_generation t) \<and>
     (err = None \<longrightarrow> t_pending t' = None \<and> t_generation t' = rr_Generation report \<and>
        ms_lookup (t_snapshot t') = apply_map ?puts ?deletes ?look)"
    using run keep eff bad assms(2) by (cases e; cases e2) (simp_all add: reconcile_fail_def Let_def)
  then show "store_ok (t_snapshot t')"
    and "err \<noteq> None \<Longrightarrow> ms_lookup (t_snapshot t') = ?look \<and> t_generation t' = t_generation t"
    and "err = None \<Longrightarrow> t_pending t' = None \<and> t_generation t' = rr_Generation report \<and>
      ms_lookup (t_snapshot t') = (\<lambda>p. if p \<in> dom (map_of actual) then map_of actual p
        else if p \<in> dom (map_of previous) then None else ?look p)"
    unfolding writes by blast+
qed

lemma reconcile_events_generation:
  assumes "reconcile_events env config previous actual expected policy report = (err, report', events)"
  shows "rr_Generation report' = rr_Generation report"
proof -
  have step: "rr_Generation (fst (snd (emit_change env config ch acc))) = rr_Generation (fst acc)" for ch acc
    by (auto simp: emit_change_def split: prod.split sum.split)
  let ?run = "WalkDiffScoped (toInternalStates previous) (toInternalStates actual) expected (Some (orphan_eligible config))
             (emit_change env config) (report, [])"
  have "rr_Generation (fst (snd ?run)) = rr_Generation report"
    unfolding WalkDiffScoped_def
    by (rule for_each_invariant [where P = "\<lambda>acc. rr_Generation (fst acc) = rr_Generation report"]) (simp_all add: step)
  moreover have "rr_Generation (fold (report_event l) es r) = rr_Generation r" for l es r
    by (induction es arbitrary: r) simp_all
  ultimately show ?thesis using assms by (auto simp: reconcile_events_def split: prod.splits option.splits)
qed

lemma sync_watches_keeps:
  assumes "sync_watches scopes obs t = (err, t')"
  shows "t_snapshot t' = t_snapshot t" and "t_generation t' = t_generation t" and "t_pending t' = t_pending t" and "t_config t' = t_config t"
    and "t_store t' = t_store t"
  using assms by (auto simp: sync_watches_def split: option.splits prod.splits)

lemma reconcile_fail_keeps:
  "reconcile_fail env r x u = ((report', err), t') \<Longrightarrow>
   err \<noteq> None \<and> t_snapshot t' = t_snapshot u \<and> t_generation t' = t_generation u"
  by (auto simp: reconcile_fail_def)

text \<open>A generic run fails before it touches the snapshot, or reaches its last phase.\<close>

lemma reconcile_generic_cases:
  assumes "reconcile_generic env scopes report t = Some ((report', err), t')"
  shows "err \<noteq> None \<and> t_snapshot t' = t_snapshot t \<and> t_generation t' = t_generation t \<or>
    (\<exists>previous acc expected r events u. collect_previous env t scopes = (None, previous) \<and>
       scan_scopes env t scopes previous = Some (None, acc) \<and>
       reconcile_events env (t_config u) (sa_previous acc) (sa_actual acc) expected (sa_policy acc)
         (report\<lparr>rr_Scanned := sa_scanned acc\<rparr>) = (None, r, events) \<and>
       finish_reconcile env (sa_previous acc) (sa_actual acc) expected r events u = ((report', err), t') \<and>
       t_snapshot u = t_snapshot t \<and> t_generation u = t_generation t \<and> t_store u = t_store t)"
proof -
  obtain e previous where cp: "collect_previous env t scopes = (e, previous)" by fastforce
  show ?thesis
  proof (cases e)
    case (Some x)
    with assms cp show ?thesis by (auto simp: reconcile_generic_def dest!: reconcile_fail_keeps)
  next
    case None
    then obtain se acc where sc: "scan_scopes env t scopes previous = Some (se, acc)"
      using assms cp by (auto simp: reconcile_generic_def split: option.splits)
    let ?t = "t\<lparr>t_watchTree := sa_tree acc, t_backend := sa_backend acc\<rparr>"
    obtain e2 u where s: "sync_watches scopes (sa_observed acc) ?t = (e2, u)" by fastforce
    note keep = sync_watches_keeps [OF s, simplified]
    show ?thesis
      using assms cp None sc s keep
      by (auto simp: reconcile_generic_def Let_def split: option.splits prod.splits sum.splits dest!: reconcile_fail_keeps)
  qed
qed

lemma reconcile_generic_memory:
  assumes "t_store t = memory_store" and "store_ok (t_snapshot t)" and "list_all canonical scopes"
    and "\<And>scope. scope \<in> set scopes \<Longrightarrow> names_ok (env_fs env scope)" and "range_ok env"
    and run: "reconcile_generic env scopes report t = Some ((report', err), t')"
  shows "store_ok (t_snapshot t')"
    and "err \<noteq> None \<Longrightarrow> ms_lookup (t_snapshot t') = ms_lookup (t_snapshot t) \<and> t_generation t' = t_generation t"
    and "err = None \<Longrightarrow> t_pending t' = None \<and> t_generation t' = rr_Generation report \<and>
      (\<exists>previous acc. collect_previous env t scopes = (None, previous) \<and>
         scan_scopes env t scopes previous = Some (None, acc) \<and>
         ms_lookup (t_snapshot t') = (\<lambda>p. if p \<in> dom (map_of (sa_actual acc)) then map_of (sa_actual acc) p
           else if p \<in> dom (map_of (sa_previous acc)) then None else ms_lookup (t_snapshot t) p))"
proof -
  let ?look = "ms_lookup (t_snapshot t)"
  have "store_ok (t_snapshot t') \<and>
    (err \<noteq> None \<longrightarrow> ms_lookup (t_snapshot t') = ?look \<and> t_generation t' = t_generation t) \<and>
    (err = None \<longrightarrow> t_pending t' = None \<and> t_generation t' = rr_Generation report \<and>
      (\<exists>previous acc. collect_previous env t scopes = (None, previous) \<and>
         scan_scopes env t scopes previous = Some (None, acc) \<and>
         ms_lookup (t_snapshot t') = (\<lambda>p. if p \<in> dom (map_of (sa_actual acc)) then map_of (sa_actual acc) p
           else if p \<in> dom (map_of (sa_previous acc)) then None else ?look p)))"
    using reconcile_generic_cases [OF run]
  proof (elim disjE exE conjE)
    assume "err \<noteq> None" "t_snapshot t' = t_snapshot t" "t_generation t' = t_generation t"
    with assms(2) show ?thesis by auto
  next
    fix previous acc expected r events u
    assume cp: "collect_previous env t scopes = (None, previous)" and sc: "scan_scopes env t scopes previous = Some (None, acc)"
      and ev: "reconcile_events env (t_config u) (sa_previous acc) (sa_actual acc) expected (sa_policy acc)
         (report\<lparr>rr_Scanned := sa_scanned acc\<rparr>) = (None, r, events)"
      and fin: "finish_reconcile env (sa_previous acc) (sa_actual acc) expected r events u = ((report', err), t')"
      and u: "t_snapshot u = t_snapshot t" "t_generation u = t_generation t" "t_store u = t_store t"
    note prev = collect_previous_memory [OF assms(1-3) cp]
    obtain dirs where acc: "actual_ok (in_scopes scopes) (sa_actual acc)" "gomap_ok (sa_previous acc)"
      "map_of (sa_previous acc) = map_of previous |` (- dirs)"
      by (rule scan_scopes_ok [OF assms(4,3) conjunct1 [OF prev] sc]) blast
    have sub: "dom (map_of (sa_previous acc)) \<subseteq> dom ?look"
      using acc(3) prev by (auto split: if_splits)
    have "t_store u = memory_store" "store_ok (t_snapshot u)" "dom (map_of (sa_previous acc)) \<subseteq> dom (ms_lookup (t_snapshot u))"
      using assms(1,2) sub u by simp_all
    note f = finish_reconcile_memory [OF this(1,2) assms(5) acc(1,2) this(3) fin]
    have "rr_Generation r = rr_Generation report" using reconcile_events_generation [OF ev] by simp
    with f u cp sc show ?thesis by auto
  qed
  then show "store_ok (t_snapshot t')"
    and "err \<noteq> None \<Longrightarrow> ms_lookup (t_snapshot t') = ?look \<and> t_generation t' = t_generation t"
    and "err = None \<Longrightarrow> t_pending t' = None \<and> t_generation t' = rr_Generation report \<and>
      (\<exists>previous acc. collect_previous env t scopes = (None, previous) \<and>
         scan_scopes env t scopes previous = Some (None, acc) \<and>
         ms_lookup (t_snapshot t') = (\<lambda>p. if p \<in> dom (map_of (sa_actual acc)) then map_of (sa_actual acc) p
           else if p \<in> dom (map_of (sa_previous acc)) then None else ?look p))"
    by blast+
qed

text \<open>A run of the callback over the entries of one scan.\<close>

lemma for_each_scan_callback:
  assumes "for_each (scan_callback env config backend) es acc = (None, acc')"
  shows "sa_previous acc' = sa_previous acc \<and>
    sa_actual acc' = fold (\<lambda>e m. AList.update (en_Path e) (stateFromEntry e) m) es (sa_actual acc) \<and>
    sa_scanned acc' = sa_scanned acc + of_nat (length es)"
  using assms
proof (induction es arbitrary: acc)
  case (Cons e es)
  obtain err acc1 where r: "scan_callback env config backend e acc = (err, acc1)" by fastforce
  with Cons.prems have err: "err = None" by (auto split: option.splits)
  note s = scan_callback_maps [OF r]
  from Cons.IH [of acc1] Cons.prems r err have "sa_previous acc' = sa_previous acc1 \<and>
    sa_actual acc' = fold (\<lambda>e m. AList.update (en_Path e) (stateFromEntry e) m) es (sa_actual acc1) \<and>
    sa_scanned acc' = sa_scanned acc1 + of_nat (length es)" by simp
  then show ?case using s err by simp
qed simp

lemma fold_entries:
  assumes "distinct (map en_Path es)"
  shows "fold (\<lambda>e m. AList.update (en_Path e) (stateFromEntry e) m) es [] = map (\<lambda>e. (en_Path e, stateFromEntry e)) es"
proof -
  have "fold (\<lambda>e m. AList.update (en_Path e) (stateFromEntry e) m) es m = m @ map (\<lambda>e. (en_Path e, stateFromEntry e)) es"
    if "distinct (map fst m @ map en_Path es)" for m
    using that by (induction es arbitrary: m) (auto simp: update_fresh)
  from this [of "[]"] assms show ?thesis by simp
qed

text \<open>
  An error of the callback that tests as "does not exist" would end the scan of the scope
  silently. The callback makes no such error of its own; the native backend might.
\<close>

definition adds_not_vanish :: "'b WatchBackend \<Rightarrow> bool" where
  "adds_not_vanish backend =
     (\<forall>path b e b'. wb_Add backend path b = (Some e, b') \<longrightarrow> \<not> errors_Is e ErrNotExist)"

lemma callback_error:
  assumes "adds_not_vanish backend" and "scan_callback env config backend entry acc = (Some err, acc')"
  shows "\<not> errors_Is err ErrNotExist"
proof -
  have add: "\<not> errors_Is e ErrNotExist" if "wt_Add backend path (tree, b) = (Some e, tree', b')" for path tree b e tree' b'
    using that assms(1) by (auto simp: wt_Add_def Let_def adds_not_vanish_def split: if_splits prod.splits option.splits)
  obtain e acc1 where o: "observe_directory config backend (stateFromEntry entry) acc = (e, acc1)" by fastforce
  have obs: "\<not> errors_Is x ErrNotExist" if "e = Some x" for x
    using o that add by (auto simp: observe_directory_def split: if_splits option.splits prod.splits)
  show ?thesis
    using assms(2) o obs
    by (auto simp: scan_callback_def Let_def split: option.splits if_splits HardlinkPolicy.splits)
qed

lemma for_each_callback_error:
  assumes "adds_not_vanish backend" and "for_each (scan_callback env config backend) es acc = (Some err, acc')"
  shows "\<not> errors_Is err ErrNotExist"
  using assms(2)
proof (induction es arbitrary: acc)
  case (Cons e es)
  then show ?case using callback_error [OF assms(1)] by (fastforce split: prod.splits option.splits)
qed simp

definition tracker_ready :: "(MemoryStore, 'k, 'b) Tracker \<Rightarrow> bool" where
  "tracker_ready t = (\<not> t_closed t \<and> t_pending t = None \<and> t_store t = memory_store \<and>
     store_ok (t_snapshot t) \<and> plain (t_root t))"

lemma reconcileScopes_start:
  assumes "tracker_ready t" and "collapseScopes (t_root t) requested = scopes" and "scopes \<noteq> []"
  shows "reconcileScopes None env requested t =
    reconcile_generic env scopes (zero_report\<lparr>rr_StartedAt := env_started env, rr_Generation := t_generation t + 1\<rparr>)
      (setState StateReconciling t)"
  using assms by (simp add: reconcileScopes_def tracker_ready_def Let_def)

lemma scan_single_directory:
  assumes "adds_not_vanish (t_backendOps u)" and "env_lstat env r = Inr dir" and "IsDir (fi_Mode dir)"
    and "Scan (tracker_scanner (t_config u)) (env_fs env r) (env_ctx env (UseScan r)) (env_fuel env) r log_entry [] = Some (None, es)"
    and "distinct (map en_Path es)" and "scan_scopes env u [r] previous = Some (None, acc)"
  shows "sa_actual acc = map (\<lambda>e. (en_Path e, stateFromEntry e)) es \<and> sa_previous acc = AList.delete r previous"
proof -
  let ?a = "\<lparr>sa_previous = AList.delete r previous, sa_actual = [], sa_policy = [], sa_observed = AList.update r () [(t_root u, ())],
        sa_tree = t_watchTree u, sa_backend = t_backend u, sa_scanned = 0\<rparr>"
  let ?cb = "scan_callback env (t_config u) (t_backendOps u)"
  obtain e a' where f: "for_each ?cb es ?a = (e, a')" by fastforce
  have "Scan (tracker_scanner (t_config u)) (env_fs env r) (env_ctx env (UseScan r)) (env_fuel env) r ?cb ?a = Some (e, a')"
    using Scan_for_each [OF assms(4), of ?cb ?a] f by simp
  with assms(2,3,6) have res: "(case e of None \<Rightarrow> a' = acc | Some x \<Rightarrow> errors_Is x ErrNotExist)"
    by (auto simp: scan_scopes_def scan_scope_def Let_def split: option.splits if_splits)
  have "e = None"
  proof (rule ccontr)
    assume "e \<noteq> None"
    then obtain x where x: "e = Some x" by blast
    from for_each_callback_error [OF assms(1) f [unfolded x]] res x show False by simp
  qed
  then have "for_each ?cb es ?a = (None, acc)" using f res by simp
  from for_each_scan_callback [OF this] fold_entries [OF assms(5)] show ?thesis by simp
qed

section \<open>Properties\<close>



text \<open>The events of a list of changes; every kind that the difference makes is declared.\<close>

fun change_events :: "Env \<Rightarrow> nat \<Rightarrow> Change list \<Rightarrow> Event list" where
  "change_events env n [] = []"
| "change_events env n (ch # chs) =
     (case eventFromChange (env_eventTime env n) ch of
        Inl _ \<Rightarrow> []
      | Inr event \<Rightarrow> event # change_events env (Suc n) chs)"

definition public_change :: "Change \<Rightarrow> (GoError + EventKind) \<times> string \<times> string \<times> FileState option \<times> FileState option" where
  "public_change ch = (eventKindFromInternal (c_Kind ch), c_Path ch, c_OldPath ch,
     map_option fromInternalState (c_Before ch), map_option fromInternalState (c_After ch))"

lemma diff_changes_declared:
  assumes "gomap_ok previous" and "gomap_ok actual" and "ch \<in> set (diff_changes previous actual expected el)"
  shows "\<exists>k. eventKindFromInternal (c_Kind ch) = Inr k"
proof -
  have snap: "\<exists>k. eventKindFromInternal (c_Kind ch) = Inr k" if "snapshot_change P A ch" for P A
    using that by cases simp_all
  have exp: "\<exists>k. eventKindFromInternal (c_Kind ch) = Inr k" if "expected_change A E f ch" for A E f
    using that by cases simp_all
  show ?thesis
  proof (cases expected)
    case None
    with assms(3) set_snapshot_part [OF assms(1,2), of el] snap show ?thesis by auto
  next
    case (Some ex)
    with assms(3) have "ch \<in> set (diff_changes previous actual None el) \<or>
        ch \<in> set (diff_expected actual ex @ diff_orphans actual ex el)"
      by (simp add: diff_changes_expected [OF assms(1,2)])
    then show ?thesis using snap exp unfolding set_snapshot_part [OF assms(1,2)] set_expected_part by blast
  qed
qed

lemma for_each_emit_change:
  assumes "\<And>ch. ch \<in> set chs \<Longrightarrow> \<exists>k. eventKindFromInternal (c_Kind ch) = Inr k"
  shows "for_each (emit_change env config) chs (report, events) =
      (None, fold (report_event (cf_ReportEventLimit config)) (change_events env (length events) chs) report,
       events @ change_events env (length events) chs) \<and>
    map (\<lambda>e. (Inr (ev_Kind e), ev_Path e, ev_OldPath e, ev_Before e, ev_After e)) (change_events env (length events) chs) =
      map public_change chs"
  using assms
proof (induction chs arbitrary: report events)
  case (Cons ch chs)
  then obtain k where k: "eventKindFromInternal (c_Kind ch) = Inr k" by force
  then obtain e where e: "eventFromChange (env_eventTime env (length events)) ch = Inr e"
    by (simp add: eventFromChange_def)
  then have pub: "public_change ch = (Inr (ev_Kind e), ev_Path e, ev_OldPath e, ev_Before e, ev_After e)"
    using k by (auto simp: eventFromChange_def public_change_def)
  from Cons.IH [of "report_event (cf_ReportEventLimit config) e report" "events @ [e]"] Cons.prems e pub show ?case
    by (simp add: emit_change_def)
qed simp


section \<open>Concrete runs\<close>

definition ex_env :: "FS \<Rightarrow> Env" where
  "ex_env fs = \<lparr>env_ctx = (\<lambda>_. background), env_lstat = fs_Lstat fs, env_fs = (\<lambda>_. fs), env_rootLstat = fs_Lstat fs,
     env_fuel = 3, env_range = (\<lambda>m. m), env_started = 0, env_elapsed = 0, env_policyTime = (\<lambda>_. 0), env_eventTime = (\<lambda>_. 0)\<rparr>"

definition ex_snapshot :: MemoryStore where
  "ex_snapshot = fold put_entry [ex_file ''/r/old'', ex_file ''/r/a'', ex_file ''/x''] NewMemoryStore"

definition ex_run_tracker :: "(MemoryStore, unit, unit) Tracker" where
  "ex_run_tracker = \<lparr>t_config = ex_config\<lparr>cf_Root := ''/r'', cf_ReportEventLimit := 10, cf_SymlinkPolicy := ReportSymlinks\<rparr>,
     t_root = ''/r'', t_store = memory_store, t_snapshot = ex_snapshot, t_sinkState = (), t_state = StateDirty,
     t_started = False, t_closed = False, t_backendHealthy = False, t_sessionID = ''s'', t_backendOps = ex_backend_ops,
     t_backend = (), t_watchTree = None, t_events = make_chan 2, t_errors = make_chan 16, t_channelsClosed = False,
     t_stats = zero_stats, t_generation = 6, t_pending = None, t_dirtyPending = False\<rparr>"

lemma ex_run_ready: "tracker_ready ex_run_tracker"
proof -
  have "list_all (\<lambda>st. canonical (st_Path st)) [ex_file ''/r/old'', ex_file ''/r/a'', ex_file ''/x'']" by code_simp
  from fold_put_entry [OF store_ok_New this] have "store_ok ex_snapshot" by (simp add: ex_snapshot_def)
  moreover have "plain ''/r''" by code_simp
  ultimately show ?thesis by (simp add: tracker_ready_def ex_run_tracker_def)
qed

definition run_summary ::
  "(MemoryStore, unit, unit) run_result option \<Rightarrow> (GoError option \<times> string list \<times> (EventKind \<times> string) list \<times> 64 word \<times> nat) option" where
  "run_summary = map_option (\<lambda>((r, e), t). (e, sort (map fst (ms_entries (t_snapshot t))),
     map (\<lambda>ev. (ev_Kind ev, ev_Path ev)) (rr_Events r), t_generation t, length (ch_queue (t_events t))))"

lemma ex_run_result:
  "run_summary (Reconcile None (ex_env ex_fs) ex_run_tracker) =
     Some (None, [''/r/a'', ''/r/d'', ''/r/d/b'', ''/r/l'', ''/x''],
       [(EventModified, ''/r/a''), (EventCreated, ''/r/d''), (EventCreated, ''/r/d/b''), (EventCreated, ''/r/l''),
        (EventDeleted, ''/r/old'')], 7, 2)"
  by code_simp

lemma ex_env_ok: "range_ok (ex_env fs)" "adds_not_vanish (t_backendOps ex_run_tracker)"
  by (simp_all add: range_ok_def ex_env_def adds_not_vanish_def ex_run_tracker_def ex_backend_ops_def)

lemma ex_env_fs [simp]: "env_fs (ex_env fs) p = fs"
  by (simp add: ex_env_def)



text \<open>
  A directory that vanishes between its \<open>Lstat\<close> and its \<open>Open\<close> ends the scan of the scope, and
  the run takes the partial scan for the whole: the file \<open>/r/old\<close> exists all the time, is not
  reached, is reported deleted and leaves the snapshot, and the run succeeds.
\<close>

definition ex_vanishing_fs :: FS where
  "ex_vanishing_fs =
     \<lparr>fs_Lstat = (\<lambda>p. if p = ''/r'' \<or> p = ''/r/d'' then Inr (ex_info 0x80000000 1)
        else if p = ''/r/old'' then Inr (ex_info 0 2) else Inl ErrNotExist),
      fs_Stat = (\<lambda>p. Inl ErrNotExist),
      fs_Open = (\<lambda>p. if p = ''/r/d'' then Some (ErrWrap ''open /r/d: '' ErrNotExist []) else None),
      fs_ReadDir = (\<lambda>p. (if p = ''/r'' then [[''d'', ''old'']] else [], None))\<rparr>"

lemma vanished_directory_deletes_sibling:
  "run_summary (Reconcile None (ex_env ex_vanishing_fs) ex_run_tracker) =
     Some (None, [''/r/d'', ''/x''], [(EventCreated, ''/r/d''), (EventDeleted, ''/r/a''), (EventDeleted, ''/r/old'')], 7, 2) \<and>
   fs_Lstat ex_vanishing_fs ''/r/old'' = Inr (ex_info 0 2)"
  by code_simp


end
