(* ===== verification/Staged_Events.thy ===== *)
theory Staged_Events
  imports Core_Types
begin

text \<open>
  The stored form of states and events (\<open>bolt_store.go\<close>, \<open>reconcile_bolt.go\<close>): the structures
  that are written as JSON and what is made of them when they are read back. The JSON text itself
  is the business of \<open>encoding/json\<close>; where the code writes and reads it, the definitions take
  the functions that turn a structure into bytes and back as arguments.
\<close>

record storedFileState =
  sf_Path :: string
  sf_ID :: string
  sf_Type :: FileType
  sf_Size :: "64 word"
  sf_ModTime :: Time
  sf_Mode :: "32 word"
  sf_Schema :: "8 word"

record stagedEvent =
  sg_Kind :: EventKind
  sg_Path :: string
  sg_OldPath :: string
  sg_Before :: "storedFileState option"
  sg_After :: "storedFileState option"
  sg_Source :: EventSource
  sg_Time :: Time

definition stored_of :: "FileState \<Rightarrow> storedFileState" where
  "stored_of state = \<lparr>sf_Path = st_Path state, sf_ID = id_value (st_ID state), sf_Type = st_Type state,
     sf_Size = st_Size state, sf_ModTime = st_ModTime state, sf_Mode = st_Mode state, sf_Schema = 1\<rparr>"

definition state_of :: "storedFileState \<Rightarrow> FileState" where
  "state_of stored = \<lparr>st_Path = sf_Path stored, st_ID = newFileID (sf_ID stored), st_Type = sf_Type stored,
     st_Size = sf_Size stored, st_ModTime = sf_ModTime stored, st_Mode = sf_Mode stored\<rparr>"

definition storedState :: "FileState option \<Rightarrow> storedFileState option" where
  "storedState state = (case state of None \<Rightarrow> None | Some st \<Rightarrow> Some (stored_of st))"

definition fileStateFromStored :: "storedFileState option \<Rightarrow> FileState option" where
  "fileStateFromStored stored = (case stored of None \<Rightarrow> None | Some sf \<Rightarrow> Some (state_of sf))"

definition staged :: "Event \<Rightarrow> stagedEvent" where
  "staged event = \<lparr>sg_Kind = ev_Kind event, sg_Path = ev_Path event, sg_OldPath = ev_OldPath event,
     sg_Before = storedState (ev_Before event), sg_After = storedState (ev_After event),
     sg_Source = ev_Source event, sg_Time = ev_Time event\<rparr>"

definition eventFromStaged :: "stagedEvent \<Rightarrow> Event" where
  "eventFromStaged stored = \<lparr>ev_Kind = sg_Kind stored, ev_Path = sg_Path stored, ev_OldPath = sg_OldPath stored,
     ev_Before = fileStateFromStored (sg_Before stored), ev_After = fileStateFromStored (sg_After stored),
     ev_Source = sg_Source stored, ev_Time = sg_Time stored\<rparr>"

text \<open>\<open>encodeFileState\<close> and \<open>decodeFileState\<close> over a JSON encoding of the structure.\<close>

definition encodeFileState :: "(storedFileState \<Rightarrow> GoError + string) \<Rightarrow> FileState \<Rightarrow> GoError + string" where
  "encodeFileState marshal state = marshal (stored_of state)"

definition decodeFileState :: "(string \<Rightarrow> GoError + storedFileState) \<Rightarrow> string \<Rightarrow> GoError + FileState" where
  "decodeFileState unmarshal data =
     (case unmarshal data of
        Inl err \<Rightarrow> Inl err
      | Inr stored \<Rightarrow>
          if sf_Schema stored \<noteq> 1 then Inl (ErrMsg (''unsupported snapshot schema '' @ fmt_d (sf_Schema stored)))
          else Inr (state_of stored))"

lemma state_of_stored_of [simp]: "state_of (stored_of st) = st"
  by (cases "st_ID st") (simp add: state_of_def stored_of_def newFileID_def)

lemma fileStateFromStored_inverse [simp]: "fileStateFromStored (storedState st) = st"
  by (simp add: fileStateFromStored_def storedState_def split: option.split)

lemma eventFromStaged_staged [simp]: "eventFromStaged (staged event) = event"
  by (simp add: eventFromStaged_def staged_def)



end
