(* ===== verification/Integrity_Scrub.thy ===== *)
theory Integrity_Scrub
  imports Reconcile_Run Staged_Events
begin

text \<open>
  \<open>Scrub\<close> of \<open>integrity.go\<close>: the content check of every regular file, the staging of corruption
  events in a temporary file when there is a sink, their delivery, and the retained integrity
  generation. The checker belongs to the application. The temporary file is a parameter: the
  errors of its operations, and what reading it back yields. The scrub runs under
  \<open>reconcileMu\<close> and \<open>integrityMu\<close>, so it is one function from tracker to tracker; \<open>None\<close> stands
  for a scan that does not end.
\<close>

section \<open>SHA256Checker\<close>

text \<open>
  The calls of \<open>file.Read\<close> on an opened file: the bytes of each call and how it ended. The
  hash is a function of the bytes written to it; \<open>hash.Write\<close> never fails. A file that never
  ends is \<open>None\<close> for every fuel.
\<close>

datatype ReadEnd = ReadMore | ReadEOF | ReadErr GoError

type_synonym OpenFile = "nat \<Rightarrow> 8 word list \<times> ReadEnd"

fun check_loop ::
  "(8 word list \<Rightarrow> 8 word list) \<Rightarrow> Ctx \<Rightarrow> OpenFile \<Rightarrow> nat \<Rightarrow> nat \<Rightarrow> 8 word list \<Rightarrow> (GoError + IntegrityResult) option" where
  "check_loop digest ctx file 0 i written = None"
| "check_loop digest ctx file (Suc fuel) i written =
     (case ctx (PollIter i) of
        Some err \<Rightarrow> Some (Inl err)
      | None \<Rightarrow>
          (case file i of (bytes, end) \<Rightarrow>
             let written = written @ bytes in
             case end of
               ReadEOF \<Rightarrow> Some (Inr \<lparr>ir_Valid = True, ir_Fingerprint = digest written, ir_Reason = []\<rparr>)
             | ReadErr err \<Rightarrow> Some (Inl err)
             | ReadMore \<Rightarrow> check_loop digest ctx file fuel (Suc i) written))"

definition SHA256_Check ::
  "(8 word list \<Rightarrow> 8 word list) \<Rightarrow> (string \<Rightarrow> GoError + OpenFile) \<Rightarrow> nat \<Rightarrow> Ctx \<Rightarrow> FileState \<Rightarrow>
   (GoError + IntegrityResult) option" where
  "SHA256_Check digest open fuel ctx state =
     (case open (st_Path state) of
        Inl err \<Rightarrow> Some (Inl err)
      | Inr file \<Rightarrow> check_loop digest ctx file fuel 0 [])"

lemma check_loop_reads:
  assumes "\<forall>j < n. snd (file (i + j)) = ReadMore" and "\<forall>j < n. ctx (PollIter (i + j)) = None" and "n \<le> fuel"
  shows "check_loop digest ctx file fuel i written =
    check_loop digest ctx file (fuel - n) (i + n) (written @ concat (map (\<lambda>j. fst (file j)) [i..<i + n]))"
  using assms
proof (induction n arbitrary: i written fuel)
  case (Suc n)
  then obtain f where f: "fuel = Suc f" "n \<le> f" by (cases fuel) simp_all
  have "check_loop digest ctx file f (Suc i) (written @ fst (file i)) =
    check_loop digest ctx file (f - n) (Suc i + n) ((written @ fst (file i)) @ concat (map (\<lambda>j. fst (file j)) [Suc i..<Suc i + n]))"
  proof (rule Suc.IH)
    show "\<forall>j < n. snd (file (Suc i + j)) = ReadMore" using Suc.prems(1) by (metis Suc_less_eq add_Suc_shift)
    show "\<forall>j < n. ctx (PollIter (Suc i + j)) = None" using Suc.prems(2) by (metis Suc_less_eq add_Suc_shift)
  qed (rule f)
  moreover have "[i..<i + Suc n] = i # [Suc i..<Suc i + n]" by (simp add: upt_conv_Cons)
  moreover have "ctx (PollIter i) = None" "snd (file i) = ReadMore" using Suc.prems(1,2) by force+
  ultimately show ?case using f by (auto split: prod.splits)
qed simp

section \<open>Environment\<close>

record ScrubEnv =
  su_ctx :: "ctx_use \<Rightarrow> Ctx"
  su_lstat :: "string \<Rightarrow> GoError + FileInfo"
  su_fs :: FS
  su_fuel :: nat
  su_started :: Time
  su_elapsed :: Time
  su_eventTime :: "nat \<Rightarrow> Time"
  su_create :: "GoError option"
  su_encode :: "nat \<Rightarrow> GoError option"
  su_close :: "GoError option"
  su_open :: "GoError option"
  su_read :: "stagedEvent list \<Rightarrow> stagedEvent list \<times> GoError option"
  su_inputClose :: "GoError option"

section \<open>The scan\<close>

record scrub_acc =
  sc_report :: IntegrityReport
  sc_allEvents :: "Event list"
  sc_stage :: "stagedEvent list"

definition fingerprint_ok :: "Expected gomap option \<Rightarrow> FileState \<Rightarrow> IntegrityResult \<Rightarrow> bool" where
  "fingerprint_ok expected state result =
     (case expected of
        None \<Rightarrow> True
      | Some ex \<Rightarrow>
          (case map_of ex (st_Path state) of
             None \<Rightarrow> True
           | Some entry \<Rightarrow> x_Fingerprint entry = [] \<or> ir_Fingerprint result = x_Fingerprint entry))"

definition corrupt_event :: "Time \<Rightarrow> FileState \<Rightarrow> Event" where
  "corrupt_event now state =
     \<lparr>ev_Kind = EventCorrupt, ev_Path = st_Path state, ev_OldPath = [], ev_Before = None, ev_After = Some state,
      ev_Source = SourceIntegrity, ev_Time = now\<rparr>"

definition report_corrupt :: "int \<Rightarrow> Event \<Rightarrow> IntegrityReport \<Rightarrow> IntegrityReport" where
  "report_corrupt limit event r =
     (if int (length (ig_Events r)) < limit
      then r\<lparr>ig_Corrupt := ig_Corrupt r + 1, ig_Events := ig_Events r @ [event]\<rparr>
      else r\<lparr>ig_Corrupt := ig_Corrupt r + 1, ig_EventsTruncated := ig_EventsTruncated r + 1\<rparr>)"

definition scrub_callback ::
  "ScrubEnv \<Rightarrow> (FileState \<Rightarrow> GoError + IntegrityResult) \<Rightarrow> Expected gomap option \<Rightarrow> int \<Rightarrow> bool \<Rightarrow>
   Entry \<Rightarrow> scrub_acc \<Rightarrow> GoError option \<times> scrub_acc" where
  "scrub_callback env check expected limit staging entry acc =
     (let state = stateFromEntry entry in
      if st_Type state \<noteq> FileTypeRegular then (None, acc)
      else
        (case check state of
           Inl err \<Rightarrow> (Some (ErrWrap (''check '' @ quote (st_Path state) @ '': '') err []), acc)
         | Inr result \<Rightarrow>
             let report = (sc_report acc)\<lparr>ig_Scanned := ig_Scanned (sc_report acc) + 1\<rparr> in
             if ir_Valid result \<and> fingerprint_ok expected state result
             then (None, acc\<lparr>sc_report := report\<lparr>ig_Healthy := ig_Healthy report + 1\<rparr>\<rparr>)
             else
               let event = corrupt_event (su_eventTime env (length (sc_allEvents acc))) state;
                   acc = acc\<lparr>sc_report := report_corrupt limit event report\<rparr>
               in if staging then
                    (case su_encode env (length (sc_stage acc)) of
                       Some err \<Rightarrow> (Some err, acc)
                     | None \<Rightarrow> (None, acc\<lparr>sc_stage := sc_stage acc @ [staged event],
                                        sc_allEvents := sc_allEvents acc @ [event]\<rparr>))
                  else (None, acc\<lparr>sc_allEvents := sc_allEvents acc @ [event]\<rparr>)))"

section \<open>Delivery of the staged events\<close>

definition pending_integrity :: "('s, 'k, 'b) Tracker \<Rightarrow> IntegrityReport \<Rightarrow> Event list \<Rightarrow> pendingGeneration" where
  "pending_integrity t report events =
     \<lparr>pg_kind = pendingIntegrity, pg_sessionID = t_sessionID t, pg_generation = ig_Generation report,
      pg_report = zero_report, pg_events = cloneEvents events, pg_puts = [], pg_deletes = [],
      pg_integrity = Some report\<rparr>"

text \<open>
  From the end of the scan to the end of the delivery: the error if any, and the tracker, which
  retains the generation when the sink refused a batch.
\<close>

definition deliver_stage ::
  "ScrubEnv \<Rightarrow> scrub_acc \<Rightarrow> ('s, 'k, 'b) Tracker \<Rightarrow> GoError option \<times> ('s, 'k, 'b) Tracker" where
  "deliver_stage env acc t =
     (let report = sc_report acc;
          retain = (\<lambda>k. t\<lparr>t_sinkState := k, t_pending := Some (pending_integrity t report (sc_allEvents acc))\<rparr>)
      in case su_close env of
           Some err \<Rightarrow> (Some (ErrWrap ''fsrecon: close integrity change log: '' err []), t)
         | None \<Rightarrow>
      (case su_open env of
           Some err \<Rightarrow> (Some (ErrWrap ''fsrecon: open integrity change log: '' err []), t)
         | None \<Rightarrow>
      (case for_each (Add_event (cf_ChangeSink (t_config t))) (map eventFromStaged (fst (su_read env (sc_stage acc))))
              (newChangeBatcher (t_sessionID t) (ig_Generation report) (cf_ChangeBatchSize (t_config t)), t_sinkState t) of
           (Some err, b, k) \<Rightarrow> (Some err, retain k)
         | (None, b, k) \<Rightarrow>
      (case snd (su_read env (sc_stage acc)) of
           Some err \<Rightarrow> (Some (ErrWrap ''fsrecon: read integrity change log: '' err []), t\<lparr>t_sinkState := k\<rparr>)
         | None \<Rightarrow>
      (case su_inputClose env of
           Some err \<Rightarrow> (Some (ErrWrap ''fsrecon: close integrity change log: '' err []), t\<lparr>t_sinkState := k\<rparr>)
         | None \<Rightarrow>
      (case Finish (cf_ChangeSink (t_config t)) (b, k) of
           (Some err, b, k) \<Rightarrow> (Some err, retain k)
         | (None, b, k) \<Rightarrow> (None, t\<lparr>t_sinkState := k\<rparr>)))))))"

section \<open>Scrub\<close>

type_synonym ('s, 'k, 'b) scrub_result = "(IntegrityReport \<times> GoError option) \<times> ('s, 'k, 'b) Tracker"

definition scrub_run ::
  "ScrubEnv \<Rightarrow> (FileState \<Rightarrow> GoError + IntegrityResult) \<Rightarrow> ('s, 'k, 'b) Tracker \<Rightarrow> ('s, 'k, 'b) scrub_result option" where
  "scrub_run env check t =
     (let report = zero_integrity\<lparr>ig_StartedAt := su_started env, ig_Generation := t_generation t + 1\<rparr>;
          staging = (cf_ChangeSink (t_config t) \<noteq> None)
      in if staging \<and> su_create env \<noteq> None
         then Some ((report, Some (ErrWrap ''fsrecon: create integrity change log: '' (the (su_create env)) [])), t)
         else
      (case loadExpectedScopes (su_lstat env) (su_ctx env UseGet) t [t_root t] of
         Inl err \<Rightarrow> Some ((report, Some err), t)
       | Inr expected \<Rightarrow>
      (case Scan (tracker_scanner (t_config t)) (su_fs env) (su_ctx env (UseScan (t_root t))) (su_fuel env) (t_root t)
              (scrub_callback env check expected (cf_ReportEventLimit (t_config t)) staging)
              \<lparr>sc_report = report, sc_allEvents = [], sc_stage = []\<rparr> of
         None \<Rightarrow> None
       | Some (scanErr, acc0) \<Rightarrow>
           let acc = acc0\<lparr>sc_report := (sc_report acc0)\<lparr>ig_Duration := su_elapsed env\<rparr>\<rparr>;
               report = sc_report acc
           in (case scanErr of
                 Some err \<Rightarrow> Some ((report, Some (ErrWrap ''fsrecon: integrity scrub: '' err [])), t)
               | None \<Rightarrow>
           (case (if staging then deliver_stage env acc t else (None, t)) of
              (Some err, t) \<Rightarrow> Some ((report, Some err), t)
            | (None, t) \<Rightarrow>
                Some ((report, None),
                  fold sendEvent (ig_Events report)
                    (t\<lparr>t_stats := count_integrity report (t_stats t), t_generation := ig_Generation report\<rparr>)))))))"

definition Scrub ::
  "ScrubEnv \<Rightarrow> ('s, 'k, 'b) Tracker \<Rightarrow> ('s, 'k, 'b) scrub_result option" where
  "Scrub env t =
     (case cf_Integrity (t_config t) of
        None \<Rightarrow> Some ((zero_integrity, Some ErrNoIntegrity), t)
      | Some check \<Rightarrow>
          if t_closed t then Some ((zero_integrity, Some ErrClosed), t)
          else
            (case t_pending t of
               None \<Rightarrow> scrub_run env check t
             | Some p \<Rightarrow>
                 if pg_kind p = pendingReconcile then
                   (case resumePending (su_ctx env) (su_started env) (su_elapsed env) p t of
                      ((_, Some err), t) \<Rightarrow> Some ((zero_integrity, Some err), t)
                    | ((_, None), t) \<Rightarrow> scrub_run env check t)
                 else Some (resumePendingIntegrity t)))"

section \<open>Lemmas\<close>

definition regular_entry :: "Entry \<Rightarrow> bool" where
  "regular_entry entry = (fileType (en_Mode entry) = FileTypeRegular)"

definition corrupt_entry ::
  "(FileState \<Rightarrow> GoError + IntegrityResult) \<Rightarrow> Expected gomap option \<Rightarrow> Entry \<Rightarrow> bool" where
  "corrupt_entry check expected entry = (regular_entry entry \<and>
     (\<exists>result. check (stateFromEntry entry) = Inr result \<and>
        \<not> (ir_Valid result \<and> fingerprint_ok expected (stateFromEntry entry) result)))"

lemma stateFromEntry_simps [simp]:
  "st_Type (stateFromEntry e) = fileType (en_Mode e)" "st_Path (stateFromEntry e) = en_Path e"
  by (simp_all add: stateFromEntry_def)

text \<open>What the report and the stage know about the events found so far.\<close>

definition scrub_ok :: "int \<Rightarrow> bool \<Rightarrow> scrub_acc \<Rightarrow> bool" where
  "scrub_ok limit staging acc =
     (ig_Corrupt (sc_report acc) = of_nat (length (sc_allEvents acc)) \<and>
      ig_Events (sc_report acc) = take (nat limit) (sc_allEvents acc) \<and>
      ig_EventsTruncated (sc_report acc) = of_nat (length (sc_allEvents acc) - nat limit) \<and>
      (staging \<longrightarrow> sc_stage acc = map staged (sc_allEvents acc)))"

lemma report_corrupt_ok:
  assumes "0 \<le> limit" and "scrub_ok limit staging acc" and "sc_report acc' = report_corrupt limit e r"
    and "ig_Corrupt r = ig_Corrupt (sc_report acc)" "ig_Events r = ig_Events (sc_report acc)"
      "ig_EventsTruncated r = ig_EventsTruncated (sc_report acc)"
    and "sc_allEvents acc' = sc_allEvents acc @ [e]" and "staging \<longrightarrow> sc_stage acc' = sc_stage acc @ [staged e]"
  shows "scrub_ok limit staging acc'"
proof (cases "length (sc_allEvents acc) < nat limit")
  case True
  then have "int (length (ig_Events r)) < limit" using assms(1,2,5) by (simp add: scrub_ok_def)
  with True assms show ?thesis by (simp add: scrub_ok_def report_corrupt_def)
next
  case False
  then have "\<not> int (length (ig_Events r)) < limit" using assms(1,2,5) by (simp add: scrub_ok_def)
  with False assms show ?thesis by (simp add: scrub_ok_def report_corrupt_def Suc_diff_le)
qed

lemma scrub_callback_step:
  assumes "0 \<le> limit" and "scrub_ok limit staging acc"
    and run: "scrub_callback env check expected limit staging entry acc = (None, acc')"
  shows "scrub_ok limit staging acc' \<and>
    map ev_After (sc_allEvents acc') = map ev_After (sc_allEvents acc) @
      (if corrupt_entry check expected entry then [Some (stateFromEntry entry)] else []) \<and>
    ig_Scanned (sc_report acc') = ig_Scanned (sc_report acc) + (if regular_entry entry then 1 else 0) \<and>
    ig_Healthy (sc_report acc') = ig_Healthy (sc_report acc) +
      (if regular_entry entry \<and> \<not> corrupt_entry check expected entry then 1 else 0) \<and>
    ig_Generation (sc_report acc') = ig_Generation (sc_report acc)"
proof (cases "regular_entry entry")
  case False
  with run assms(2) show ?thesis by (simp add: scrub_callback_def regular_entry_def corrupt_entry_def)
next
  case reg: True
  then obtain result where res: "check (stateFromEntry entry) = Inr result"
    using run by (cases "check (stateFromEntry entry)") (simp_all add: scrub_callback_def regular_entry_def)
  have cor: "corrupt_entry check expected entry \<longleftrightarrow>
      \<not> (ir_Valid result \<and> fingerprint_ok expected (stateFromEntry entry) result)"
    using reg res by (simp add: corrupt_entry_def)
  let ?r = "(sc_report acc)\<lparr>ig_Scanned := ig_Scanned (sc_report acc) + 1\<rparr>"
  show ?thesis
  proof (cases "corrupt_entry check expected entry")
    case False
    then have "acc' = acc\<lparr>sc_report := ?r\<lparr>ig_Healthy := ig_Healthy ?r + 1\<rparr>\<rparr>"
      using run reg res cor by (simp add: scrub_callback_def regular_entry_def Let_def)
    with False reg assms(2) show ?thesis by (simp add: scrub_ok_def)
  next
    case True
    let ?e = "corrupt_event (su_eventTime env (length (sc_allEvents acc))) (stateFromEntry entry)"
    have a: "sc_report acc' = report_corrupt limit ?e ?r" "sc_allEvents acc' = sc_allEvents acc @ [?e]"
      "staging \<longrightarrow> sc_stage acc' = sc_stage acc @ [staged ?e]"
      using run reg res cor True by (auto simp: scrub_callback_def regular_entry_def Let_def split: option.splits if_splits)
    have "scrub_ok limit staging acc'" by (rule report_corrupt_ok [OF assms(1,2) a(1) _ _ _ a(2,3)]) simp_all
    moreover have "ig_Scanned (report_corrupt limit ?e ?r) = ig_Scanned ?r" "ig_Healthy (report_corrupt limit ?e ?r) = ig_Healthy ?r"
      "ig_Generation (report_corrupt limit ?e ?r) = ig_Generation ?r" by (simp_all add: report_corrupt_def)
    moreover have "ev_After ?e = Some (stateFromEntry entry)" by (simp add: corrupt_event_def)
    ultimately show ?thesis using True reg a(1,2) by simp
  qed
qed

lemma scrub_loop:
  assumes "0 \<le> limit" and "scrub_ok limit staging acc"
    and "for_each (scrub_callback env check expected limit staging) es acc = (None, acc')"
  shows "scrub_ok limit staging acc' \<and>
    map ev_After (sc_allEvents acc') = map ev_After (sc_allEvents acc) @
      map (\<lambda>e. Some (stateFromEntry e)) (filter (corrupt_entry check expected) es) \<and>
    ig_Scanned (sc_report acc') = ig_Scanned (sc_report acc) + of_nat (length (filter regular_entry es)) \<and>
    ig_Healthy (sc_report acc') = ig_Healthy (sc_report acc) +
      of_nat (length (filter (\<lambda>e. regular_entry e \<and> \<not> corrupt_entry check expected e) es)) \<and>
    ig_Generation (sc_report acc') = ig_Generation (sc_report acc)"
  using assms(2,3)
proof (induction es arbitrary: acc)
  case (Cons e es)
  obtain err acc1 where r: "scrub_callback env check expected limit staging e acc = (err, acc1)" by fastforce
  with Cons.prems(2) have err: "err = None" by (auto split: option.splits)
  note s = scrub_callback_step [OF assms(1) Cons.prems(1) r [unfolded err]]
  from Cons.IH [OF conjunct1 [OF s]] Cons.prems(2) r err s show ?case by (simp add: algebra_simps)
qed simp

lemma deliver_stage_faithful:
  assumes "cf_ChangeSink (t_config t) = Some sink" and "cf_ChangeBatchSize (t_config t) = int n" and "0 < n"
    and "su_read env (sc_stage acc) = (map staged (sc_allEvents acc), None)"
    and "deliver_stage env acc t = (None, t')"
  shows "offer sink (batches (t_sessionID t) (ig_Generation (sc_report acc)) n (sc_allEvents acc)) (t_sinkState t) = (True, t_sinkState t')"
proof -
  have "map eventFromStaged (map staged (sc_allEvents acc)) = sc_allEvents acc" by (simp add: comp_def)
  then have "deliver (Some sink) (t_sessionID t) (ig_Generation (sc_report acc)) (int n) (sc_allEvents acc) (t_sinkState t) =
      (None, t_sinkState t')"
    using assms by (auto simp: deliver_stage_def deliver_def Let_def split: option.splits prod.splits)
  with deliver_offer [OF assms(3), of sink "t_sessionID t" "ig_Generation (sc_report acc)" "sc_allEvents acc" "t_sinkState t"]
  show ?thesis by simp
qed

lemma deliver_stage_keeps:
  assumes "deliver_stage env acc t = (err, t')"
  shows "t_snapshot t' = t_snapshot t" "t_generation t' = t_generation t" "err = None \<Longrightarrow> t_pending t' = t_pending t"
  using assms by (auto simp: deliver_stage_def Let_def split: option.splits prod.splits)

section \<open>Properties\<close>



text \<open>C28: what a successful scrub finds. When the scan of the tree yields the entries \<open>es\<close>:
  every regular file is counted once, as corrupt when the checker or the expected fingerprint
  disagrees and as healthy otherwise; the listed events are the corrupt files in scan order up to
  the limit and the rest is counted as truncated; and a sink was offered, in numbered batches and
  under the report's generation, exactly one event per corrupt file, provided the temporary file
  gives back what was written to it.\<close>

theorem scrub_exact:
  assumes check: "cf_Integrity (t_config t) = Some check" and "t_pending t = None"
    and limit: "0 \<le> cf_ReportEventLimit (t_config t)"
    and expected: "loadExpectedScopes (su_lstat env) (su_ctx env UseGet) t [t_root t] = Inr expected"
    and scan: "Scan (tracker_scanner (t_config t)) (su_fs env) (su_ctx env (UseScan (t_root t))) (su_fuel env) (t_root t)
        log_entry [] = Some (None, es)"
    and run: "Scrub env t = Some ((report, None), t')"
  shows "\<exists>evs. map ev_After evs = map (\<lambda>e. Some (stateFromEntry e)) (filter (corrupt_entry check expected) es) \<and>
    ig_Scanned report = of_nat (length (filter regular_entry es)) \<and>
    ig_Corrupt report = of_nat (length evs) \<and>
    ig_Healthy report = of_nat (length (filter (\<lambda>e. regular_entry e \<and> \<not> corrupt_entry check expected e) es)) \<and>
    ig_Events report = take (nat (cf_ReportEventLimit (t_config t))) evs \<and>
    ig_EventsTruncated report = of_nat (length evs - nat (cf_ReportEventLimit (t_config t))) \<and>
    (\<forall>sink n. cf_ChangeSink (t_config t) = Some sink \<longrightarrow> cf_ChangeBatchSize (t_config t) = int n \<longrightarrow> 0 < n \<longrightarrow>
       (\<forall>stage. su_read env stage = (stage, None)) \<longrightarrow>
       offer sink (batches (t_sessionID t) (t_generation t + 1) n evs) (t_sinkState t) = (True, t_sinkState t'))"
proof -
  let ?limit = "cf_ReportEventLimit (t_config t)" and ?staging = "cf_ChangeSink (t_config t) \<noteq> None"
  let ?r0 = "zero_integrity\<lparr>ig_StartedAt := su_started env, ig_Generation := t_generation t + 1\<rparr>"
  let ?acc0 = "\<lparr>sc_report = ?r0, sc_allEvents = [], sc_stage = []\<rparr>"
  let ?timed = "\<lambda>acc. acc\<lparr>sc_report := (sc_report acc)\<lparr>ig_Duration := su_elapsed env\<rparr>\<rparr>"
  obtain err acc where loop: "for_each (scrub_callback env check expected ?limit ?staging) es ?acc0 = (err, acc)" by fastforce
  have "scrub_run env check t = Some ((report, None), t')"
    using run check assms(2) by (auto simp: Scrub_def split: if_splits)
  note body = this [unfolded scrub_run_def Let_def expected sum.case Scan_for_each [OF scan] loop]
  then have err: "err = None" by (auto split: if_splits option.splits)
  with body have rep: "report = sc_report (?timed acc)"
    and stage: "?staging \<longrightarrow> (\<exists>t1. deliver_stage env (?timed acc) t = (None, t1) \<and> t_sinkState t' = t_sinkState t1)"
    by (auto split: if_splits option.splits prod.splits)
  have "scrub_ok ?limit ?staging ?acc0" by (simp add: scrub_ok_def zero_integrity_def)
  from scrub_loop [OF limit this loop [unfolded err]]
  have ok: "scrub_ok ?limit ?staging acc"
    and evs: "map ev_After (sc_allEvents acc) = map (\<lambda>e. Some (stateFromEntry e)) (filter (corrupt_entry check expected) es)"
    and cnt: "ig_Scanned (sc_report acc) = of_nat (length (filter regular_entry es))"
      "ig_Healthy (sc_report acc) = of_nat (length (filter (\<lambda>e. regular_entry e \<and> \<not> corrupt_entry check expected e) es))"
      "ig_Generation (sc_report acc) = t_generation t + 1"
    by (simp_all add: zero_integrity_def)
  have sink: "offer sink (batches (t_sessionID t) (t_generation t + 1) n (sc_allEvents acc)) (t_sinkState t) = (True, t_sinkState t')"
    if s: "cf_ChangeSink (t_config t) = Some sink" "cf_ChangeBatchSize (t_config t) = int n" "0 < n"
      "\<forall>stage. su_read env stage = (stage, None)" for sink n
  proof -
    obtain t1 where t1: "deliver_stage env (?timed acc) t = (None, t1)" "t_sinkState t' = t_sinkState t1"
      using stage s(1) by auto
    have "su_read env (sc_stage (?timed acc)) = (map staged (sc_allEvents (?timed acc)), None)"
      using ok s(1,4) by (simp add: scrub_ok_def)
    from deliver_stage_faithful [OF s(1-3) this t1(1)] t1(2) cnt(3) show ?thesis by simp
  qed
  show ?thesis
    by (rule exI [of _ "sc_allEvents acc"]) (use evs cnt ok sink rep in \<open>simp add: scrub_ok_def\<close>)
qed

text \<open>C30: the SHA-256 checker hashes the whole file. When the file opens and its reads deliver
  data until the end of the file, the check returns, and the fingerprint is the hash of the bytes of
  all reads in order, those of the read that reports the end included; a failed read or a cancelled
  context is an error, never a fingerprint of a part.\<close>

theorem sha256_check_whole:
  assumes "open (st_Path state) = Inr file" and "\<forall>j < n. snd (file j) = ReadMore" and "n < fuel"
    and "\<forall>j < n. ctx (PollIter j) = None"
  shows "SHA256_Check digest open fuel ctx state =
    (case ctx (PollIter n) of
       Some err \<Rightarrow> Some (Inl err)
     | None \<Rightarrow>
        (case snd (file n) of
           ReadEOF \<Rightarrow> Some (Inr \<lparr>ir_Valid = True,
             ir_Fingerprint = digest (concat (map (\<lambda>j. fst (file j)) [0..<Suc n])), ir_Reason = []\<rparr>)
         | ReadErr err \<Rightarrow> Some (Inl err)
         | ReadMore \<Rightarrow> check_loop digest ctx file (fuel - Suc n) (Suc n) (concat (map (\<lambda>j. fst (file j)) [0..<Suc n]))))"
proof -
  obtain f where f: "fuel - n = Suc f" using assms(3) by (metis Suc_diff_Suc)
  with assms(3) have "fuel - Suc n = f" by simp
  then show ?thesis
    using check_loop_reads [of n "file" 0 ctx fuel digest "[]"] assms f
    by (auto simp: SHA256_Check_def split: option.splits prod.splits ReadEnd.splits)
qed

section \<open>Concrete runs\<close>

theorem sha256_check_whole_witness:
  "SHA256_Check rev (\<lambda>_. Inr (\<lambda>i. if i = 0 then ([1, 2], ReadMore) else ([3], ReadEOF))) 5 background zero_FileState =
     Some (Inr \<lparr>ir_Valid = True, ir_Fingerprint = [3, 2, 1], ir_Reason = []\<rparr>)"
  using sha256_check_whole [of "\<lambda>_. Inr (\<lambda>i. if i = 0 then ([1, 2], ReadMore) else ([3], ReadEOF))" zero_FileState _ 1 5 background rev]
  by (simp add: upt_rec)

definition ex_check :: "FileState \<Rightarrow> GoError + IntegrityResult" where
  "ex_check state = Inr \<lparr>ir_Valid = (st_Path state \<noteq> ''/r/a''), ir_Fingerprint = [], ir_Reason = []\<rparr>"

definition ex_scrub_env :: ScrubEnv where
  "ex_scrub_env = \<lparr>su_ctx = (\<lambda>_. background), su_lstat = fs_Lstat ex_fs, su_fs = ex_fs, su_fuel = 3, su_started = 0,
     su_elapsed = 4, su_eventTime = (\<lambda>_. 0), su_create = None, su_encode = (\<lambda>_. None), su_close = None, su_open = None,
     su_read = (\<lambda>stage. (stage, None)), su_inputClose = None\<rparr>"

definition ex_scrub_tracker :: "(MemoryStore, nat, unit) Tracker" where
  "ex_scrub_tracker = \<lparr>t_config = \<lparr>cf_Root = ''/r'', cf_Recursive = True, cf_Expected = None,
       cf_ExpectedScope = ExpectedRegularFiles, cf_ChangeSink = Some (\<lambda>k b. (None, k + length (cb_Events b))),
       cf_Integrity = Some ex_check, cf_Store = None, cf_Filter = None, cf_SymlinkPolicy = IgnoreSymlinks,
       cf_HardlinkPolicy = AllowHardlinks, cf_DebounceWindow = 0, cf_ReconcileInterval = 0, cf_EventBuffer = 0,
       cf_ReportEventLimit = 10, cf_ChangeBatchSize = 2\<rparr>,
     t_root = ''/r'', t_store = memory_store, t_snapshot = ex_snapshot, t_sinkState = 0, t_state = StateSynced,
     t_started = False, t_closed = False, t_backendHealthy = False, t_sessionID = ''s'', t_backendOps = ex_backend_ops,
     t_backend = (), t_watchTree = None, t_events = make_chan 2, t_errors = make_chan 16, t_channelsClosed = False,
     t_stats = zero_stats, t_generation = 6, t_pending = None, t_dirtyPending = False\<rparr>"

definition scrub_summary ::
  "(MemoryStore, nat, unit) scrub_result option \<Rightarrow> (GoError option \<times> string list \<times> 64 word \<times> 64 word \<times> nat \<times> 64 word) option" where
  "scrub_summary = map_option (\<lambda>((r, e), t). (e, map ev_Path (ig_Events r), ig_Scanned r, ig_Healthy r, t_sinkState t, t_generation t))"

lemma ex_scrub_result: "scrub_summary (Scrub ex_scrub_env ex_scrub_tracker) = Some (None, [''/r/a''], 2, 1, 1, 7)"
  by code_simp


theorem scrub_exact_witness:
  "\<exists>report t' evs. Scrub ex_scrub_env ex_scrub_tracker = Some ((report, None), t') \<and>
     map ev_Path (take 10 evs) = [''/r/a''] \<and> ig_Corrupt report = of_nat (length evs) \<and>
     offer (\<lambda>k b. (None, k + length (cb_Events b))) (batches ''s'' 7 2 evs) 0 = (True, t_sinkState t')"
proof -
  let ?t = ex_scrub_tracker and ?env = ex_scrub_env
  obtain report t' where r: "Scrub ?env ?t = Some ((report, None), t')" and p: "map ev_Path (ig_Events report) = [''/r/a'']"
    using ex_scrub_result by (auto simp: scrub_summary_def)
  have cfg: "cf_Integrity (t_config ?t) = Some ex_check" "t_pending ?t = None" "0 \<le> cf_ReportEventLimit (t_config ?t)"
    "loadExpectedScopes (su_lstat ?env) (su_ctx ?env UseGet) ?t [t_root ?t] = Inr None"
    "nat (cf_ReportEventLimit (t_config ?t)) = 10" "cf_ChangeSink (t_config ?t) = Some (\<lambda>k b. (None, k + length (cb_Events b)))"
    "cf_ChangeBatchSize (t_config ?t) = int 2" "t_sessionID ?t = ''s''" "t_generation ?t + 1 = 7" "t_sinkState ?t = 0"
    "\<forall>stage. su_read ?env stage = (stage, None)"
    by (simp_all add: ex_scrub_tracker_def ex_scrub_env_def loadExpectedScopes_def)
  have "map_option fst (Scan (tracker_scanner (t_config ?t)) (su_fs ?env) (su_ctx ?env (UseScan (t_root ?t))) (su_fuel ?env)
      (t_root ?t) log_entry []) = Some None" by code_simp
  then obtain es where "Scan (tracker_scanner (t_config ?t)) (su_fs ?env) (su_ctx ?env (UseScan (t_root ?t))) (su_fuel ?env)
      (t_root ?t) log_entry [] = Some (None, es)" by auto
  from scrub_exact [OF cfg(1-4) this r, unfolded cfg(5-10)]
  obtain evs where evs: "ig_Events report = take 10 evs" "ig_Corrupt report = of_nat (length evs)"
    "offer (\<lambda>k b. (None, k + length (cb_Events b))) (batches ''s'' 7 2 evs) 0 = (True, t_sinkState t')"
    using cfg(11) by fastforce
  have "map ev_Path (take 10 evs) = [''/r/a'']" using p unfolding evs(1) .
  with r evs(2,3) show ?thesis by (intro exI [of _ report] exI [of _ t'] exI [of _ evs] conjI)
qed

end
