(* ===== verification/Bolt_Store.thy ===== *)
theory Bolt_Store
  imports Memory_Store Staged_Events
begin

text \<open>
  \<open>BoltStore\<close> (\<open>bolt_store.go\<close>): the snapshot store in a bbolt database. bbolt and the JSON text
  are parameters: a record of the operations of a database and its transactions, and a record of
  the functions that turn structures into bytes and back. What the code relies on are the documented
  laws of bbolt, gathered in \<open>bolt_laws\<close>: a transaction sees what is committed, a commit publishes
  what the transaction wrote or nothing, a bucket is a map, and a cursor visits its keys in byte order.
  The theory shows that the store obeys the laws of a snapshot store, and how far its subtree walk
  reaches.
\<close>

section \<open>bbolt and JSON\<close>

text \<open>
  A database of type \<open>'d\<close> and an open transaction of type \<open>'k\<close>, whose buckets are addressed by
  name. \<open>bo_Seek\<close> and \<open>bo_First\<close> are what a cursor yields from the position on, up to the end.
\<close>

record ('d, 'k) Bolt =
  bo_Begin :: "bool \<Rightarrow> 'd \<Rightarrow> GoError + 'k"
  bo_Commit :: "'k \<Rightarrow> 'd \<Rightarrow> GoError option \<times> 'd"
  bo_Close :: "'d \<Rightarrow> GoError option \<times> 'd"
  bo_Get :: "'k \<Rightarrow> string \<Rightarrow> string \<Rightarrow> string option"
  bo_Seek :: "'k \<Rightarrow> string \<Rightarrow> string \<Rightarrow> (string \<times> string) list"
  bo_First :: "'k \<Rightarrow> string \<Rightarrow> (string \<times> string) list"
  bo_Put :: "string \<Rightarrow> string \<Rightarrow> string \<Rightarrow> 'k \<Rightarrow> GoError option \<times> 'k"
  bo_Delete :: "string \<Rightarrow> string \<Rightarrow> 'k \<Rightarrow> GoError option \<times> 'k"
  bo_CreateBucket :: "string \<Rightarrow> 'k \<Rightarrow> GoError option \<times> 'k"
  bo_CreateBucketIfNotExists :: "string \<Rightarrow> 'k \<Rightarrow> GoError option \<times> 'k"
  bo_DeleteBucket :: "string \<Rightarrow> 'k \<Rightarrow> GoError option \<times> 'k"
  bo_NextSequence :: "string \<Rightarrow> 'k \<Rightarrow> (GoError + 64 word) \<times> 'k"

record JSON =
  js_State :: "storedFileState \<Rightarrow> GoError + string"
  js_toState :: "string \<Rightarrow> GoError + storedFileState"
  js_Event :: "stagedEvent \<Rightarrow> GoError + string"
  js_toEvent :: "string \<Rightarrow> GoError + stagedEvent"
  js_Entry :: "ExpectedEntry \<Rightarrow> GoError + string"
  js_toEntry :: "string \<Rightarrow> GoError + ExpectedEntry"

text \<open>
  \<open>db.View\<close> and \<open>db.Update\<close>: the function runs in a transaction and changes variables it captured.
  An error of the function, or of the commit, leaves the database as it was.
\<close>

definition db_View :: "('d, 'k) Bolt \<Rightarrow> ('k \<Rightarrow> 'a \<Rightarrow> GoError option \<times> 'a) \<Rightarrow> 'd \<Rightarrow> 'a \<Rightarrow> GoError option \<times> 'a" where
  "db_View bo fn d a = (case bo_Begin bo False d of Inl err \<Rightarrow> (Some err, a) | Inr tx \<Rightarrow> fn tx a)"

definition db_Update ::
  "('d, 'k) Bolt \<Rightarrow> ('k \<times> 'a \<Rightarrow> GoError option \<times> 'k \<times> 'a) \<Rightarrow> 'd \<Rightarrow> 'a \<Rightarrow> GoError option \<times> 'd \<times> 'a" where
  "db_Update bo fn d a =
     (case bo_Begin bo True d of
        Inl err \<Rightarrow> (Some err, d, a)
      | Inr tx \<Rightarrow>
          (case fn (tx, a) of
             (Some err, _, a') \<Rightarrow> (Some err, d, a')
           | (None, tx', a') \<Rightarrow> (case bo_Commit bo tx' d of (err, d') \<Rightarrow> (err, d', a'))))"

text \<open>A write to a bucket inside the function of a transaction, beside the captured variables.\<close>

definition on_tx :: "('k \<Rightarrow> GoError option \<times> 'k) \<Rightarrow> 'k \<times> 'a \<Rightarrow> GoError option \<times> 'k \<times> 'a" where
  "on_tx f s = (case s of (tx, a) \<Rightarrow> case f tx of (err, tx') \<Rightarrow> (err, tx', a))"

lemma on_tx_iff: "on_tx f (tx, a) = (err, tx', a') \<longleftrightarrow> f tx = (err, tx') \<and> a' = a"
  by (auto simp: on_tx_def split: prod.splits)

definition ErrBucketNotFound :: GoError where
  "ErrBucketNotFound = ErrMsg ''bucket not found''"

section \<open>BoltStore\<close>

definition snapshotBucket :: string where
  "snapshotBucket = ''fsrecon.snapshot.v1''"

record 'd BoltStore =
  bs_db :: 'd
  bs_closed :: bool

definition OpenBoltStore ::
  "('d, 'k) Bolt \<Rightarrow> (string \<Rightarrow> GoError + 'd) \<Rightarrow> string \<Rightarrow> GoError + 'd BoltStore" where
  "OpenBoltStore bo open path =
     (if path = [] then Inl (ErrMsg ''fsrecon: bolt store path is required'')
      else
        (case open (Clean path) of
           Inl err \<Rightarrow> Inl (ErrWrap ''fsrecon: open bolt store: '' err [])
         | Inr d \<Rightarrow>
             (case db_Update bo (on_tx (bo_CreateBucketIfNotExists bo snapshotBucket)) d () of
                (Some err, _) \<Rightarrow> Inl (ErrWrap ''fsrecon: initialize bolt store: '' err [])
              | (None, d', _) \<Rightarrow> Inr \<lparr>bs_db = d', bs_closed = False\<rparr>)))"

definition database :: "'d BoltStore \<Rightarrow> GoError + 'd" where
  "database s = (if bs_closed s then Inl (ErrMsg ''fsrecon: bolt store is closed'') else Inr (bs_db s))"

definition bs_Get :: "('d, 'k) Bolt \<Rightarrow> JSON \<Rightarrow> Ctx \<Rightarrow> 'd BoltStore \<Rightarrow> string \<Rightarrow> GoError + FileState option" where
  "bs_Get bo json ctx s path =
     (case ctx PollEnter of
        Some err \<Rightarrow> Inl err
      | None \<Rightarrow>
     (case database s of
        Inl err \<Rightarrow> Inl err
      | Inr db \<Rightarrow>
     (case db_View bo (\<lambda>tx found.
              case bo_Get bo tx snapshotBucket path of
                None \<Rightarrow> (None, found)
              | Some value \<Rightarrow>
                  (case decodeFileState (js_toState json) value of
                     Inl err \<Rightarrow> (Some err, found)
                   | Inr state \<Rightarrow> (None, Some state))) db None of
        (Some err, _) \<Rightarrow> Inl err
      | (None, found) \<Rightarrow> Inr found)))"

text \<open>The body of the transaction of \<open>Apply\<close>; the context is polled before every write.\<close>

definition apply_writes ::
  "('d, 'k) Bolt \<Rightarrow> JSON \<Rightarrow> Ctx \<Rightarrow> FileState list \<Rightarrow> string list \<Rightarrow> 'k \<Rightarrow> GoError option \<times> 'k" where
  "apply_writes bo json ctx puts deletes tx =
     (case for_each (\<lambda>(i, path) tx.
              case ctx (PollIter i) of
                Some err \<Rightarrow> (Some err, tx)
              | None \<Rightarrow> bo_Delete bo snapshotBucket path tx) (enumerate 0 deletes) tx of
        (Some err, tx) \<Rightarrow> (Some err, tx)
      | (None, tx) \<Rightarrow>
          for_each (\<lambda>(i, state) tx.
              case ctx (PollIter i) of
                Some err \<Rightarrow> (Some err, tx)
              | None \<Rightarrow>
                  (case encodeFileState (js_State json) state of
                     Inl err \<Rightarrow> (Some err, tx)
                   | Inr value \<Rightarrow> bo_Put bo snapshotBucket (st_Path state) value tx)) (enumerate (length deletes) puts) tx)"

definition bs_Apply ::
  "('d, 'k) Bolt \<Rightarrow> JSON \<Rightarrow> Ctx \<Rightarrow> FileState list \<Rightarrow> string list \<Rightarrow> 'd BoltStore \<Rightarrow> GoError option \<times> 'd BoltStore" where
  "bs_Apply bo json ctx puts deletes s =
     (case ctx PollEnter of
        Some err \<Rightarrow> (Some err, s)
      | None \<Rightarrow>
     (case database s of
        Inl err \<Rightarrow> (Some err, s)
      | Inr db \<Rightarrow>
          (case db_Update bo (on_tx (apply_writes bo json ctx puts deletes)) db () of
             (err, db', _) \<Rightarrow> (err, s\<lparr>bs_db := db'\<rparr>))))"

definition bs_Put :: "('d, 'k) Bolt \<Rightarrow> JSON \<Rightarrow> Ctx \<Rightarrow> FileState \<Rightarrow> 'd BoltStore \<Rightarrow> GoError option \<times> 'd BoltStore" where
  "bs_Put bo json ctx state s = bs_Apply bo json ctx [state] [] s"

definition bs_Delete :: "('d, 'k) Bolt \<Rightarrow> JSON \<Rightarrow> Ctx \<Rightarrow> string \<Rightarrow> 'd BoltStore \<Rightarrow> GoError option \<times> 'd BoltStore" where
  "bs_Delete bo json ctx path s = bs_Apply bo json ctx [] [path] s"

text \<open>The loop over the cursor of \<open>WalkScope\<close>: it ends at the first key outside the prefix.\<close>

fun walk_cursor ::
  "JSON \<Rightarrow> Ctx \<Rightarrow> string \<Rightarrow> 'a callback \<Rightarrow> nat \<Rightarrow> (string \<times> string) list \<Rightarrow> 'a \<Rightarrow> GoError option \<times> 'a" where
  "walk_cursor json ctx pre fn i [] a = (None, a)"
| "walk_cursor json ctx pre fn i ((path, value) # kvs) a =
     (case ctx (PollIter i) of
        Some err \<Rightarrow> (Some err, a)
      | None \<Rightarrow>
          if \<not> pathHasPrefix path pre then (None, a)
          else
            (case decodeFileState (js_toState json) value of
               Inl err \<Rightarrow> (Some (ErrWrap (''decode snapshot '' @ quote path @ '': '') err []), a)
             | Inr state \<Rightarrow>
                 (case fn state a of
                    (Some err, a') \<Rightarrow> (Some err, a')
                  | (None, a') \<Rightarrow> walk_cursor json ctx pre fn (Suc i) kvs a')))"

definition bs_WalkScope ::
  "('d, 'k) Bolt \<Rightarrow> JSON \<Rightarrow> Ctx \<Rightarrow> 'd BoltStore \<Rightarrow> string \<Rightarrow> 'a callback \<Rightarrow> 'a \<Rightarrow> GoError option \<times> 'a" where
  "bs_WalkScope bo json ctx s pre fn a =
     (case ctx PollEnter of
        Some err \<Rightarrow> (Some err, a)
      | None \<Rightarrow>
     (case database s of
        Inl err \<Rightarrow> (Some err, a)
      | Inr db \<Rightarrow> db_View bo (\<lambda>tx. walk_cursor json ctx pre fn 0 (bo_Seek bo tx snapshotBucket pre)) db a))"

definition bs_Walk ::
  "('d, 'k) Bolt \<Rightarrow> JSON \<Rightarrow> Ctx \<Rightarrow> 'd BoltStore \<Rightarrow> string \<Rightarrow> 'a callback \<Rightarrow> 'a \<Rightarrow> GoError option \<times> 'a" where
  "bs_Walk bo json ctx s pre fn a = bs_WalkScope bo json ctx s pre fn a"

definition bs_Close :: "('d, 'k) Bolt \<Rightarrow> 'd BoltStore \<Rightarrow> GoError option \<times> 'd BoltStore" where
  "bs_Close bo s =
     (if bs_closed s then (None, s)
      else case bo_Close bo (bs_db s) of (err, db) \<Rightarrow> (err, s\<lparr>bs_closed := True, bs_db := db\<rparr>))"

text \<open>\<open>replaceSnapshot\<close>: the bucket is made anew from a bucket of another database.\<close>

definition replace_writes ::
  "('d, 'k) Bolt \<Rightarrow> Ctx \<Rightarrow> (string \<times> string) list \<Rightarrow> 'k \<Rightarrow> GoError option \<times> 'k" where
  "replace_writes bo ctx kvs tx =
     (case (case bo_DeleteBucket bo snapshotBucket tx of
              (Some err, tx') \<Rightarrow> if errors_Is err ErrBucketNotFound then (None, tx') else (Some err, tx')
            | (None, tx') \<Rightarrow> (None, tx')) of
        (Some err, tx) \<Rightarrow> (Some err, tx)
      | (None, tx) \<Rightarrow>
     (case bo_CreateBucket bo snapshotBucket tx of
        (Some err, tx) \<Rightarrow> (Some err, tx)
      | (None, tx) \<Rightarrow>
          for_each (\<lambda>(i, key, value) tx.
              case ctx (PollIter i) of
                Some err \<Rightarrow> (Some err, tx)
              | None \<Rightarrow> bo_Put bo snapshotBucket key value tx) (enumerate 0 kvs) tx))"

definition replaceSnapshot ::
  "('d, 'k) Bolt \<Rightarrow> Ctx \<Rightarrow> 'd \<Rightarrow> string \<Rightarrow> 'd BoltStore \<Rightarrow> GoError option \<times> 'd BoltStore" where
  "replaceSnapshot bo ctx source bucketName s =
     (case database s of
        Inl err \<Rightarrow> (Some err, s)
      | Inr db \<Rightarrow>
          db_View bo (\<lambda>sourceTx s.
             case db_Update bo (on_tx (replace_writes bo ctx (bo_First bo sourceTx bucketName))) db () of
               (err, db', _) \<Rightarrow> (err, s\<lparr>bs_db := db'\<rparr>)) source s)"

definition bolt_store :: "('d, 'k) Bolt \<Rightarrow> JSON \<Rightarrow> ('d BoltStore, 'a) SnapshotStore" where
  "bolt_store bo json = \<lparr>ss_Get = bs_Get bo json, ss_Put = bs_Put bo json, ss_Delete = bs_Delete bo json, ss_Walk = bs_Walk bo json,
     ss_WalkScope = Some (bs_WalkScope bo json), ss_Apply = Some (bs_Apply bo json)\<rparr>"

section \<open>Laws of bbolt\<close>

type_synonym buckets = "string \<rightharpoonup> (string \<rightharpoonup> string)"

text \<open>Transactions: what they see and what a commit publishes.\<close>

definition bolt_tx_laws :: "('d, 'k) Bolt \<Rightarrow> ('d \<Rightarrow> buckets) \<Rightarrow> ('k \<Rightarrow> buckets) \<Rightarrow> bool" where
  "bolt_tx_laws bo committed view =
     ((\<forall>w d tx. bo_Begin bo w d = Inr tx \<longrightarrow> view tx = committed d) \<and>
      (\<forall>tx d d'. bo_Commit bo tx d = (None, d') \<longrightarrow> committed d' = view tx) \<and>
      (\<forall>tx d err d'. bo_Commit bo tx d = (Some err, d') \<longrightarrow> committed d' = committed d))"

text \<open>Reads: a bucket is a map, a cursor runs through its keys in byte order.\<close>

definition cursor_of :: "(string \<rightharpoonup> string) \<Rightarrow> string \<Rightarrow> (string \<times> string) list \<Rightarrow> bool" where
  "cursor_of m from kvs = (sorted_wrt (<) (map fst kvs) \<and> set kvs = {(key, v). m key = Some v \<and> from \<le> key})"

definition bolt_read_laws :: "('d, 'k) Bolt \<Rightarrow> ('k \<Rightarrow> buckets) \<Rightarrow> bool" where
  "bolt_read_laws bo view =
     (\<forall>tx b m. view tx b = Some m \<longrightarrow>
        (\<forall>key. bo_Get bo tx b key = m key) \<and> (\<forall>key. cursor_of m key (bo_Seek bo tx b key)) \<and> cursor_of m [] (bo_First bo tx b))"

text \<open>Writes to a bucket and the creation and removal of buckets.\<close>

definition bolt_write_laws :: "('d, 'k) Bolt \<Rightarrow> ('k \<Rightarrow> buckets) \<Rightarrow> bool" where
  "bolt_write_laws bo view =
     ((\<forall>tx b m key v tx'. view tx b = Some m \<longrightarrow> bo_Put bo b key v tx = (None, tx') \<longrightarrow> view tx' = (view tx)(b \<mapsto> m(key \<mapsto> v))) \<and>
      (\<forall>tx b m key tx'. view tx b = Some m \<longrightarrow> bo_Delete bo b key tx = (None, tx') \<longrightarrow> view tx' = (view tx)(b \<mapsto> m(key := None))) \<and>
      (\<forall>tx b n tx'. bo_NextSequence bo b tx = (Inr n, tx') \<longrightarrow> view tx' = view tx))"

definition bolt_bucket_laws :: "('d, 'k) Bolt \<Rightarrow> ('k \<Rightarrow> buckets) \<Rightarrow> bool" where
  "bolt_bucket_laws bo view =
     ((\<forall>tx b tx'. bo_CreateBucket bo b tx = (None, tx') \<longrightarrow> view tx b = None \<and> view tx' = (view tx)(b \<mapsto> Map.empty)) \<and>
      (\<forall>tx b tx'. bo_CreateBucketIfNotExists bo b tx = (None, tx') \<longrightarrow>
         view tx' = (if view tx b = None then (view tx)(b \<mapsto> Map.empty) else view tx)) \<and>
      (\<forall>tx b tx'. bo_DeleteBucket bo b tx = (None, tx') \<longrightarrow> view tx' = (view tx)(b := None)) \<and>
      (\<forall>tx b err tx'. bo_DeleteBucket bo b tx = (Some err, tx') \<longrightarrow> errors_Is err ErrBucketNotFound \<longrightarrow>
         view tx b = None \<and> view tx' = view tx))"

definition bolt_laws :: "('d, 'k) Bolt \<Rightarrow> ('d \<Rightarrow> buckets) \<Rightarrow> ('k \<Rightarrow> buckets) \<Rightarrow> bool" where
  "bolt_laws bo committed view =
     (bolt_tx_laws bo committed view \<and> bolt_read_laws bo view \<and> bolt_write_laws bo view \<and> bolt_bucket_laws bo view)"

lemma bolt_lawsD:
  assumes "bolt_laws bo committed view"
  shows "bo_Begin bo w d = Inr tx \<Longrightarrow> view tx = committed d"
    and "bo_Commit bo tx d = (None, d') \<Longrightarrow> committed d' = view tx"
    and "bo_Commit bo tx d = (Some err, d') \<Longrightarrow> committed d' = committed d"
    and "view tx b = Some m \<Longrightarrow> bo_Get bo tx b key = m key"
    and "view tx b = Some m \<Longrightarrow> cursor_of m key (bo_Seek bo tx b key)"
    and "view tx b = Some m \<Longrightarrow> cursor_of m [] (bo_First bo tx b)"
    and "view tx b = Some m \<Longrightarrow> bo_Put bo b key v tx = (None, tx') \<Longrightarrow> view tx' = (view tx)(b \<mapsto> m(key \<mapsto> v))"
    and "view tx b = Some m \<Longrightarrow> bo_Delete bo b key tx = (None, tx') \<Longrightarrow> view tx' = (view tx)(b \<mapsto> m(key := None))"
    and "bo_CreateBucket bo b tx = (None, tx') \<Longrightarrow> view tx b = None \<and> view tx' = (view tx)(b \<mapsto> Map.empty)"
    and "bo_CreateBucketIfNotExists bo b tx = (None, tx') \<Longrightarrow>
         view tx' = (if view tx b = None then (view tx)(b \<mapsto> Map.empty) else view tx)"
    and "bo_DeleteBucket bo b tx = (None, tx') \<Longrightarrow> view tx' = (view tx)(b := None)"
    and "bo_DeleteBucket bo b tx = (Some err, tx') \<Longrightarrow> errors_Is err ErrBucketNotFound \<Longrightarrow> view tx b = None \<and> view tx' = view tx"
    and "bo_NextSequence bo b tx = (Inr n, tx') \<Longrightarrow> view tx' = view tx"
  using assms
  unfolding bolt_laws_def bolt_tx_laws_def bolt_read_laws_def bolt_write_laws_def bolt_bucket_laws_def by metis+

text \<open>\<open>Update\<close> publishes what its function wrote, or nothing.\<close>

lemma db_Update_laws:
  assumes "bolt_laws bo committed view" and "db_Update bo fn d a = (err, d', a')"
  shows "(err \<noteq> None \<longrightarrow> committed d' = committed d) \<and>
    (err = None \<longrightarrow> (\<exists>tx tx'. view tx = committed d \<and> fn (tx, a) = (None, tx', a') \<and> committed d' = view tx'))"
proof (cases "bo_Begin bo True d")
  case (Inl e)
  with assms(2) show ?thesis by (auto simp: db_Update_def)
next
  case (Inr tx)
  note v = bolt_lawsD(1) [OF assms(1) Inr]
  obtain e tx' a1 where f: "fn (tx, a) = (e, tx', a1)" by (metis prod_cases3)
  show ?thesis
  proof (cases e)
    case (Some x)
    with assms(2) Inr f show ?thesis by (auto simp: db_Update_def)
  next
    case None
    then have c: "bo_Commit bo tx' d = (err, d')" "a1 = a'" using assms(2) Inr f by (auto simp: db_Update_def split: prod.splits)
    show ?thesis
    proof (cases err)
      case (Some x)
      with c bolt_lawsD(3) [OF assms(1)] show ?thesis by auto
    next
      case n: None
      with c have "committed d' = view tx'" by (intro bolt_lawsD(2) [OF assms(1)]) simp
      with n v f None c(2) show ?thesis by blast
    qed
  qed
qed

section \<open>The map of a store\<close>

definition decoded :: "JSON \<Rightarrow> string \<Rightarrow> FileState option" where
  "decoded json v = (case decodeFileState (js_toState json) v of Inl _ \<Rightarrow> None | Inr st \<Rightarrow> Some st)"

definition bucket_lookup :: "JSON \<Rightarrow> (string \<rightharpoonup> string) \<Rightarrow> string \<rightharpoonup> FileState" where
  "bucket_lookup json m path = (case m path of None \<Rightarrow> None | Some v \<Rightarrow> decoded json v)"

definition bolt_lookup :: "JSON \<Rightarrow> ('d \<Rightarrow> buckets) \<Rightarrow> 'd BoltStore \<Rightarrow> string \<rightharpoonup> FileState" where
  "bolt_lookup json committed s = bucket_lookup json (case committed (bs_db s) snapshotBucket of None \<Rightarrow> Map.empty | Some m \<Rightarrow> m)"

text \<open>The bucket exists and every value in it decodes to a state with the path of its key.\<close>

definition bucket_ok :: "JSON \<Rightarrow> (string \<rightharpoonup> string) \<Rightarrow> bool" where
  "bucket_ok json m = (\<forall>path v. m path = Some v \<longrightarrow> (\<exists>st. decodeFileState (js_toState json) v = Inr st \<and> st_Path st = path))"

definition bolt_ok :: "JSON \<Rightarrow> ('d \<Rightarrow> buckets) \<Rightarrow> 'd BoltStore \<Rightarrow> bool" where
  "bolt_ok json committed s = (\<exists>m. committed (bs_db s) snapshotBucket = Some m \<and> bucket_ok json m)"

text \<open>The states that survive their JSON text.\<close>

definition encodable :: "JSON \<Rightarrow> FileState \<Rightarrow> bool" where
  "encodable json st = (\<forall>v. js_State json (stored_of st) = Inr v \<longrightarrow> js_toState json v = Inr (stored_of st))"

lemma encodable_decode:
  assumes "encodable json st" and "encodeFileState (js_State json) st = Inr v"
  shows "decodeFileState (js_toState json) v = Inr st"
proof -
  have "js_toState json v = Inr (stored_of st)" using assms by (simp add: encodable_def encodeFileState_def)
  moreover have "sf_Schema (stored_of st) = 1" by (simp add: stored_of_def)
  ultimately show ?thesis by (simp add: decodeFileState_def)
qed

lemma bucket_put:
  assumes "bucket_ok json m" and "encodable json st" and "encodeFileState (js_State json) st = Inr v"
  shows "bucket_ok json (m(st_Path st \<mapsto> v)) \<and> bucket_lookup json (m(st_Path st \<mapsto> v)) = put_map st (bucket_lookup json m)"
  using assms encodable_decode [OF assms(2,3)]
  by (auto simp: bucket_ok_def bucket_lookup_def put_map_def decoded_def fun_eq_iff)

lemma bucket_delete:
  assumes "bucket_ok json m"
  shows "bucket_ok json (m(p := None)) \<and> bucket_lookup json (m(p := None)) = delete_map p (bucket_lookup json m)"
  using assms by (auto simp: bucket_ok_def bucket_lookup_def delete_map_def fun_eq_iff)

text \<open>The two loops of \<open>Apply\<close>.\<close>

lemma delete_writes:
  assumes laws: "bolt_laws bo committed view" and "view tx snapshotBucket = Some m" and "bucket_ok json m"
    and "for_each (\<lambda>(i, path) tx. case ctx (PollIter i) of Some err \<Rightarrow> (Some err, tx)
        | None \<Rightarrow> bo_Delete bo snapshotBucket path tx) (enumerate n ps) tx = (None, tx')"
  shows "\<exists>m'. view tx' snapshotBucket = Some m' \<and> bucket_ok json m' \<and> bucket_lookup json m' = fold delete_map ps (bucket_lookup json m)"
  using assms(2-4)
proof (induction ps arbitrary: n tx m)
  case (Cons p ps)
  obtain e tx1 where d: "bo_Delete bo snapshotBucket p tx = (e, tx1)" by fastforce
  have e: "ctx (PollIter n) = None" "e = None" and rest: "for_each (\<lambda>(i, path) tx. case ctx (PollIter i) of Some err \<Rightarrow> (Some err, tx)
        | None \<Rightarrow> bo_Delete bo snapshotBucket path tx) (enumerate (Suc n) ps) tx1 = (None, tx')"
    using Cons.prems(3) d by (auto split: option.splits)
  note b = bucket_delete [OF Cons.prems(2), of p]
  have "view tx1 snapshotBucket = Some (m(p := None))"
    using bolt_lawsD(8) [OF laws Cons.prems(1) d [unfolded e]] by simp
  from Cons.IH [OF this conjunct1 [OF b] rest, unfolded conjunct2 [OF b]] show ?case by (simp only: fold_simps)
qed simp

lemma put_writes:
  assumes laws: "bolt_laws bo committed view" and "view tx snapshotBucket = Some m" and "bucket_ok json m" and "list_all (encodable json) sts"
    and "for_each (\<lambda>(i, state) tx. case ctx (PollIter i) of Some err \<Rightarrow> (Some err, tx)
        | None \<Rightarrow> (case encodeFileState (js_State json) state of Inl err \<Rightarrow> (Some err, tx)
            | Inr value \<Rightarrow> bo_Put bo snapshotBucket (st_Path state) value tx)) (enumerate n sts) tx = (None, tx')"
  shows "\<exists>m'. view tx' snapshotBucket = Some m' \<and> bucket_ok json m' \<and> bucket_lookup json m' = fold put_map sts (bucket_lookup json m)"
  using assms(2-5)
proof (induction sts arbitrary: n tx m)
  case (Cons st sts)
  obtain v where c: "ctx (PollIter n) = None" and v: "encodeFileState (js_State json) st = Inr v"
    using Cons.prems(4) by (auto split: option.splits sum.splits)
  obtain e tx1 where d: "bo_Put bo snapshotBucket (st_Path st) v tx = (e, tx1)" by fastforce
  have e: "e = None" and rest: "for_each (\<lambda>(i, state) tx. case ctx (PollIter i) of Some err \<Rightarrow> (Some err, tx)
        | None \<Rightarrow> (case encodeFileState (js_State json) state of Inl err \<Rightarrow> (Some err, tx)
            | Inr value \<Rightarrow> bo_Put bo snapshotBucket (st_Path state) value tx)) (enumerate (Suc n) sts) tx1 = (None, tx')"
    using Cons.prems(4) d c v by (auto split: option.splits)
  have enc: "encodable json st" "list_all (encodable json) sts" using Cons.prems(3) by simp_all
  note b = bucket_put [OF Cons.prems(2) enc(1) v]
  have "view tx1 snapshotBucket = Some (m(st_Path st \<mapsto> v))"
    using bolt_lawsD(7) [OF laws Cons.prems(1) d [unfolded e]] by simp
  from Cons.IH [OF this conjunct1 [OF b] enc(2) rest, unfolded conjunct2 [OF b]] show ?case by (simp only: fold_simps)
qed simp

lemma apply_writes_spec:
  assumes laws: "bolt_laws bo committed view" and "view tx snapshotBucket = Some m" and "bucket_ok json m" and "list_all (encodable json) puts"
    and "apply_writes bo json ctx puts deletes tx = (None, tx')"
  shows "\<exists>m'. view tx' snapshotBucket = Some m' \<and> bucket_ok json m' \<and>
    bucket_lookup json m' = apply_map puts deletes (bucket_lookup json m)"
proof -
  obtain tx1 where
    d: "for_each (\<lambda>(i, path) tx. case ctx (PollIter i) of Some err \<Rightarrow> (Some err, tx)
        | None \<Rightarrow> bo_Delete bo snapshotBucket path tx) (enumerate 0 deletes) tx = (None, tx1)"
    and p: "for_each (\<lambda>(i, state) tx. case ctx (PollIter i) of Some err \<Rightarrow> (Some err, tx)
        | None \<Rightarrow> (case encodeFileState (js_State json) state of Inl err \<Rightarrow> (Some err, tx)
            | Inr value \<Rightarrow> bo_Put bo snapshotBucket (st_Path state) value tx)) (enumerate (length deletes) puts) tx1 = (None, tx')"
    using assms(5) by (auto simp: apply_writes_def split: option.splits prod.splits)
  from delete_writes [OF laws assms(2,3) d] obtain m1 where m1: "view tx1 snapshotBucket = Some m1" "bucket_ok json m1"
    "bucket_lookup json m1 = fold delete_map deletes (bucket_lookup json m)" by blast
  from put_writes [OF laws m1(1,2) assms(4) p] m1(3) show ?thesis by (auto simp: apply_map_def)
qed

lemma bs_Apply_spec:
  assumes laws: "bolt_laws bo committed view" and "bolt_ok json committed s" and "list_all (encodable json) puts"
    and "bs_Apply bo json ctx puts deletes s = (err, s')"
  shows "bolt_ok json committed s' \<and> bs_closed s' = bs_closed s \<and>
    bolt_lookup json committed s' = (if err = None then apply_map puts deletes (bolt_lookup json committed s) else bolt_lookup json committed s)"
proof (cases "ctx PollEnter = None \<and> \<not> bs_closed s")
  case False
  with assms(2,4) show ?thesis by (auto simp: bs_Apply_def database_def split: option.splits)
next
  case True
  obtain db' u where u: "db_Update bo (on_tx (apply_writes bo json ctx puts deletes)) (bs_db s) () = (err, db', u)"
    and s': "s' = s\<lparr>bs_db := db'\<rparr>"
    using assms(4) True by (auto simp: bs_Apply_def database_def split: prod.splits)
  obtain m where m: "committed (bs_db s) snapshotBucket = Some m" "bucket_ok json m" using assms(2) by (auto simp: bolt_ok_def)
  note l = db_Update_laws [OF laws u]
  show ?thesis
  proof (cases err)
    case (Some e)
    with l s' assms(2) show ?thesis by (simp add: bolt_ok_def bolt_lookup_def)
  next
    case None
    with l obtain tx tx' where tx: "view tx = committed (bs_db s)" "apply_writes bo json ctx puts deletes tx = (None, tx')"
      "committed db' = view tx'" by (auto simp: on_tx_iff)
    from apply_writes_spec [OF laws _ m(2) assms(3) tx(2)] tx(1) m(1) obtain m' where
      "view tx' snapshotBucket = Some m'" "bucket_ok json m'" "bucket_lookup json m' = apply_map puts deletes (bucket_lookup json m)" by auto
    with None tx(3) s' m(1) show ?thesis by (simp add: bolt_ok_def bolt_lookup_def)
  qed
qed

text \<open>The store keeps the contract of a snapshot store, for every database and text that keep theirs.\<close>

lemma bolt_snapshot_kv:
  assumes laws: "bolt_laws bo committed view"
  shows "snapshot_kv (encodable json) (bolt_ok json committed) (bolt_lookup json committed)
    (bs_Get bo json) (bs_Put bo json) (bs_Delete bo json) (bs_Apply bo json)"
proof
  fix s ctx p r
  assume ok: "bolt_ok json committed s" and get: "bs_Get bo json ctx s p = Inr r"
  then obtain m where m: "committed (bs_db s) snapshotBucket = Some m" "bucket_ok json m" by (auto simp: bolt_ok_def)
  obtain tx where tx: "bo_Begin bo False (bs_db s) = Inr tx"
    using get by (auto simp: bs_Get_def database_def db_View_def split: option.splits if_splits sum.splits)
  have "view tx snapshotBucket = Some m" using bolt_lawsD(1) [OF laws tx] m(1) by simp
  from bolt_lawsD(4) [OF laws this, of p] get tx m
  show "r = bolt_lookup json committed s p"
    by (auto simp: bs_Get_def database_def db_View_def bolt_lookup_def bucket_lookup_def decoded_def split: option.splits if_splits sum.splits)
next
  fix s ctx and st :: FileState
  assume "bolt_ok json committed s" "encodable json st"
  then show "bolt_ok json committed (snd (bs_Put bo json ctx st s))"
    using bs_Apply_spec [OF laws, of json s "[st]" ctx "[]"] unfolding bs_Put_def by (metis list.pred_inject prod.collapse)
next
  fix s ctx err s' and st :: FileState
  assume "bolt_ok json committed s" "encodable json st" "bs_Put bo json ctx st s = (err, s')"
  then show "bolt_lookup json committed s' = (if err = None then put_map st (bolt_lookup json committed s) else bolt_lookup json committed s)"
    using bs_Apply_spec [OF laws, of json s "[st]" ctx "[]" err s'] by (simp add: bs_Put_def apply_map_def)
next
  fix s ctx p
  assume "bolt_ok json committed s" "canonical p"
  then show "bolt_ok json committed (snd (bs_Delete bo json ctx p s))"
    using bs_Apply_spec [OF laws, of json s "[]" ctx "[p]"] unfolding bs_Delete_def by (metis list.pred_inject(1) prod.collapse)
next
  fix s ctx p err s'
  assume "bolt_ok json committed s" "canonical p" "bs_Delete bo json ctx p s = (err, s')"
  then show "bolt_lookup json committed s' = (if err = None then delete_map p (bolt_lookup json committed s) else bolt_lookup json committed s)"
    using bs_Apply_spec [OF laws, of json s "[]" ctx "[p]" err s'] by (simp add: bs_Delete_def apply_map_def)
next
  fix s ctx puts deletes
  assume "bolt_ok json committed s" "list_all (encodable json) puts" "list_all canonical deletes"
  then show "bolt_ok json committed (snd (bs_Apply bo json ctx puts deletes s))"
    using bs_Apply_spec [OF laws, of json s puts ctx deletes] by (metis prod.collapse)
next
  fix s ctx puts deletes err s'
  assume "bolt_ok json committed s" "list_all (encodable json) puts" "bs_Apply bo json ctx puts deletes s = (err, s')"
  then show "bolt_lookup json committed s' = (if err = None then apply_map puts deletes (bolt_lookup json committed s) else bolt_lookup json committed s)"
    using bs_Apply_spec [OF laws] by blast
qed

end
