(* ===== verification/Bolt_Contract.thy ===== *)
theory Bolt_Contract
  imports Bolt_Store Scope_Collapse
begin

text \<open>
  What \<open>BoltStore\<close> promises its clients: its writes are those of a map, its walk reads the run of
  keys from the prefix on, and \<open>replaceSnapshot\<close> copies a bucket. A small database in memory that
  keeps the laws of bbolt shows that the laws can hold; the store contract is interpreted on it.
\<close>

section \<open>The walk\<close>

lemma cursor_of_eq:
  assumes "cursor_of m from kvs"
  shows "kvs = map (\<lambda>p. (p, the (m p))) (sorted_list_of_set {p \<in> dom m. from \<le> p})"
proof -
  let ?S = "{p \<in> dom m. from \<le> p}"
  have s: "sorted_wrt (<) (map fst kvs)" and set: "set kvs = {(key, v). m key = Some v \<and> from \<le> key}"
    using assms by (simp_all add: cursor_of_def)
  have keys: "set (map fst kvs) = ?S" by (force simp: set)
  have "sorted_list_of_set ?S = map fst kvs"
    using s unfolding keys [symmetric] by (intro sorted_list_of_set.idem_if_sorted_distinct) (auto simp: strict_sorted_iff)
  moreover have "map (\<lambda>p. (p, the (m p))) (map fst kvs) = kvs" by (auto simp: set intro!: map_idI)
  ultimately show ?thesis by simp
qed

lemma cursor_of_finite: "cursor_of m [] kvs \<Longrightarrow> finite (dom m)"
proof -
  assume "cursor_of m [] kvs"
  then have "dom m = fst ` set kvs" by (force simp: cursor_of_def)
  then show ?thesis by simp
qed

text \<open>The loop over a cursor, on values that decode.\<close>

definition run_of :: "JSON \<Rightarrow> string \<Rightarrow> (string \<times> string) list \<Rightarrow> FileState list" where
  "run_of json pre kvs = map (\<lambda>(_, v). the (decoded json v)) (takeWhile (\<lambda>(k, _). pathHasPrefix k pre) kvs)"

lemma run_of_simps [simp]:
  "run_of json pre [] = []"
  "run_of json pre ((k, v) # kvs) = (if pathHasPrefix k pre then the (decoded json v) # run_of json pre kvs else [])"
  by (simp_all add: run_of_def)

lemma decoded_Some: "decoded json v = Some st \<longleftrightarrow> decodeFileState (js_toState json) v = Inr st"
  by (simp add: decoded_def split: sum.split)

lemma walk_cursor_total:
  assumes "\<And>k v. (k, v) \<in> set kvs \<Longrightarrow> decoded json v \<noteq> None" and c: "\<And>i. ctx (PollIter i) = None"
  shows "walk_cursor json ctx pre fn i kvs a = for_each fn (run_of json pre kvs) a"
  using assms(1)
proof (induction kvs arbitrary: i a)
  case (Cons kv kvs)
  obtain k v where kv: "kv = (k, v)" by fastforce
  obtain st where d: "decoded json v = Some st" using Cons.prems [of k v] kv by auto
  have "walk_cursor json ctx pre fn i kvs a = for_each fn (run_of json pre kvs) a" for i a
    using Cons.prems by (intro Cons.IH) auto
  with d decoded_Some [THEN iffD1, OF d] kv show ?case by (simp add: c split: option.split prod.split)
qed simp

lemma walk_cursor_success:
  assumes "\<And>k v. (k, v) \<in> set kvs \<Longrightarrow> decoded json v \<noteq> None"
    and "walk_cursor json ctx pre fn i kvs a = (None, a')"
  shows "for_each fn (run_of json pre kvs) a = (None, a')"
  using assms
proof (induction kvs arbitrary: i a)
  case (Cons kv kvs)
  obtain k v where kv: "kv = (k, v)" by fastforce
  obtain st where d: "decoded json v = Some st" using Cons.prems(1) [of k v] kv by auto
  have ih: "walk_cursor json ctx pre fn i kvs a = (None, a') \<Longrightarrow> for_each fn (run_of json pre kvs) a = (None, a')" for i a
    using Cons.prems(1) by (intro Cons.IH) auto
  with d decoded_Some [THEN iffD1, OF d] kv Cons.prems(2) show ?case by (auto split: option.splits if_splits prod.splits)
qed simp

text \<open>The states the walk reaches: from the prefix on, up to the first key outside of it.\<close>

definition walk_reach :: "(string \<rightharpoonup> FileState) \<Rightarrow> string \<Rightarrow> FileState list" where
  "walk_reach m pre =
     map (\<lambda>p. the (m p)) (takeWhile (\<lambda>p. pathHasPrefix p pre) (sorted_list_of_set {p \<in> dom m. pre \<le> p}))"

lemma dom_bucket_lookup: "bucket_ok json m \<Longrightarrow> dom (bucket_lookup json m) = dom m"
  by (force simp: bucket_ok_def bucket_lookup_def decoded_def split: option.splits)

lemma run_of_cursor:
  assumes "bucket_ok json m" and "cursor_of m pre kvs"
  shows "run_of json pre kvs = walk_reach (bucket_lookup json m) pre"
    and "(k, v) \<in> set kvs \<Longrightarrow> decoded json v \<noteq> None"
proof -
  have look: "the (bucket_lookup json m p) = the (decoded json (the (m p)))" if "p \<in> dom m" for p
    using that by (auto simp: bucket_lookup_def)
  let ?ps = "sorted_list_of_set {p \<in> dom m. pre \<le> p}"
  have "finite (set kvs)" by simp
  have sub: "set ?ps \<subseteq> dom m" by (cases "finite {p \<in> dom m. pre \<le> p}") auto
  have "run_of json pre kvs = map (\<lambda>p. the (decoded json (the (m p)))) (takeWhile (\<lambda>p. pathHasPrefix p pre) ?ps)"
    by (subst cursor_of_eq [OF assms(2)]) (simp add: run_of_def takeWhile_map comp_def)
  also have "\<dots> = walk_reach (bucket_lookup json m) pre"
    unfolding walk_reach_def dom_bucket_lookup [OF assms(1)]
    using look sub by (intro map_cong refl look [symmetric]) (meson set_takeWhileD subsetD)
  finally show "run_of json pre kvs = walk_reach (bucket_lookup json m) pre" .
  show "(k, v) \<in> set kvs \<Longrightarrow> decoded json v \<noteq> None"
    using assms by (force simp: cursor_of_def bucket_ok_def decoded_def)
qed

lemma bs_WalkScope_cursor:
  assumes laws: "bolt_laws bo committed view" and "bolt_ok json committed s" and "bo_Begin bo False (bs_db s) = Inr tx"
  obtains m where "bucket_ok json m" and "cursor_of m pre (bo_Seek bo tx snapshotBucket pre)"
    and "bolt_lookup json committed s = bucket_lookup json m"
proof -
  from assms(2) obtain m where m: "committed (bs_db s) snapshotBucket = Some m" "bucket_ok json m" by (auto simp: bolt_ok_def)
  have "view tx snapshotBucket = Some m" using bolt_lawsD(1) [OF laws assms(3)] m(1) by simp
  from bolt_lawsD(5) [OF laws this] m that show ?thesis by (simp add: bolt_lookup_def)
qed

lemma bs_WalkScope_success:
  assumes "bolt_laws bo committed view" and "bolt_ok json committed s"
    and "bs_WalkScope bo json ctx s pre fn a = (None, a')"
  shows "for_each fn (walk_reach (bolt_lookup json committed s) pre) a = (None, a')"
proof -
  obtain tx where tx: "bo_Begin bo False (bs_db s) = Inr tx"
    using assms(3) by (auto simp: bs_WalkScope_def database_def db_View_def split: option.splits if_splits sum.splits)
  obtain m where m: "bucket_ok json m" "cursor_of m pre (bo_Seek bo tx snapshotBucket pre)"
    "bolt_lookup json committed s = bucket_lookup json m" using bs_WalkScope_cursor [OF assms(1,2) tx] .
  have "walk_cursor json ctx pre fn 0 (bo_Seek bo tx snapshotBucket pre) a = (None, a')"
    using assms(3) tx by (auto simp: bs_WalkScope_def database_def db_View_def split: option.splits if_splits)
  from walk_cursor_success [OF run_of_cursor(2) [OF m(1,2)] this] show ?thesis
    by (simp add: run_of_cursor(1) [OF m(1,2)] m(3))
qed

text \<open>When no recorded key outside the prefix sorts before one inside, the walk reaches all.\<close>

lemma takeWhile_run:
  assumes "sorted xs" and "\<And>p q. p \<in> set xs \<Longrightarrow> q \<in> set xs \<Longrightarrow> \<not> P p \<Longrightarrow> P q \<Longrightarrow> q < p"
  shows "takeWhile P xs = filter P xs"
  using assms
proof (induction xs)
  case (Cons x xs)
  show ?case
  proof (cases "P x")
    case True
    with Cons show ?thesis by (simp add: Cons.IH)
  next
    case False
    have "\<not> P q" if "q \<in> set xs" for q
    proof
      assume "P q"
      then have "q < x" using False that Cons.prems(2) [of x q] by simp
      with that Cons.prems(1) show False by (auto simp: not_less)
    qed
    then have "filter P xs = []" by (simp add: filter_empty_conv)
    with False show ?thesis by simp
  qed
qed simp

lemma prefix_le: "prefix (xs :: string) ys \<Longrightarrow> xs \<le> ys"
proof (elim prefixE)
  fix zs
  assume "ys = xs @ zs"
  then show "xs \<le> ys" by (cases zs) (auto simp: list_le_def list_less_def intro!: lexord_append_rightI)
qed

lemma pathHasPrefix_le: "pathHasPrefix p pre \<Longrightarrow> pre \<le> p"
proof -
  assume "pathHasPrefix p pre"
  then have "take (length pre) p = pre" by (auto simp: pathHasPrefix_def strings_HasPrefix_def split: if_splits)
  then have "prefix pre p" by (metis take_is_prefix)
  then show ?thesis by (rule prefix_le)
qed

lemma walk_reach_complete:
  assumes "finite (dom m)" and "\<And>p. p \<in> dom m \<Longrightarrow> plain p" and "plain pre"
    and "\<And>p q. p \<in> dom m \<Longrightarrow> q \<in> dom m \<Longrightarrow> pre \<le> p \<Longrightarrow> \<not> pathHasPrefix p pre \<Longrightarrow> pathHasPrefix q pre \<Longrightarrow> q < p"
  shows "walk_reach m pre = states_within m pre"
proof -
  let ?S = "{p \<in> dom m. pre \<le> p}"
  have fin: "finite ?S" using assms(1) by simp
  have "takeWhile (\<lambda>p. pathHasPrefix p pre) (sorted_list_of_set ?S) = filter (\<lambda>p. pathHasPrefix p pre) (sorted_list_of_set ?S)"
    using assms(4) fin by (intro takeWhile_run) auto
  also have "\<dots> = sorted_list_of_set {p \<in> ?S. pathHasPrefix p pre}"
    using fin by (subst sorted_list_of_set.idem_if_sorted_distinct [symmetric]) (auto simp: sorted_wrt_filter)
  also have "{p \<in> ?S. pathHasPrefix p pre} = {p \<in> dom m. prefix (elems pre) (elems p)}"
    using plain_prefix [OF assms(3) assms(2)] pathHasPrefix_le by blast
  finally show ?thesis by (simp add: walk_reach_def states_within_def)
qed

section \<open>A database in memory\<close>

text \<open>Buckets with their sequence number. Every transaction succeeds, an empty key is refused.\<close>

type_synonym mem_db = "(string \<times> 64 word \<times> (string \<times> string) list) list"

definition mem_keys :: "mem_db \<Rightarrow> string \<Rightarrow> (string \<times> string) list" where
  "mem_keys d b =
     (case map_of d b of
        None \<Rightarrow> []
      | Some (_, kvs) \<Rightarrow> map (\<lambda>k. (k, the (map_of kvs k))) (sort (remdups (map fst kvs))))"

definition mem_write ::
  "string \<Rightarrow> (64 word \<Rightarrow> (string \<times> string) list \<Rightarrow> GoError + 64 word \<times> (string \<times> string) list) \<Rightarrow> mem_db \<Rightarrow> GoError option \<times> mem_db" where
  "mem_write b f d =
     (case map_of d b of
        None \<Rightarrow> (Some ErrBucketNotFound, d)
      | Some (n, kvs) \<Rightarrow> (case f n kvs of Inl err \<Rightarrow> (Some err, d) | Inr c \<Rightarrow> (None, AList.update b c d)))"

definition mem_bolt :: "(mem_db, mem_db) Bolt" where
  "mem_bolt = \<lparr>bo_Begin = (\<lambda>w d. Inr d), bo_Commit = (\<lambda>tx d. (None, tx)), bo_Close = (\<lambda>d. (None, d)),
     bo_Get = (\<lambda>tx b k. case map_of tx b of None \<Rightarrow> None | Some (_, kvs) \<Rightarrow> map_of kvs k),
     bo_Seek = (\<lambda>tx b from. filter (\<lambda>(k, _). from \<le> k) (mem_keys tx b)),
     bo_First = mem_keys,
     bo_Put = (\<lambda>b k v. mem_write b (\<lambda>n kvs. if k = [] then Inl (ErrMsg ''key required'') else Inr (n, AList.update k v kvs))),
     bo_Delete = (\<lambda>b k. mem_write b (\<lambda>n kvs. Inr (n, AList.delete k kvs))),
     bo_CreateBucket = (\<lambda>b d. if map_of d b = None then (None, AList.update b (0, []) d) else (Some (ErrMsg ''bucket already exists''), d)),
     bo_CreateBucketIfNotExists = (\<lambda>b d. if map_of d b = None then (None, AList.update b (0, []) d) else (None, d)),
     bo_DeleteBucket = (\<lambda>b d. if map_of d b = None then (Some ErrBucketNotFound, d) else (None, AList.delete b d)),
     bo_NextSequence = (\<lambda>b d. case map_of d b of None \<Rightarrow> (Inl ErrBucketNotFound, d)
        | Some (n, kvs) \<Rightarrow> (Inr (n + 1), AList.update b (n + 1, kvs) d))\<rparr>"

definition mem_view :: "mem_db \<Rightarrow> buckets" where
  "mem_view d b = map_option (\<lambda>(_, kvs). map_of kvs) (map_of d b)"

lemma mem_view_update [simp]: "mem_view (AList.update b (n, kvs) d) = (mem_view d)(b \<mapsto> map_of kvs)"
  by (auto simp: mem_view_def fun_eq_iff gomap_simps)

lemma mem_view_delete [simp]: "mem_view (AList.delete b d) = (mem_view d)(b := None)"
  by (auto simp: mem_view_def fun_eq_iff gomap_simps)

lemma mem_view_same: "map_of d b = Some (n, kvs) \<Longrightarrow> (mem_view d)(b \<mapsto> map_of kvs) = mem_view d"
  by (auto simp: mem_view_def fun_eq_iff)

lemma mem_view_Some: "mem_view d b = Some m \<longleftrightarrow> (\<exists>n kvs. map_of d b = Some (n, kvs) \<and> m = map_of kvs)"
  by (auto simp: mem_view_def)

lemma mem_keys_cursor:
  assumes "mem_view d b = Some m"
  shows "cursor_of m from (filter (\<lambda>(k, _). from \<le> k) (mem_keys d b))" and "cursor_of m [] (mem_keys d b)"
proof -
  obtain n kvs where kvs: "map_of d b = Some (n, kvs)" "m = map_of kvs" using assms by (auto simp: mem_view_Some)
  let ?ks = "sort (remdups (map fst kvs))"
  have keys: "mem_keys d b = map (\<lambda>k. (k, the (map_of kvs k))) ?ks" by (simp add: mem_keys_def kvs)
  have "set (mem_keys d b) = {(k, v). m k = Some v}"
    unfolding keys kvs(2) by (force simp: dom_map_of_conv_image_fst [symmetric] image_iff)
  moreover have "sorted_wrt (<) (map fst (mem_keys d b))" by (simp add: keys comp_def strict_sorted_iff)
  moreover from this have "sorted_wrt (<) (map fst (filter (\<lambda>(k, _). from \<le> k) (mem_keys d b)))"
    by (simp add: sorted_wrt_map sorted_wrt_filter)
  ultimately show "cursor_of m from (filter (\<lambda>(k, _). from \<le> k) (mem_keys d b))" "cursor_of m [] (mem_keys d b)"
    by (auto simp: cursor_of_def)
qed

lemma mem_bolt_laws: "bolt_laws mem_bolt mem_view mem_view"
proof -
  have "bolt_tx_laws mem_bolt mem_view mem_view" by (simp add: bolt_tx_laws_def mem_bolt_def)
  moreover have "bolt_read_laws mem_bolt mem_view"
    by (auto simp: bolt_read_laws_def mem_bolt_def mem_keys_cursor) (auto simp: mem_view_Some)
  moreover have "bolt_write_laws mem_bolt mem_view"
    by (auto simp: bolt_write_laws_def mem_bolt_def mem_write_def mem_view_Some mem_view_same gomap_simps split: if_splits option.splits prod.splits)
  moreover have "bolt_bucket_laws mem_bolt mem_view"
    by (auto simp: bolt_bucket_laws_def mem_bolt_def gomap_simps split: if_splits) (auto simp: mem_view_def)
  ultimately show ?thesis by (simp add: bolt_laws_def)
qed

text \<open>A text for structures that keeps only their path, enough for the states of the examples.\<close>

definition ex_json :: JSON where
  "ex_json = \<lparr>js_State = (\<lambda>sf. Inr (sf_Path sf)), js_toState = (\<lambda>v. Inr (stored_of (ex_file v))),
     js_Event = (\<lambda>sg. Inr (sg_Path sg)), js_toEvent = (\<lambda>v. Inl (ErrMsg v)),
     js_Entry = (\<lambda>e. Inr (ee_Path e)), js_toEntry = (\<lambda>v. Inl (ErrMsg v))\<rparr>"

lemma ex_json_encodable [simp]: "encodable ex_json (ex_file p)"
  by (simp add: encodable_def ex_json_def stored_of_def ex_file_def)

interpretation mem_bolt: snapshot_kv "encodable json" "bolt_ok json mem_view" "bolt_lookup json mem_view"
  "bs_Get mem_bolt json" "bs_Put mem_bolt json" "bs_Delete mem_bolt json" "bs_Apply mem_bolt json" for json
  by (rule bolt_snapshot_kv [OF mem_bolt_laws])

section \<open>Properties\<close>

primrec bolt_write :: "('d, 'k) Bolt \<Rightarrow> JSON \<Rightarrow> store_op \<Rightarrow> 'd BoltStore \<Rightarrow> GoError option \<times> 'd BoltStore" where
  "bolt_write bo json (PutOp ctx st) s = bs_Put bo json ctx st s"
| "bolt_write bo json (DeleteOp ctx p) s = bs_Delete bo json ctx p s"
| "bolt_write bo json (ApplyOp ctx puts deletes) s = bs_Apply bo json ctx puts deletes s"

primrec write_effect :: "store_op \<Rightarrow> (string \<rightharpoonup> FileState) \<Rightarrow> (string \<rightharpoonup> FileState)" where
  "write_effect (PutOp ctx st) m = put_map st m"
| "write_effect (DeleteOp ctx p) m = delete_map p m"
| "write_effect (ApplyOp ctx puts deletes) m = apply_map puts deletes m"

primrec op_encodable :: "JSON \<Rightarrow> store_op \<Rightarrow> bool" where
  "op_encodable json (PutOp ctx st) = encodable json st"
| "op_encodable json (DeleteOp ctx p) = True"
| "op_encodable json (ApplyOp ctx puts deletes) = list_all (encodable json) puts"

text \<open>A sequence of writes with the result of each, and the successful ones on a map.\<close>

fun bolt_writes :: "('d, 'k) Bolt \<Rightarrow> JSON \<Rightarrow> store_op list \<Rightarrow> 'd BoltStore \<Rightarrow> GoError option list \<times> 'd BoltStore" where
  "bolt_writes bo json [] s = ([], s)"
| "bolt_writes bo json (op # ops) s =
     (case bolt_write bo json op s of (err, s1) \<Rightarrow>
        case bolt_writes bo json ops s1 of (errs, s2) \<Rightarrow> (err # errs, s2))"

definition successful_writes :: "GoError option list \<Rightarrow> store_op list \<Rightarrow> (string \<rightharpoonup> FileState) \<Rightarrow> (string \<rightharpoonup> FileState)" where
  "successful_writes errs ops m = fold (\<lambda>(err, op) m. if err = None then write_effect op m else m) (zip errs ops) m"

lemma bolt_write_spec:
  assumes laws: "bolt_laws bo committed view" and "bolt_ok json committed s" and "op_encodable json op"
    and "bolt_write bo json op s = (err, s')"
  shows "bolt_ok json committed s' \<and> bolt_lookup json committed s' =
    (if err = None then write_effect op (bolt_lookup json committed s) else bolt_lookup json committed s)"
proof -
  obtain ctx puts deletes where "bs_Apply bo json ctx puts deletes s = (err, s')" "list_all (encodable json) puts"
    "write_effect op = apply_map puts deletes"
    using assms(3,4) by (cases op) (auto simp: bs_Put_def bs_Delete_def apply_map_def fun_eq_iff)
  with bs_Apply_spec [OF laws assms(2)] show ?thesis by metis
qed

lemma bolt_writes_spec:
  assumes "bolt_laws bo committed view" and "bolt_ok json committed s" and "list_all (op_encodable json) ops"
    and "bolt_writes bo json ops s = (errs, s')"
  shows "bolt_ok json committed s' \<and> bolt_lookup json committed s' = successful_writes errs ops (bolt_lookup json committed s)"
  using assms(2-4)
proof (induction ops arbitrary: s errs)
  case (Cons op ops)
  obtain err s1 errs' where w: "bolt_write bo json op s = (err, s1)" "bolt_writes bo json ops s1 = (errs', s')" "errs = err # errs'"
    using Cons.prems(3) by (auto split: prod.splits)
  note step = bolt_write_spec [OF assms(1) Cons.prems(1) _ w(1)]
  have "op_encodable json op" "list_all (op_encodable json) ops" using Cons.prems(2) by simp_all
  with step Cons.IH [OF _ _ w(2)] w(3) show ?case by (auto simp: successful_writes_def)
qed (simp add: successful_writes_def)

lemma OpenBoltStore_spec:
  assumes laws: "bolt_laws bo committed view" and "open_db (Clean path) = Inr d" and "OpenBoltStore bo open_db path = Inr s"
    and "case committed d snapshotBucket of None \<Rightarrow> True | Some m \<Rightarrow> bucket_ok json m"
  shows "bolt_ok json committed s \<and> \<not> bs_closed s \<and>
    bolt_lookup json committed s = (case committed d snapshotBucket of None \<Rightarrow> Map.empty | Some m \<Rightarrow> bucket_lookup json m)"
proof -
  obtain d' u where u: "db_Update bo (on_tx (bo_CreateBucketIfNotExists bo snapshotBucket)) d () = (None, d', u)"
    and s: "s = \<lparr>bs_db = d', bs_closed = False\<rparr>"
    using assms(2,3) by (auto simp: OpenBoltStore_def split: if_splits prod.splits option.splits)
  from db_Update_laws [OF laws u] obtain tx tx' where tx: "view tx = committed d"
    "bo_CreateBucketIfNotExists bo snapshotBucket tx = (None, tx')" "committed d' = view tx'" by (auto simp: on_tx_iff)
  have "committed d' = (if committed d snapshotBucket = None then (committed d)(snapshotBucket \<mapsto> Map.empty) else committed d)"
    using bolt_lawsD(10) [OF laws tx(2)] tx by simp
  moreover have "bucket_ok json Map.empty" "bucket_lookup json Map.empty = Map.empty"
    by (simp_all add: bucket_ok_def bucket_lookup_def fun_eq_iff)
  ultimately show ?thesis using assms(4) s by (auto simp: bolt_ok_def bolt_lookup_def split: option.splits)
qed

text \<open>C12: the bbolt store refines a durable map from paths to states. It is opened on a new database
  or on one whose snapshot bucket holds decodable states. After any sequence of Put, Delete and
  Apply calls, under arbitrary contexts and with whatever failures of the database, of the encoding
  or of the commit, a lookup that succeeds returns what the successful calls, each as a whole and in
  their order, made of the recorded map; a failed call leaves no trace, not even of the part of
  its batch that it had already written.\<close>

theorem bolt_store_refines_map:
  assumes "bolt_laws bo committed view" and "open_db (Clean path) = Inr d" and "OpenBoltStore bo open_db path = Inr s"
    and "case committed d snapshotBucket of None \<Rightarrow> True | Some m \<Rightarrow> bucket_ok json m"
    and "list_all (op_encodable json) ops" and "bolt_writes bo json ops s = (errs, s')"
    and "bs_Get bo json ctx s' p = Inr r"
  shows "bolt_ok json committed s' \<and>
    r = successful_writes errs ops (case committed d snapshotBucket of None \<Rightarrow> Map.empty | Some m \<Rightarrow> bucket_lookup json m) p"
proof -
  note o = OpenBoltStore_spec [OF assms(1-4)]
  note w = bolt_writes_spec [OF assms(1) conjunct1 [OF o] assms(5,6)]
  have "r = bolt_lookup json committed s' p"
    by (rule snapshot_kv.get_lookup [OF bolt_snapshot_kv [OF assms(1)] conjunct1 [OF w] assms(7)])
  with o w show ?thesis by simp
qed

definition ex_bolt_ops :: "store_op list" where
  "ex_bolt_ops = [ApplyOp background [ex_file ''/d/a'', ex_file ''/d/b''] [], DeleteOp background ''/d/b'',
     ApplyOp background [ex_file ''/d/c'', ex_file []] [''/d/a'']]"

theorem bolt_store_refines_map_witness:
  "\<exists>s errs s'. OpenBoltStore mem_bolt (\<lambda>_. Inr []) ''db'' = Inr s \<and> bolt_writes mem_bolt ex_json ex_bolt_ops s = (errs, s') \<and>
     map (\<lambda>e. e = None) errs = [True, True, False] \<and> bolt_ok ex_json mem_view s' \<and>
     bs_Get mem_bolt ex_json background s' ''/d/a'' = Inr (Some (ex_file ''/d/a'')) \<and>
     successful_writes errs ex_bolt_ops Map.empty ''/d/a'' = Some (ex_file ''/d/a'')"
proof -
  have "case OpenBoltStore mem_bolt (\<lambda>_. Inr []) ''db'' of Inl _ \<Rightarrow> False
    | Inr s \<Rightarrow> (case bolt_writes mem_bolt ex_json ex_bolt_ops s of (errs, s') \<Rightarrow> map (\<lambda>e. e = None) errs = [True, True, False] \<and>
       bs_Get mem_bolt ex_json background s' ''/d/a'' = Inr (Some (ex_file ''/d/a'')))" by code_simp
  then obtain s errs s' where r: "OpenBoltStore mem_bolt (\<lambda>_. Inr []) ''db'' = Inr s"
    "bolt_writes mem_bolt ex_json ex_bolt_ops s = (errs, s')" "map (\<lambda>e. e = None) errs = [True, True, False]"
    "bs_Get mem_bolt ex_json background s' ''/d/a'' = Inr (Some (ex_file ''/d/a''))" by (auto split: sum.splits prod.splits)
  have e: "list_all (op_encodable ex_json) ex_bolt_ops" by (simp add: ex_bolt_ops_def)
  have n: "mem_view [] snapshotBucket = None" by (simp add: mem_view_def)
  from bolt_store_refines_map [OF mem_bolt_laws _ r(1) _ e r(2,4)] n
  have "bolt_ok ex_json mem_view s' \<and> Some (ex_file ''/d/a'') = successful_writes errs ex_bolt_ops Map.empty ''/d/a''" by simp
  with r show ?thesis by metis
qed


definition ex_bolt :: "string list \<Rightarrow> mem_db BoltStore" where
  "ex_bolt ps = \<lparr>bs_db = [(snapshotBucket, 0, map (\<lambda>p. (p, p)) ps)], bs_closed = False\<rparr>"

lemma ex_bolt_lookup: "bolt_lookup ex_json mem_view (ex_bolt ps) = (\<lambda>p. if p \<in> set ps then Some (ex_file p) else None)"
proof -
  have "map_of (map (\<lambda>p. (p, p)) ps) q = (if q \<in> set ps then Some q else None)" for q by (induction ps) auto
  then show ?thesis
    by (simp add: bolt_lookup_def ex_bolt_def mem_view_def bucket_lookup_def decoded_def ex_json_def decodeFileState_def
        fun_eq_iff) (simp add: stored_of_def ex_json_def)
qed

lemma ex_bolt_ok: "bolt_ok ex_json mem_view (ex_bolt ps)"
proof -
  have "map_of (map (\<lambda>p. (p, p)) ps) q = Some v \<Longrightarrow> v = q" for q v by (induction ps) (auto split: if_splits)
  then show ?thesis
    by (auto simp: bolt_ok_def ex_bolt_def mem_view_def bucket_ok_def decodeFileState_def ex_json_def)
       (auto simp: stored_of_def ex_file_def state_of_def)
qed


text \<open>
  A sibling whose name continues the name of the directory with a byte below the separator sorts
  between the directory and its children, and ends the walk: of the subtree \<open>/d/a\<close> only the
  directory itself is visited, although \<open>/d/a/f\<close> is recorded.
\<close>

lemma bolt_walk_misses_subtree:
  "bs_WalkScope mem_bolt ex_json background (ex_bolt [''/d/a'', ''/d/a-x'', ''/d/a/f'']) ''/d/a'' (\<lambda>st a. (None, a @ [st_Path st])) [] =
     (None, [''/d/a'']) \<and>
   bs_Get mem_bolt ex_json background (ex_bolt [''/d/a'', ''/d/a-x'', ''/d/a/f'']) ''/d/a/f'' = Inr (Some (ex_file ''/d/a/f''))"
  by code_simp

section \<open>Replacing the snapshot\<close>

lemma replace_puts:
  assumes laws: "bolt_laws bo committed view" and "view tx snapshotBucket = Some m" and "distinct (map fst kvs)"
    and "for_each (\<lambda>(i, key, value) tx. case ctx (PollIter i) of Some err \<Rightarrow> (Some err, tx)
        | None \<Rightarrow> bo_Put bo snapshotBucket key value tx) (enumerate n kvs) tx = (None, tx')"
  shows "view tx' = (view tx)(snapshotBucket \<mapsto> m ++ map_of kvs)"
  using assms(2-4)
proof (induction kvs arbitrary: n tx m)
  case (Cons kv kvs)
  obtain k v where kv: "kv = (k, v)" by fastforce
  obtain e tx1 where p: "bo_Put bo snapshotBucket k v tx = (e, tx1)" by fastforce
  have e: "ctx (PollIter n) = None" "e = None" and rest: "for_each (\<lambda>(i, key, value) tx. case ctx (PollIter i) of Some err \<Rightarrow> (Some err, tx)
        | None \<Rightarrow> bo_Put bo snapshotBucket key value tx) (enumerate (Suc n) kvs) tx1 = (None, tx')"
    using Cons.prems(3) p kv by (auto split: option.splits)
  have v1: "view tx1 = (view tx)(snapshotBucket \<mapsto> m(k \<mapsto> v))" by (rule bolt_lawsD(7) [OF laws Cons.prems(1) p [unfolded e]])
  have d: "k \<notin> dom (map_of kvs)" "distinct (map fst kvs)" using Cons.prems(2) kv by (auto simp: dom_map_of_conv_image_fst)
  have "view tx' = (view tx1)(snapshotBucket \<mapsto> m(k \<mapsto> v) ++ map_of kvs)" by (rule Cons.IH [OF _ d(2) rest]) (simp only: v1 fun_upd_same)
  moreover have "m(k \<mapsto> v) ++ map_of kvs = m ++ map_of (kv # kvs)"
    using d(1) kv by (auto simp: map_add_def fun_eq_iff split: option.splits)
  ultimately show ?case by (simp only: v1 fun_upd_upd)
qed (simp add: fun_upd_idem)

lemma replace_writes_spec:
  assumes laws: "bolt_laws bo committed view" and "distinct (map fst kvs)" and "replace_writes bo ctx kvs tx = (None, tx')"
  shows "view tx' = (view tx)(snapshotBucket \<mapsto> map_of kvs)"
proof -
  obtain tx1 where d: "view tx1 = (view tx)(snapshotBucket := None)"
    and rest: "(case bo_CreateBucket bo snapshotBucket tx1 of (Some err, tx) \<Rightarrow> (Some err, tx)
      | (None, tx) \<Rightarrow> for_each (\<lambda>(i, key, value) tx. case ctx (PollIter i) of Some err \<Rightarrow> (Some err, tx)
              | None \<Rightarrow> bo_Put bo snapshotBucket key value tx) (enumerate 0 kvs) tx) = (None, tx')"
  proof -
    obtain e tx1 where r: "bo_DeleteBucket bo snapshotBucket tx = (e, tx1)" by fastforce
    have ok: "\<forall>x. e = Some x \<longrightarrow> errors_Is x ErrBucketNotFound"
      using assms(3) r by (auto simp: replace_writes_def split: option.splits if_splits prod.splits)
    have "view tx1 = (view tx)(snapshotBucket := None)"
    proof (cases e)
      case None
      with r show ?thesis by (intro bolt_lawsD(11) [OF laws]) simp
    next
      case (Some x)
      with r ok have "view tx snapshotBucket = None \<and> view tx1 = view tx" by (intro bolt_lawsD(12) [OF laws]) auto
      then show ?thesis by (auto simp: fun_upd_idem)
    qed
    with assms(3) r ok that show ?thesis by (cases e) (simp_all add: replace_writes_def)
  qed
  obtain tx2 where c: "bo_CreateBucket bo snapshotBucket tx1 = (None, tx2)"
    and l: "for_each (\<lambda>(i, key, value) tx. case ctx (PollIter i) of Some err \<Rightarrow> (Some err, tx)
              | None \<Rightarrow> bo_Put bo snapshotBucket key value tx) (enumerate 0 kvs) tx2 = (None, tx')"
    using rest by (auto split: prod.splits option.splits)
  have v2: "view tx2 = (view tx)(snapshotBucket \<mapsto> Map.empty)" using bolt_lawsD(9) [OF laws c] d by simp
  from replace_puts [OF laws _ assms(2) l, of Map.empty] v2 show ?thesis by simp
qed

text \<open>The snapshot bucket becomes a copy of the bucket, or stays.\<close>

lemma replaceSnapshot_spec:
  assumes laws: "bolt_laws bo committed view" and "committed source b = Some m"
    and "replaceSnapshot bo ctx source b s = (err, s')"
  shows "bs_closed s' = bs_closed s \<and>
    (err \<noteq> None \<longrightarrow> committed (bs_db s') = committed (bs_db s)) \<and>
    (err = None \<longrightarrow> committed (bs_db s') = (committed (bs_db s))(snapshotBucket \<mapsto> m))"
proof (cases "bs_closed s")
  case True
  with assms(3) show ?thesis by (auto simp: replaceSnapshot_def database_def)
next
  case open_db: False
  show ?thesis
  proof (cases "bo_Begin bo False source")
    case (Inl e)
    with assms(3) open_db show ?thesis by (auto simp: replaceSnapshot_def database_def db_View_def)
  next
    case (Inr stx)
    obtain db' u where up: "db_Update bo (on_tx (replace_writes bo ctx (bo_First bo stx b))) (bs_db s) () = (err, db', u)"
      and s': "s' = s\<lparr>bs_db := db'\<rparr>"
      using assms(3) open_db Inr by (auto simp: replaceSnapshot_def database_def db_View_def split: prod.splits)
    have "view stx b = Some m" using bolt_lawsD(1) [OF laws Inr] assms(2) by simp
    then have cur: "cursor_of m [] (bo_First bo stx b)" by (rule bolt_lawsD(6) [OF laws])
    have dist: "distinct (map fst (bo_First bo stx b))" using cur by (simp add: cursor_of_def strict_sorted_iff)
    have copy: "map_of (bo_First bo stx b) = m"
    proof (rule ext)
      fix k
      have "map_of (bo_First bo stx b) k = Some v \<longleftrightarrow> m k = Some v" for v
        using cur dist by (simp add: cursor_of_def map_of_eq_Some_iff)
      then show "map_of (bo_First bo stx b) k = m k" by (metis option.exhaust)
    qed
    have "committed db' = (committed (bs_db s))(snapshotBucket \<mapsto> m)" if "err = None"
      using db_Update_laws [OF laws up] that replace_writes_spec [OF laws dist] by (auto simp: on_tx_iff copy)
    moreover have "err \<noteq> None \<longrightarrow> committed db' = committed (bs_db s)" using db_Update_laws [OF laws up] by blast
    ultimately show ?thesis using s' by simp
  qed
qed

end
