(* ===== verification/Bolt_Reconcile.thy ===== *)
theory Bolt_Reconcile
  imports Bolt_Contract Reconcile_Run
begin

text \<open>
  \<open>reconcile_bolt.go\<close>: the full reconciliation on a \<open>BoltStore\<close> without a sink. The previous
  snapshot, the scanned tree, the identities, the expected entries and the changes are staged in the
  buckets of a temporary database; the difference is computed by cursors over them, and the snapshot
  bucket is replaced by the staged tree. The theory shows that a successful run leaves exactly the
  scanned tree in the snapshot and a failed one leaves the snapshot alone, and that the staged events
  are accounted for in the report.
\<close>

section \<open>Buckets and captured variables\<close>

definition workPrevious :: string where "workPrevious = ''previous''"
definition workActual :: string where "workActual = ''actual''"
definition workPreviousID :: string where "workPreviousID = ''previous-id''"
definition workActualID :: string where "workActualID = ''actual-id''"
definition workExpected :: string where "workExpected = ''expected''"
definition workMatched :: string where "workMatched = ''matched-previous''"
definition workChanges :: string where "workChanges = ''changes''"

definition workBuckets :: "string list" where
  "workBuckets = [workPrevious, workActual, workPreviousID, workActualID, workExpected, workMatched, workChanges]"

text \<open>
  The temporary file and its database; their removal at the end has no effect on the tracker.
  The functions of the transactions capture the report, the watch tree and the observed
  directories. \<open>ba_staged\<close> keeps the events staged so far; the run reads only their number, for the clock.
\<close>

record 'd IndexEnv =
  ix_CreateTemp :: "GoError + string"
  ix_CloseTemp :: "GoError option"
  ix_Open :: "string \<Rightarrow> GoError + 'd"

record 'b bolt_acc =
  ba_report :: ReconcileReport
  ba_staged :: "Event list"
  ba_observed :: stringset
  ba_tree :: "WatchTree option"
  ba_backend :: 'b

text \<open>\<open>Update\<close> with a function that runs a scan, which may not end.\<close>

definition db_Update_scan ::
  "('d, 'k) Bolt \<Rightarrow> ('k \<times> 'a \<Rightarrow> (GoError option \<times> 'k \<times> 'a) option) \<Rightarrow> 'd \<Rightarrow> 'a \<Rightarrow> (GoError option \<times> 'd \<times> 'a) option" where
  "db_Update_scan bo fn d a =
     (case bo_Begin bo True d of
        Inl err \<Rightarrow> Some (Some err, d, a)
      | Inr tx \<Rightarrow> (case fn (tx, a) of None \<Rightarrow> None | Some r \<Rightarrow> Some (db_Update bo (\<lambda>_. r) d a)))"

section \<open>Helpers\<close>

definition indexIdentity :: "('d, 'k) Bolt \<Rightarrow> string \<Rightarrow> string \<Rightarrow> string \<Rightarrow> 'k \<Rightarrow> GoError option \<times> 'k" where
  "indexIdentity bo bucket ident path tx =
     (if ident = [] then (None, tx)
      else
        (case bo_Get bo tx bucket ident of
           None \<Rightarrow> bo_Put bo bucket ident path tx
         | Some value \<Rightarrow> if value \<noteq> path then bo_Put bo bucket ident [] tx else (None, tx)))"

definition PutUint64 :: "64 word \<Rightarrow> string" where
  "PutUint64 sequence = map (\<lambda>i. char_of (unat (drop_bit (8 * i) sequence))) (rev [0..<8])"

definition encodeStagedEvent :: "JSON \<Rightarrow> Event \<Rightarrow> GoError + string" where
  "encodeStagedEvent json event = js_Event json (staged event)"

definition decodeStagedEvent :: "JSON \<Rightarrow> string \<Rightarrow> GoError + Event" where
  "decodeStagedEvent json value =
     (case js_toEvent json value of Inl err \<Rightarrow> Inl err | Inr stored \<Rightarrow> Inr (eventFromStaged stored))"

definition stageReportEvent ::
  "('d, 'k) Bolt \<Rightarrow> JSON \<Rightarrow> int \<Rightarrow> Event \<Rightarrow> 'k \<times> 'b bolt_acc \<Rightarrow> GoError option \<times> 'k \<times> 'b bolt_acc" where
  "stageReportEvent bo json limit event s =
     (case s of (tx, acc0) \<Rightarrow>
        let acc = acc0\<lparr>ba_report := addReportEvent limit event (countEvent (ev_Kind event) (ba_report acc0)),
                       ba_staged := ba_staged acc0 @ [event]\<rparr>
        in (case bo_NextSequence bo workChanges tx of
              (Inl err, tx) \<Rightarrow> (Some err, tx, acc)
            | (Inr sequence, tx) \<Rightarrow>
                (case encodeStagedEvent json event of
                   Inl err \<Rightarrow> (Some err, tx, acc)
                 | Inr value \<Rightarrow> on_tx (bo_Put bo workChanges (PutUint64 sequence) value) (tx, acc))))"

text \<open>The time is an argument.\<close>

definition semanticEvent :: "Time \<Rightarrow> EventKind \<Rightarrow> string \<Rightarrow> string \<Rightarrow> FileState option \<Rightarrow> FileState option \<Rightarrow> Event" where
  "semanticEvent now kind path oldPath before after =
     \<lparr>ev_Kind = kind, ev_Path = path, ev_OldPath = oldPath, ev_Before = before, ev_After = after,
      ev_Source = SourceReconcile, ev_Time = now\<rparr>"

definition sameFileIdentity :: "FileState \<Rightarrow> FileState \<Rightarrow> bool" where
  "sameFileIdentity before after =
     (IsZero (st_ID before) \<or> IsZero (st_ID after) \<or> FileID_Equal (st_ID before) (st_ID after))"

definition fileContentMetadataChanged :: "FileState \<Rightarrow> FileState \<Rightarrow> bool" where
  "fileContentMetadataChanged before after =
     (st_Type before \<noteq> st_Type after \<or> st_Size before \<noteq> st_Size after \<or>
      UnixNano (st_ModTime before) \<noteq> UnixNano (st_ModTime after))"

definition stage_semantic ::
  "Env \<Rightarrow> ('d, 'k) Bolt \<Rightarrow> JSON \<Rightarrow> int \<Rightarrow> EventKind \<Rightarrow> string \<Rightarrow> string \<Rightarrow> FileState option \<Rightarrow> FileState option \<Rightarrow>
   'k \<times> 'b bolt_acc \<Rightarrow> GoError option \<times> 'k \<times> 'b bolt_acc" where
  "stage_semantic env bo json limit kind path oldPath before after s =
     stageReportEvent bo json limit
       (semanticEvent (env_eventTime env (length (ba_staged (snd s)))) kind path oldPath before after) s"

section \<open>Staging\<close>

definition init_index :: "('d, 'k) Bolt \<Rightarrow> 'k \<Rightarrow> GoError option \<times> 'k" where
  "init_index bo = for_each (bo_CreateBucket bo) workBuckets"

definition stage_state ::
  "('d, 'k) Bolt \<Rightarrow> JSON \<Rightarrow> string \<Rightarrow> string \<Rightarrow> FileState \<Rightarrow> 'k \<Rightarrow> GoError option \<times> 'k" where
  "stage_state bo json states identities state tx =
     (case encodeFileState (js_State json) state of
        Inl err \<Rightarrow> (Some err, tx)
      | Inr value \<Rightarrow>
          (case bo_Put bo states (st_Path state) value tx of
             (Some err, tx) \<Rightarrow> (Some err, tx)
           | (None, tx) \<Rightarrow> indexIdentity bo identities (id_value (st_ID state)) (st_Path state) tx))"

text \<open>The callback of the scan, as in the generic run but with the maps in buckets.\<close>

definition observe_bolt ::
  "('s, 'c) Config \<Rightarrow> 'b WatchBackend \<Rightarrow> FileState \<Rightarrow> 'b bolt_acc \<Rightarrow> GoError option \<times> 'b bolt_acc" where
  "observe_bolt config backend state acc =
     (if st_Type state = FileTypeDirectory \<and> cf_Recursive config then
        (case (case ba_tree acc of
                 None \<Rightarrow> (None, acc)
               | Some tree \<Rightarrow>
                   (case wt_Add backend (st_Path state) (tree, ba_backend acc) of
                      (err, tree', b') \<Rightarrow> (err, acc\<lparr>ba_tree := Some tree', ba_backend := b'\<rparr>))) of
           (Some err, acc') \<Rightarrow> (Some err, acc')
         | (None, acc') \<Rightarrow> (None, acc'\<lparr>ba_observed := AList.update (st_Path state) () (ba_observed acc')\<rparr>))
      else (None, acc))"

definition hardlink_bolt ::
  "Env \<Rightarrow> ('d, 'k) Bolt \<Rightarrow> JSON \<Rightarrow> ('s, 'c) Config \<Rightarrow> FileState \<Rightarrow> 64 word \<Rightarrow>
   'k \<times> 'b bolt_acc \<Rightarrow> GoError option \<times> 'k \<times> 'b bolt_acc" where
  "hardlink_bolt env bo json config state links s =
     (if st_Type state = FileTypeRegular \<and> links > 1 then
        (case cf_HardlinkPolicy config of
           RejectHardlinks \<Rightarrow> (Some (ErrWrap [] ErrHardlink ('': '' @ st_Path state)), s)
         | ReportHardlinks \<Rightarrow>
             stage_semantic env bo json (cf_ReportEventLimit config) EventInvalid (st_Path state) [] None (Some state) s
         | _ \<Rightarrow> (None, s))
      else (None, s))"

definition bolt_callback ::
  "Env \<Rightarrow> ('d, 'k) Bolt \<Rightarrow> JSON \<Rightarrow> ('s, 'c) Config \<Rightarrow> 'b WatchBackend \<Rightarrow> Entry \<Rightarrow>
   'k \<times> 'b bolt_acc \<Rightarrow> GoError option \<times> 'k \<times> 'b bolt_acc" where
  "bolt_callback env bo json config backend entry s =
     (let state = stateFromEntry entry in
      case observe_bolt config backend state (snd s) of
        (Some err, acc) \<Rightarrow> (Some err, fst s, acc)
      | (None, acc) \<Rightarrow>
     (case hardlink_bolt env bo json config state (en_Links entry) (fst s, acc) of
        (Some err, s) \<Rightarrow> (Some err, s)
      | (None, s) \<Rightarrow>
     (case on_tx (stage_state bo json workActual workActualID state) s of
        (Some err, s) \<Rightarrow> (Some err, s)
      | (None, tx, acc) \<Rightarrow>
          (None, tx, acc\<lparr>ba_report := (ba_report acc)\<lparr>rr_Scanned := rr_Scanned (ba_report acc) + 1\<rparr>\<rparr>))))"

definition stage_actual ::
  "Env \<Rightarrow> ('d, 'k) Bolt \<Rightarrow> JSON \<Rightarrow> ('s, 'c, 'b) Tracker \<Rightarrow> 'k \<times> 'b bolt_acc \<Rightarrow> (GoError option \<times> 'k \<times> 'b bolt_acc) option" where
  "stage_actual env bo json t s =
     (case Scan (tracker_scanner (t_config t)) (env_fs env (t_root t)) (env_ctx env (UseScan (t_root t))) (env_fuel env)
             (t_root t) (bolt_callback env bo json (t_config t) (t_backendOps t)) s of
        None \<Rightarrow> None
      | Some (None, s') \<Rightarrow> Some (None, s')
      | Some (Some err, s') \<Rightarrow> if errors_Is err ErrNotExist then Some (None, s') else Some (Some err, s'))"

definition stage_expected ::
  "('d, 'k) Bolt \<Rightarrow> JSON \<Rightarrow> ('s, 'c) Config \<Rightarrow> string \<Rightarrow> bool \<Rightarrow> ExpectedEntry \<Rightarrow> 'k \<Rightarrow> GoError option \<times> 'k" where
  "stage_expected bo json config root rootExpectedAllowed entry tx =
     (case expectedPath root (ee_Path entry) of
        Inl err \<Rightarrow> (Some err, tx)
      | Inr path \<Rightarrow>
          if path = root \<and> ee_Type entry = None \<and> \<not> rootExpectedAllowed then (None, tx)
          else if filter_rejects config path entry then (None, tx)
          else
            (case js_Entry json (entry\<lparr>ee_Path := path, ee_Type := expected_type config entry\<rparr>) of
               Inl err \<Rightarrow> (Some err, tx)
             | Inr value \<Rightarrow> bo_Put bo workExpected path value tx))"

section \<open>Difference\<close>

definition bytes_of :: "string option \<Rightarrow> string" where
  "bytes_of value = (case value of None \<Rightarrow> [] | Some v \<Rightarrow> v)"

definition diff_present ::
  "Env \<Rightarrow> ('d, 'k) Bolt \<Rightarrow> JSON \<Rightarrow> int \<Rightarrow> FileState \<Rightarrow> FileState \<Rightarrow> 'k \<times> 'b bolt_acc \<Rightarrow> GoError option \<times> 'k \<times> 'b bolt_acc" where
  "diff_present env bo json limit before after s =
     (if \<not> sameFileIdentity before after then
        stage_semantic env bo json limit EventReplaced (st_Path after) [] (Some before) (Some after) s
      else if fileContentMetadataChanged before after then
        stage_semantic env bo json limit EventModified (st_Path after) [] (Some before) (Some after) s
      else if st_Mode before \<noteq> st_Mode after then
        stage_semantic env bo json limit EventAttributeChanged (st_Path after) [] (Some before) (Some after) s
      else (None, s))"

definition moved_from :: "('d, 'k) Bolt \<Rightarrow> FileState \<Rightarrow> 'k \<Rightarrow> (string \<times> string) option" where
  "moved_from bo after tx =
     (let ident = id_value (st_ID after);
          oldPath = bytes_of (bo_Get bo tx workPreviousID ident);
          uniqueActual = bytes_of (bo_Get bo tx workActualID ident)
      in if \<not> IsZero (st_ID after) \<and> oldPath \<noteq> [] \<and> uniqueActual = st_Path after \<and> bo_Get bo tx workMatched oldPath = None
         then map_option (Pair oldPath) (bo_Get bo tx workPrevious oldPath)
         else None)"

definition diff_absent ::
  "Env \<Rightarrow> ('d, 'k) Bolt \<Rightarrow> JSON \<Rightarrow> int \<Rightarrow> FileState \<Rightarrow> 'k \<times> 'b bolt_acc \<Rightarrow> GoError option \<times> 'k \<times> 'b bolt_acc" where
  "diff_absent env bo json limit after s =
     (case moved_from bo after (fst s) of
        Some (oldPath, beforeValue) \<Rightarrow>
          (case decodeFileState (js_toState json) beforeValue of
             Inl err \<Rightarrow> (Some err, s)
           | Inr before \<Rightarrow>
               (case on_tx (bo_Put bo workMatched oldPath [CHR 0x01]) s of
                  (Some err, s) \<Rightarrow> (Some err, s)
                | (None, s) \<Rightarrow>
                    stage_semantic env bo json limit EventMoved (st_Path after) (st_Path before) (Some before) (Some after) s))
      | None \<Rightarrow> stage_semantic env bo json limit EventCreated (st_Path after) [] None (Some after) s)"

definition diff_actual_entry ::
  "Env \<Rightarrow> ('d, 'k) Bolt \<Rightarrow> JSON \<Rightarrow> int \<Rightarrow> nat \<times> string \<times> string \<Rightarrow> 'k \<times> 'b bolt_acc \<Rightarrow> GoError option \<times> 'k \<times> 'b bolt_acc" where
  "diff_actual_entry env bo json limit kv s =
     (case kv of (i, path, value) \<Rightarrow>
        (case env_ctx env UseActual (PollIter i) of
           Some err \<Rightarrow> (Some err, s)
         | None \<Rightarrow>
        (case decodeFileState (js_toState json) value of
           Inl err \<Rightarrow> (Some err, s)
         | Inr after \<Rightarrow>
        (case bo_Get bo (fst s) workPrevious path of
           Some beforeValue \<Rightarrow>
             (case decodeFileState (js_toState json) beforeValue of
                Inl err \<Rightarrow> (Some err, s)
              | Inr before \<Rightarrow>
                  (case on_tx (bo_Put bo workMatched path [CHR 0x01]) s of
                     (Some err, s) \<Rightarrow> (Some err, s)
                   | (None, s) \<Rightarrow> diff_present env bo json limit before after s))
         | None \<Rightarrow> diff_absent env bo json limit after s))))"

definition diff_previous_entry ::
  "Env \<Rightarrow> ('d, 'k) Bolt \<Rightarrow> JSON \<Rightarrow> int \<Rightarrow> nat \<times> string \<times> string \<Rightarrow> 'k \<times> 'b bolt_acc \<Rightarrow> GoError option \<times> 'k \<times> 'b bolt_acc" where
  "diff_previous_entry env bo json limit kv s =
     (case kv of (i, path, value) \<Rightarrow>
        (case env_ctx env UsePrevious (PollIter i) of
           Some err \<Rightarrow> (Some err, s)
         | None \<Rightarrow>
             if bo_Get bo (fst s) workMatched path \<noteq> None then (None, s)
             else
               (case decodeFileState (js_toState json) value of
                  Inl err \<Rightarrow> (Some err, s)
                | Inr before \<Rightarrow> stage_semantic env bo json limit EventDeleted (st_Path before) [] (Some before) None s)))"

definition diff_expected_entry ::
  "Env \<Rightarrow> ('d, 'k) Bolt \<Rightarrow> JSON \<Rightarrow> int \<Rightarrow> string \<times> string \<Rightarrow> 'k \<times> 'b bolt_acc \<Rightarrow> GoError option \<times> 'k \<times> 'b bolt_acc" where
  "diff_expected_entry env bo json limit kv s =
     (case kv of (path, value) \<Rightarrow>
        (case js_toEntry json value of
           Inl err \<Rightarrow> (Some err, s)
         | Inr entry \<Rightarrow>
        (case bo_Get bo (fst s) workActual path of
           None \<Rightarrow> stage_semantic env bo json limit EventMissing (ee_Path entry) [] None None s
         | Some actualValue \<Rightarrow>
        (case decodeFileState (js_toState json) actualValue of
           Inl err \<Rightarrow> (Some err, s)
         | Inr state \<Rightarrow>
             if (case ee_Type entry of None \<Rightarrow> False | Some ty \<Rightarrow> st_Type state \<noteq> ty) \<or>
                (case ee_Size entry of None \<Rightarrow> False | Some sz \<Rightarrow> st_Size state \<noteq> sz)
             then stage_semantic env bo json limit EventInvalid (st_Path state) [] None (Some state) s
             else (None, fst s, (snd s)\<lparr>ba_report := (ba_report (snd s))\<lparr>rr_Healthy := rr_Healthy (ba_report (snd s)) + 1\<rparr>\<rparr>)))))"

definition diff_orphan_entry ::
  "Env \<Rightarrow> ('d, 'k) Bolt \<Rightarrow> JSON \<Rightarrow> ('s, 'c) Config \<Rightarrow> string \<times> string \<Rightarrow> 'k \<times> 'b bolt_acc \<Rightarrow> GoError option \<times> 'k \<times> 'b bolt_acc" where
  "diff_orphan_entry env bo json config kv s =
     (case kv of (path, value) \<Rightarrow>
        if bo_Get bo (fst s) workExpected path \<noteq> None then (None, s)
        else
          (case decodeFileState (js_toState json) value of
             Inl err \<Rightarrow> (Some err, s)
           | Inr state \<Rightarrow>
               if cf_ExpectedScope config = ExpectedRegularFiles \<and> st_Type state \<noteq> FileTypeRegular then (None, s)
               else stage_semantic env bo json (cf_ReportEventLimit config) EventOrphan (st_Path state) [] None (Some state) s))"

definition cursor_loop ::
  "('d, 'k) Bolt \<Rightarrow> string \<Rightarrow> (nat \<times> string \<times> string \<Rightarrow> 'k \<times> 'a \<Rightarrow> GoError option \<times> 'k \<times> 'a) \<Rightarrow> 'k \<times> 'a \<Rightarrow> GoError option \<times> 'k \<times> 'a" where
  "cursor_loop bo bucket body s = for_each body (enumerate 0 (bo_First bo (fst s) bucket)) s"

definition diff_index ::
  "Env \<Rightarrow> ('d, 'k) Bolt \<Rightarrow> JSON \<Rightarrow> ('s, 'c) Config \<Rightarrow> 'k \<times> 'b bolt_acc \<Rightarrow> GoError option \<times> 'k \<times> 'b bolt_acc" where
  "diff_index env bo json config s =
     (case cursor_loop bo workActual (diff_actual_entry env bo json (cf_ReportEventLimit config)) s of
        (Some err, s) \<Rightarrow> (Some err, s)
      | (None, s) \<Rightarrow>
     (case cursor_loop bo workPrevious (diff_previous_entry env bo json (cf_ReportEventLimit config)) s of
        (Some err, s) \<Rightarrow> (Some err, s)
      | (None, s) \<Rightarrow>
          if cf_Expected config = None then (None, s)
          else
            (case cursor_loop bo workExpected (\<lambda>(_, kv). diff_expected_entry env bo json (cf_ReportEventLimit config) kv) s of
               (Some err, s) \<Rightarrow> (Some err, s)
             | (None, s) \<Rightarrow> cursor_loop bo workActual (\<lambda>(_, kv). diff_orphan_entry env bo json config kv) s)))"

section \<open>The run\<close>

definition open_index :: "('d, 'k) Bolt \<Rightarrow> 'd IndexEnv \<Rightarrow> GoError + 'd" where
  "open_index bo ix =
     (case ix_CreateTemp ix of
        Inl err \<Rightarrow> Inl (ErrWrap ''fsrecon: create reconcile index: '' err [])
      | Inr indexPath \<Rightarrow>
     (case ix_CloseTemp ix of
        Some err \<Rightarrow> Inl (ErrWrap ''fsrecon: close reconcile index file: '' err [])
      | None \<Rightarrow>
     (case ix_Open ix indexPath of
        Inl err \<Rightarrow> Inl (ErrWrap ''fsrecon: open reconcile index: '' err [])
      | Inr index \<Rightarrow>
     (case db_Update bo (on_tx (init_index bo)) index () of
        (Some err, _) \<Rightarrow> Inl (ErrWrap ''fsrecon: initialize reconcile index: '' err [])
      | (None, index, _) \<Rightarrow> Inr index))))"

definition stage_previous ::
  "Env \<Rightarrow> ('d, 'k) Bolt \<Rightarrow> JSON \<Rightarrow> ('d BoltStore, 'c, 'b) Tracker \<Rightarrow> 'd \<Rightarrow> GoError option \<times> 'd" where
  "stage_previous env bo json t index =
     (case db_Update bo (on_tx (bs_Walk bo json (env_ctx env (UseWalk (t_root t))) (t_snapshot t) (t_root t)
             (stage_state bo json workPrevious workPreviousID))) index () of
        (err, index, _) \<Rightarrow> (map_option (\<lambda>e. ErrWrap ''fsrecon: stage previous snapshot: '' e []) err, index))"

definition load_expected_bolt ::
  "Env \<Rightarrow> ('d, 'k) Bolt \<Rightarrow> JSON \<Rightarrow> ('s, 'c, 'b) Tracker \<Rightarrow> 'd \<Rightarrow> GoError option \<times> 'd" where
  "load_expected_bolt env bo json t index =
     (case cf_Expected (t_config t) of
        None \<Rightarrow> (None, index)
      | Some provider \<Rightarrow>
          (case expectedRootCanBeExpected (env_rootLstat env) (env_ctx env UseGet) t of
             Inl err \<Rightarrow> (Some (ErrWrap ''fsrecon: inspect expected root: '' err []), index)
           | Inr rootExpectedAllowed \<Rightarrow>
               (case db_Update bo (on_tx (provide (ep_WalkExpected provider (t_root t))
                       (stage_expected bo json (t_config t) (t_root t) rootExpectedAllowed))) index () of
                  (err, index, _) \<Rightarrow> (map_option (\<lambda>e. ErrWrap ''fsrecon: stage expected state: '' e []) err, index))))"

definition deliver_index ::
  "('d, 'k) Bolt \<Rightarrow> JSON \<Rightarrow> 64 word \<Rightarrow> 'd \<Rightarrow> ('s, 'c, 'b) Tracker \<Rightarrow> GoError option \<times> ('s, 'c, 'b) Tracker" where
  "deliver_index bo json generation index t =
     (let sink = cf_ChangeSink (t_config t) in
      case db_View bo (\<lambda>tx bk.
             case for_each (\<lambda>(_, value) bk.
                    case decodeStagedEvent json value of
                      Inl err \<Rightarrow> (Some err, bk)
                    | Inr event \<Rightarrow> Add_event sink event bk) (bo_First bo tx workChanges) bk of
               (Some err, bk) \<Rightarrow> (Some err, bk)
             | (None, bk) \<Rightarrow> Finish sink bk)
           index (newChangeBatcher (t_sessionID t) generation (cf_ChangeBatchSize (t_config t)), t_sinkState t) of
        (err, _, k) \<Rightarrow> (err, t\<lparr>t_sinkState := k\<rparr>))"

text \<open>Delivery, replacement of the snapshot and publication.\<close>

definition finish_bolt ::
  "Env \<Rightarrow> ('d, 'k) Bolt \<Rightarrow> JSON \<Rightarrow> 'd \<Rightarrow> ReconcileReport \<Rightarrow> ('d BoltStore, 'c, 'b) Tracker \<Rightarrow> ('d BoltStore, 'c, 'b) run_result" where
  "finish_bolt env bo json index report t =
     (case deliver_index bo json (rr_Generation report) index t of
        (Some err, t) \<Rightarrow> reconcile_fail env report err t
      | (None, t) \<Rightarrow>
     (case replaceSnapshot bo (env_ctx env UseReplace) index workActual (t_snapshot t) of
        (Some err, s) \<Rightarrow>
          reconcile_fail env report (ErrWrap ''fsrecon: replace persistent snapshot: '' err []) (t\<lparr>t_snapshot := s\<rparr>)
      | (None, s) \<Rightarrow>
          let report = report\<lparr>rr_Duration := env_elapsed env\<rparr>;
              t = setConsistentState (t\<lparr>t_snapshot := s, t_stats := count_reconcile report (t_stats t),
                                        t_generation := rr_Generation report\<rparr>)
          in ((report, None), fold sendEvent (rr_Events report) t)))"

definition bolt_healthy :: "('s, 'c) Config \<Rightarrow> ReconcileReport \<Rightarrow> ReconcileReport" where
  "bolt_healthy config report =
     (if cf_Expected config = None
      then report\<lparr>rr_Healthy := rr_Scanned report - rr_Created report - rr_Modified report - rr_Replaced report\<rparr>
      else report)"

text \<open>The difference and what follows.\<close>

definition diff_bolt ::
  "Env \<Rightarrow> ('d, 'k) Bolt \<Rightarrow> JSON \<Rightarrow> 'd \<Rightarrow> 'b bolt_acc \<Rightarrow> ('d BoltStore, 'c, 'b) Tracker \<Rightarrow> ('d BoltStore, 'c, 'b) run_result" where
  "diff_bolt env bo json index acc t =
     (case db_Update bo (diff_index env bo json (t_config t)) index acc of
        (Some err, _, acc) \<Rightarrow>
          reconcile_fail env (ba_report acc) (ErrWrap ''fsrecon: diff persistent snapshot: '' err []) t
      | (None, index, acc) \<Rightarrow> finish_bolt env bo json index (bolt_healthy (t_config t) (ba_report acc)) t)"

definition reconcileBoltLocked ::
  "('d, 'k) Bolt \<Rightarrow> JSON \<Rightarrow> 'd IndexEnv \<Rightarrow> Env \<Rightarrow> ReconcileReport \<Rightarrow> ('d BoltStore, 'c, 'b) Tracker \<Rightarrow>
   ('d BoltStore, 'c, 'b) run_result option" where
  "reconcileBoltLocked bo json ix env report t =
     (case open_index bo ix of
        Inl err \<Rightarrow> Some (reconcile_fail env report err t)
      | Inr index \<Rightarrow>
     (case stage_previous env bo json t index of
        (Some err, _) \<Rightarrow> Some (reconcile_fail env report err t)
      | (None, index) \<Rightarrow>
     (case db_Update_scan bo (stage_actual env bo json t) index
             \<lparr>ba_report = report, ba_staged = [], ba_observed = [(t_root t, ())], ba_tree = t_watchTree t, ba_backend = t_backend t\<rparr> of
        None \<Rightarrow> None
      | Some (scanErr, index, acc) \<Rightarrow>
          let t = t\<lparr>t_watchTree := ba_tree acc, t_backend := ba_backend acc\<rparr>
          in (case scanErr of
                Some err \<Rightarrow>
                  Some (reconcile_fail env (ba_report acc) (ErrWrap ''fsrecon: stage actual filesystem: '' err []) t)
              | None \<Rightarrow>
          (case sync_watches [t_root t] (ba_observed acc) t of
             (Some err, t) \<Rightarrow> Some (reconcile_fail env (ba_report acc) err t)
           | (None, t) \<Rightarrow>
          (case load_expected_bolt env bo json t index of
             (Some err, _) \<Rightarrow> Some (reconcile_fail env (ba_report acc) err t)
           | (None, index) \<Rightarrow> Some (diff_bolt env bo json index acc t)))))))"

section \<open>A concrete run\<close>

text \<open>A text for states that reads back what it wrote for every structure it can write.\<close>

fun index_of :: "'a \<Rightarrow> 'a list \<Rightarrow> nat option" where
  "index_of x [] = None"
| "index_of x (y # ys) = (if x = y then Some 0 else map_option Suc (index_of x ys))"

lemma index_of_nth: "index_of x xs = Some i \<Longrightarrow> i < length xs \<and> xs ! i = x"
  by (induction xs arbitrary: i) (auto split: if_splits)

definition table_json :: "FileState list \<Rightarrow> JSON" where
  "table_json tbl = ex_json\<lparr>
     js_State := (\<lambda>sf. case index_of sf (map stored_of tbl) of None \<Rightarrow> Inl (ErrMsg ''json'') | Some i \<Rightarrow> Inr (replicate i CHR ''x'')),
     js_toState := (\<lambda>v. if length v < length tbl then Inr (stored_of (tbl ! length v)) else Inl (ErrMsg ''json'')),
     js_toEvent := (\<lambda>v. Inr \<lparr>sg_Kind = EventCreated, sg_Path = v, sg_OldPath = [], sg_Before = None, sg_After = None,
        sg_Source = SourceReconcile, sg_Time = 0\<rparr>)\<rparr>"

lemma table_json_encodable: "encodable (table_json tbl) st"
  by (auto simp: encodable_def table_json_def split: option.splits dest!: index_of_nth)

section \<open>What the steps keep of the index\<close>

text \<open>
  Every bucket of the index stays, and a step that does not stage an entry of the tree keeps the
  bucket of the tree. The statements are about steps that succeed; a failed one ends its transaction.
\<close>

definition index_ok :: "buckets \<Rightarrow> bool" where
  "index_ok bs = (\<forall>b \<in> set workBuckets. bs b \<noteq> None)"

definition frame :: "buckets \<Rightarrow> buckets \<Rightarrow> bool" where
  "frame bs bs' = (index_ok bs \<longrightarrow> index_ok bs' \<and> bs' workActual = bs workActual)"

definition keeps :: "('k \<Rightarrow> buckets) \<Rightarrow> ('k \<times> 'a \<Rightarrow> GoError option \<times> 'k \<times> 'a) \<Rightarrow> bool" where
  "keeps view f = (\<forall>s tx' a'. f s = (None, tx', a') \<longrightarrow> frame (view (fst s)) (view tx'))"

lemma frame_refl [simp]: "frame bs bs"
  by (simp add: frame_def)

lemma frame_trans [trans]: "frame bs bs1 \<Longrightarrow> frame bs1 bs2 \<Longrightarrow> frame bs bs2"
  by (auto simp: frame_def)

lemma work_names:
  "workPrevious \<noteq> workActual" "workPreviousID \<noteq> workActual" "workActualID \<noteq> workActual" "workExpected \<noteq> workActual"
  "workMatched \<noteq> workActual" "workChanges \<noteq> workActual" "workPrevious \<in> set workBuckets" "workActual \<in> set workBuckets"
  "workPreviousID \<in> set workBuckets" "workActualID \<in> set workBuckets" "workExpected \<in> set workBuckets"
  "workMatched \<in> set workBuckets" "workChanges \<in> set workBuckets"
  by (simp_all add: workBuckets_def workPrevious_def workActual_def workPreviousID_def workActualID_def workExpected_def
      workMatched_def workChanges_def)

lemma put_frame:
  assumes laws: "bolt_laws bo committed view" and "b \<in> set workBuckets" and "b \<noteq> workActual" and "bo_Put bo b k v tx = (None, tx')"
  shows "frame (view tx) (view tx')"
proof -
  have "index_ok (view tx') \<and> view tx' workActual = view tx workActual" if ok: "index_ok (view tx)"
  proof -
    obtain m where "view tx b = Some m" using ok assms(2) by (auto simp: index_ok_def)
    from bolt_lawsD(7) [OF laws this assms(4)] ok assms(3) show ?thesis by (simp add: index_ok_def)
  qed
  then show ?thesis by (simp add: frame_def)
qed

lemma keeps_on_tx: "(\<And>tx tx'. f tx = (None, tx') \<Longrightarrow> frame (view tx) (view tx')) \<Longrightarrow> keeps view (on_tx f)"
  by (auto simp: keeps_def on_tx_iff)

lemma for_each_frame:
  assumes "\<And>x tx tx'. x \<in> set xs \<Longrightarrow> body x tx = (None, tx') \<Longrightarrow> frame (view tx) (view tx')" and "for_each body xs tx = (None, tx')"
  shows "frame (view tx) (view tx')"
  using assms
proof (induction xs arbitrary: tx)
  case (Cons x xs)
  then obtain tx1 where "body x tx = (None, tx1)" "for_each body xs tx1 = (None, tx')" by (auto split: option.splits prod.splits)
  with Cons show ?case by (meson frame_trans list.set_intros)
qed simp

lemma keeps_for_each:
  assumes "\<And>x. keeps view (body x)"
  shows "keeps view (for_each body xs)"
  unfolding keeps_def
proof (intro allI impI)
  fix s tx' a'
  assume "for_each body xs s = (None, tx', a')"
  then show "frame (view (fst s)) (view tx')"
  proof (induction xs arbitrary: s)
    case (Cons x xs)
    then obtain tx1 a1 where "body x s = (None, tx1, a1)" "for_each body xs (tx1, a1) = (None, tx', a')"
      by (auto split: option.splits prod.splits)
    with Cons.IH [of "(tx1, a1)"] assms [of x] show ?case unfolding keeps_def by (metis frame_trans fst_conv)
  qed simp
qed

lemma keeps_stage:
  assumes laws: "bolt_laws bo committed view"
  shows "keeps view (stageReportEvent bo json limit event)" and "keeps view (stage_semantic env bo json limit kind path old before after)"
proof -
  have *: "frame (view tx) (view tx')" if "stageReportEvent bo json limit e (tx, acc) = (None, tx', acc')" for e tx tx' acc acc'
  proof -
    obtain r tx1 where n: "bo_NextSequence bo workChanges tx = (r, tx1)" by fastforce
    from that n obtain q v where r: "r = Inr q" and p: "bo_Put bo workChanges (PutUint64 q) v tx1 = (None, tx')"
      by (auto simp: stageReportEvent_def Let_def on_tx_iff split: sum.splits)
    note n = n [unfolded r]
    from bolt_lawsD(13) [OF laws n] put_frame [OF laws work_names(13,6) p] show ?thesis by simp
  qed
  then show "keeps view (stageReportEvent bo json limit event)" by (auto simp: keeps_def)
  from * show "keeps view (stage_semantic env bo json limit kind path old before after)"
    by (auto simp: keeps_def stage_semantic_def)
qed

lemma indexIdentity_frame:
  assumes "bolt_laws bo committed view" and "b \<in> set workBuckets" and "b \<noteq> workActual" and "indexIdentity bo b ident path tx = (None, tx')"
  shows "frame (view tx) (view tx')"
  using assms(4) put_frame [OF assms(1-3)] by (auto simp: indexIdentity_def split: if_splits option.splits)

lemma keeps_diff:
  assumes laws: "bolt_laws bo committed view"
  shows "keeps view (diff_present env bo json limit before after)" and "keeps view (diff_absent env bo json limit after)"
    and "keeps view (diff_actual_entry env bo json limit kv)" and "keeps view (diff_previous_entry env bo json limit kv)"
    and "keeps view (diff_expected_entry env bo json limit pv)" and "keeps view (diff_orphan_entry env bo json config pv)"
proof -
  note stage = keeps_stage(2) [OF laws, unfolded keeps_def, rule_format]
  have matched: "frame (view (fst s)) (view tx')" if "on_tx (bo_Put bo workMatched path v) s = (None, tx', a')" for path v s tx' a'
    using that put_frame [OF laws work_names(12,5)] by (cases s) (auto simp: on_tx_iff)
  show p: "keeps view (diff_present env bo json limit before after)" for before after
    by (auto simp: keeps_def diff_present_def split: if_splits dest: stage)
  show a: "keeps view (diff_absent env bo json limit after)" for after
    by (auto simp: keeps_def diff_absent_def split: if_splits option.splits sum.splits prod.splits dest!: stage matched intro: frame_trans)
  note pa = p [unfolded keeps_def, rule_format] a [unfolded keeps_def, rule_format]
  show "keeps view (diff_actual_entry env bo json limit kv)"
    by (auto simp: keeps_def diff_actual_entry_def split: if_splits option.splits sum.splits prod.splits
        dest!: pa matched intro: frame_trans)
  show "keeps view (diff_previous_entry env bo json limit kv)"
    by (auto simp: keeps_def diff_previous_entry_def split: if_splits option.splits sum.splits prod.splits dest!: stage)
  show "keeps view (diff_expected_entry env bo json limit pv)"
    by (auto simp: keeps_def diff_expected_entry_def split: if_splits option.splits sum.splits prod.splits dest!: stage)
  show "keeps view (diff_orphan_entry env bo json config pv)"
    by (auto simp: keeps_def diff_orphan_entry_def split: if_splits option.splits sum.splits prod.splits dest!: stage)
qed

lemma keeps_diff_index:
  assumes laws: "bolt_laws bo committed view"
  shows "keeps view (diff_index env bo json config)"
proof -
  have loop: "frame (view (fst s)) (view tx')" if "\<And>kv. keeps view (body kv)" "cursor_loop bo b body s = (None, tx', a')" for b body s tx' a'
    using keeps_for_each [of view body, OF that(1)] that(2) unfolding cursor_loop_def keeps_def by blast
  have split: "keeps view (case kv of (_, pv) \<Rightarrow> f pv)" if "\<And>pv. keeps view (f pv)" for kv :: "nat \<times> string \<times> string" and f
    using that by (cases kv) simp
  note loops = loop [OF keeps_diff(3) [OF laws]] loop [OF keeps_diff(4) [OF laws]]
    loop [OF split [OF keeps_diff(5) [OF laws]]] loop [OF split [OF keeps_diff(6) [OF laws]]]
  show ?thesis
    unfolding keeps_def
    by (auto simp: diff_index_def split: if_splits option.splits prod.splits dest!: loops intro: frame_trans) (blast intro: frame_trans)
qed

section \<open>The staged tree\<close>

lemma init_index_view:
  assumes laws: "bolt_laws bo committed view" and "for_each (bo_CreateBucket bo) bs tx = (None, tx')"
  shows "view tx' b = (if b \<in> set bs then Some Map.empty else view tx b)"
  using assms(2)
proof (induction bs arbitrary: tx)
  case (Cons c bs)
  then obtain tx1 where c: "bo_CreateBucket bo c tx = (None, tx1)" and "for_each (bo_CreateBucket bo) bs tx1 = (None, tx')"
    by (auto split: option.splits prod.splits)
  with Cons.IH have "view tx' b = (if b \<in> set bs then Some Map.empty else view tx1 b)" by blast
  with bolt_lawsD(9) [OF laws c] show ?case by simp
qed simp

lemma open_index_ok:
  assumes laws: "bolt_laws bo committed view" and "open_index bo ix = Inr index"
  shows "index_ok (committed index) \<and> committed index workActual = Some Map.empty"
proof -
  obtain d u where u: "db_Update bo (on_tx (init_index bo)) d () = (None, index, u)"
    using assms(2) by (auto simp: open_index_def split: sum.splits option.splits prod.splits)
  from db_Update_laws [OF laws u] obtain tx tx' where tx: "init_index bo tx = (None, tx')" "committed index = view tx'"
    by (auto simp: on_tx_iff)
  have "view tx' b = Some Map.empty" if "b \<in> set workBuckets" for b
    using init_index_view [OF laws tx(1) [unfolded init_index_def]] that by simp
  then show ?thesis using tx(2) work_names(8) by (simp add: index_ok_def)
qed

lemma stage_state_other:
  assumes "bolt_laws bo committed view" and "states \<in> set workBuckets" "states \<noteq> workActual" "ids \<in> set workBuckets" "ids \<noteq> workActual"
    and "stage_state bo json states ids state tx = (None, tx')"
  shows "frame (view tx) (view tx')"
  using assms(6) by (auto simp: stage_state_def split: sum.splits option.splits prod.splits
      dest!: put_frame [OF assms(1-3)] indexIdentity_frame [OF assms(1,4,5)] intro: frame_trans)

lemma stage_previous_frame:
  assumes laws: "bolt_laws bo committed view" and "bolt_ok json committed (t_snapshot t)"
    and "stage_previous env bo json t index = (None, index')"
  shows "frame (committed index) (committed index')"
proof -
  let ?body = "stage_state bo json workPrevious workPreviousID"
  obtain u where u: "db_Update bo (on_tx (bs_Walk bo json (env_ctx env (UseWalk (t_root t))) (t_snapshot t) (t_root t) ?body)) index () = (None, index', u)"
    using assms(3) by (auto simp: stage_previous_def split: prod.splits)
  from db_Update_laws [OF laws u] obtain tx tx' where tx: "view tx = committed index" "committed index' = view tx'"
    and w: "bs_WalkScope bo json (env_ctx env (UseWalk (t_root t))) (t_snapshot t) (t_root t) ?body tx = (None, tx')"
    by (auto simp: on_tx_iff bs_Walk_def)
  have "frame (view tx) (view tx')"
    by (rule for_each_frame [OF stage_state_other [OF laws work_names(7,1,9,2)] bs_WalkScope_success [OF laws assms(2) w]])
  with tx show ?thesis by simp
qed

lemma load_expected_frame:
  assumes laws: "bolt_laws bo committed view" and "load_expected_bolt env bo json t index = (None, index')"
  shows "frame (committed index) (committed index')"
proof (cases "cf_Expected (t_config t)")
  case None
  with assms(2) show ?thesis by (simp add: load_expected_bolt_def)
next
  case (Some provider)
  obtain allowed u where u: "db_Update bo (on_tx (provide (ep_WalkExpected provider (t_root t))
      (stage_expected bo json (t_config t) (t_root t) allowed))) index () = (None, index', u)"
    using assms(2) Some by (auto simp: load_expected_bolt_def split: sum.splits prod.splits)
  from db_Update_laws [OF laws u] obtain tx tx' where tx: "view tx = committed index" "committed index' = view tx'"
    and w: "provide (ep_WalkExpected provider (t_root t)) (stage_expected bo json (t_config t) (t_root t) allowed) tx = (None, tx')"
    by (auto simp: on_tx_iff)
  have step: "frame (view tx) (view tx')" if "stage_expected bo json (t_config t) (t_root t) allowed e tx = (None, tx')" for e tx tx'
    using that by (auto simp: stage_expected_def split: sum.splits if_splits dest!: put_frame [OF laws work_names(11,4)])
  have "for_each (stage_expected bo json (t_config t) (t_root t) allowed) (fst (ep_WalkExpected provider (t_root t))) tx = (None, tx')"
    using w by (auto simp: provide_def split: prod.splits option.splits)
  with step have "frame (view tx) (view tx')" by (rule for_each_frame)
  with tx show ?thesis by simp
qed

text \<open>One entry of the scan puts its state into the bucket of the tree.\<close>

lemma stage_actual_state:
  assumes laws: "bolt_laws bo committed view" and ok: "index_ok (view tx)" and "view tx workActual = Some m"
    and "stage_state bo json workActual workActualID state tx = (None, tx')"
  obtains v where "encodeFileState (js_State json) state = Inr v" and "index_ok (view tx')"
    and "view tx' workActual = Some (m(st_Path state \<mapsto> v))"
proof -
  obtain v tx1 where v: "encodeFileState (js_State json) state = Inr v" and p: "bo_Put bo workActual (st_Path state) v tx = (None, tx1)"
    and i: "indexIdentity bo workActualID (id_value (st_ID state)) (st_Path state) tx1 = (None, tx')"
    using assms(4) by (auto simp: stage_state_def split: sum.splits option.splits prod.splits)
  have v1: "view tx1 = (view tx)(workActual \<mapsto> m(st_Path state \<mapsto> v))" by (rule bolt_lawsD(7) [OF laws assms(3) p])
  then have ok1: "index_ok (view tx1)" using ok by (simp add: index_ok_def)
  have "index_ok (view tx') \<and> view tx' workActual = view tx1 workActual"
    using indexIdentity_frame [OF laws work_names(10,3) i] ok1 by (simp add: frame_def)
  then show ?thesis using that v v1 by simp
qed

lemma bolt_callback_success:
  assumes laws: "bolt_laws bo committed view" and ok: "index_ok (view tx)" and "view tx workActual = Some m"
    and "bolt_callback env bo json config backend entry (tx, acc) = (None, tx', acc')"
  obtains v where "encodeFileState (js_State json) (stateFromEntry entry) = Inr v" and "index_ok (view tx')"
    and "view tx' workActual = Some (m(en_Path entry \<mapsto> v))"
proof -
  let ?st = "stateFromEntry entry"
  obtain acc1 where o: "observe_bolt config backend ?st acc = (None, acc1)"
    using assms(4) by (auto simp: bolt_callback_def Let_def split: option.splits prod.splits)
  obtain tx1 acc2 where h: "hardlink_bolt env bo json config ?st (en_Links entry) (tx, acc1) = (None, tx1, acc2)"
    using assms(4) o by (auto simp: bolt_callback_def Let_def split: option.splits prod.splits)
  have s: "stage_state bo json workActual workActualID ?st tx1 = (None, tx')"
    using assms(4) o h by (auto simp: bolt_callback_def Let_def on_tx_def split: option.splits prod.splits)
  have "frame (view tx) (view tx1)"
    using h keeps_stage(2) [OF laws] by (fastforce simp: hardlink_bolt_def keeps_def split: if_splits HardlinkPolicy.splits)
  with ok assms(3) have ok1: "index_ok (view tx1)" "view tx1 workActual = Some m" by (simp_all add: frame_def)
  have "st_Path ?st = en_Path entry" by (simp add: stateFromEntry_def)
  with stage_actual_state [OF laws ok1 s] that show ?thesis by metis
qed

lemma staged_tree:
  assumes laws: "bolt_laws bo committed view" and enc: "\<And>e. e \<in> set es \<Longrightarrow> encodable json (stateFromEntry e)"
    and "index_ok (view tx)" and "view tx workActual = Some m" and "bucket_ok json m"
    and "for_each (bolt_callback env bo json config backend) es (tx, acc) = (None, tx', acc')"
  shows "index_ok (view tx') \<and> (\<exists>m'. view tx' workActual = Some m' \<and> bucket_ok json m' \<and>
    bucket_lookup json m' = fold put_map (map stateFromEntry es) (bucket_lookup json m))"
  using enc assms(3-6)
proof (induction es arbitrary: tx acc m)
  case (Cons e es)
  obtain tx1 acc1 where c: "bolt_callback env bo json config backend e (tx, acc) = (None, tx1, acc1)"
    and rest: "for_each (bolt_callback env bo json config backend) es (tx1, acc1) = (None, tx', acc')"
    using Cons.prems(5) by (auto split: option.splits prod.splits)
  obtain v where v: "encodeFileState (js_State json) (stateFromEntry e) = Inr v" "index_ok (view tx1)"
    "view tx1 workActual = Some (m(en_Path e \<mapsto> v))" by (rule bolt_callback_success [OF laws Cons.prems(2,3) c])
  have path: "st_Path (stateFromEntry e) = en_Path e" by (simp add: stateFromEntry_def)
  note b = bucket_put [OF Cons.prems(4) Cons.prems(1) [OF list.set_intros(1)] v(1), unfolded path]
  have "\<And>x. x \<in> set es \<Longrightarrow> encodable json (stateFromEntry x)" using Cons.prems(1) by simp
  from Cons.IH [OF this v(2,3) conjunct1 [OF b] rest, unfolded conjunct2 [OF b]] show ?case by (simp only: list.map fold_simps)
qed simp

text \<open>
  As in the generic run, an error of the callback that tests as "does not exist" would end the scan
  silently. The database and the encoder make no such error.
\<close>

definition index_errors_ok :: "('d, 'k) Bolt \<Rightarrow> JSON \<Rightarrow> bool" where
  "index_errors_ok bo json =
     ((\<forall>b k v tx err tx'. bo_Put bo b k v tx = (Some err, tx') \<longrightarrow> \<not> errors_Is err ErrNotExist) \<and>
      (\<forall>b tx err tx'. bo_NextSequence bo b tx = (Inl err, tx') \<longrightarrow> \<not> errors_Is err ErrNotExist) \<and>
      (\<forall>sf err. js_State json sf = Inl err \<longrightarrow> \<not> errors_Is err ErrNotExist) \<and>
      (\<forall>sg err. js_Event json sg = Inl err \<longrightarrow> \<not> errors_Is err ErrNotExist))"

lemma index_errorsD:
  assumes "index_errors_ok bo json"
  shows "bo_Put bo b k v tx = (Some err, tx') \<Longrightarrow> \<not> errors_Is err ErrNotExist"
    and "bo_NextSequence bo b tx = (Inl err, tx') \<Longrightarrow> \<not> errors_Is err ErrNotExist"
    and "js_State json sf = Inl err \<Longrightarrow> \<not> errors_Is err ErrNotExist"
    and "js_Event json sg = Inl err \<Longrightarrow> \<not> errors_Is err ErrNotExist"
  using assms unfolding index_errors_ok_def by blast+

lemma stage_semantic_error:
  assumes ok: "index_errors_ok bo json" and "stage_semantic env bo json limit kind path old before after s = (Some err, s')"
  shows "\<not> errors_Is err ErrNotExist"
proof -
  obtain tx acc where s: "s = (tx, acc)" by fastforce
  obtain r tx1 where n: "bo_NextSequence bo workChanges tx = (r, tx1)" by fastforce
  show ?thesis
    using assms(2) n s
    by (cases r) (auto simp: stage_semantic_def stageReportEvent_def Let_def on_tx_def encodeStagedEvent_def
        split: sum.splits prod.splits dest: index_errorsD [OF ok])
qed

lemma wt_Add_error:
  assumes "adds_not_vanish backend" and "wt_Add backend path (tree, b) = (Some e, tree', b')"
  shows "\<not> errors_Is e ErrNotExist"
  using assms by (auto simp: wt_Add_def Let_def adds_not_vanish_def split: if_splits prod.splits option.splits)

lemma bolt_callback_error:
  assumes "adds_not_vanish backend" and ok: "index_errors_ok bo json"
    and "bolt_callback env bo json config backend entry s = (Some err, s')"
  shows "\<not> errors_Is err ErrNotExist"
proof -
  let ?st = "stateFromEntry entry"
  obtain e acc1 where o: "observe_bolt config backend ?st (snd s) = (e, acc1)" by fastforce
  have obs: "\<not> errors_Is x ErrNotExist" if "e = Some x" for x
    using o that wt_Add_error [OF assms(1)] by (auto simp: observe_bolt_def split: if_splits option.splits prod.splits)
  obtain e2 s2 where h: "hardlink_bolt env bo json config ?st (en_Links entry) (fst s, acc1) = (e2, s2)" by (metis surj_pair)
  have hard: "\<not> errors_Is x ErrNotExist" if "e2 = Some x" for x
    using h that stage_semantic_error [OF ok] by (fastforce simp: hardlink_bolt_def split: if_splits HardlinkPolicy.splits)
  obtain e3 tx3 where st: "stage_state bo json workActual workActualID ?st (fst s2) = (e3, tx3)" by fastforce
  have state: "\<not> errors_Is x ErrNotExist" if "e3 = Some x" for x
    using st that
    by (auto simp: stage_state_def encodeFileState_def indexIdentity_def split: sum.splits option.splits prod.splits if_splits
        dest: index_errorsD [OF ok])
  have "err = (case e of Some x \<Rightarrow> x | None \<Rightarrow> (case e2 of Some x \<Rightarrow> x | None \<Rightarrow> the e3)) \<and> (e = None \<and> e2 = None \<longrightarrow> e3 \<noteq> None)"
    using assms(3) o h st by (cases e; cases e2; cases e3; cases s2) (auto simp: bolt_callback_def Let_def on_tx_def)
  with obs hard state show ?thesis by (cases e; cases e2; cases e3) auto
qed

lemma stage_actual_entries:
  assumes "adds_not_vanish (t_backendOps t)" and "index_errors_ok bo json"
    and "Scan (tracker_scanner (t_config t)) (env_fs env (t_root t)) (env_ctx env (UseScan (t_root t))) (env_fuel env)
      (t_root t) log_entry [] = Some (None, es)"
    and "stage_actual env bo json t s = Some (None, s')"
  shows "for_each (bolt_callback env bo json (t_config t) (t_backendOps t)) es s = (None, s')"
proof -
  let ?cb = "bolt_callback env bo json (t_config t) (t_backendOps t)"
  obtain e s1 where f: "for_each ?cb es s = (e, s1)" by (metis surj_pair)
  have no: "\<not> errors_Is x ErrNotExist" if "for_each ?cb es s = (Some x, s1)" for x
    using that bolt_callback_error [OF assms(1,2)]
    by (induction es arbitrary: s) (fastforce split: prod.splits option.splits)+
  from assms(4) f no show ?thesis
    by (cases e) (auto simp: stage_actual_def Scan_for_each [OF assms(3)] split: if_splits)
qed

section \<open>Accounting\<close>

text \<open>The report counts and lists the staged events, beside the two counters of entries.\<close>

definition accounts :: "int \<Rightarrow> ReconcileReport \<Rightarrow> 'b bolt_acc \<Rightarrow> bool" where
  "accounts limit r0 acc =
     (\<exists>scanned healthy. ba_report acc = (fold (report_event limit) (ba_staged acc) r0)\<lparr>rr_Scanned := scanned, rr_Healthy := healthy\<rparr>)"

lemma report_event_counters:
  "report_event limit e (r\<lparr>rr_Scanned := n, rr_Healthy := h\<rparr>) = (report_event limit e r)\<lparr>rr_Scanned := n, rr_Healthy := h\<rparr>"
  by (cases "ev_Kind e") (simp_all add: report_event_def addReportEvent_def)

lemma accounts_counters:
  assumes "accounts limit r0 acc"
  shows "accounts limit r0 (acc\<lparr>ba_report := (ba_report acc)\<lparr>rr_Scanned := n\<rparr>\<rparr>)"
    and "accounts limit r0 (acc\<lparr>ba_report := (ba_report acc)\<lparr>rr_Healthy := n\<rparr>\<rparr>)"
proof -
  from assms obtain scanned healthy where
    r: "ba_report acc = (fold (report_event limit) (ba_staged acc) r0)\<lparr>rr_Scanned := scanned, rr_Healthy := healthy\<rparr>"
    unfolding accounts_def by blast
  show "accounts limit r0 (acc\<lparr>ba_report := (ba_report acc)\<lparr>rr_Scanned := n\<rparr>\<rparr>)"
    unfolding accounts_def by (rule exI [of _ n], rule exI [of _ healthy]) (simp add: r)
  show "accounts limit r0 (acc\<lparr>ba_report := (ba_report acc)\<lparr>rr_Healthy := n\<rparr>\<rparr>)"
    unfolding accounts_def by (rule exI [of _ scanned], rule exI [of _ n]) (simp add: r)
qed

lemma accounts_stage:
  assumes "accounts limit r0 (snd s)"
  shows "accounts limit r0 (snd (snd (stageReportEvent bo json limit event s)))"
    and "accounts limit r0 (snd (snd (stage_semantic env bo json limit kind path old before after s)))"
proof -
  have *: "accounts limit r0 (snd (snd (stageReportEvent bo json limit e s)))" for e
  proof -
    obtain tx acc where s: "s = (tx, acc)" by fastforce
    let ?acc = "acc\<lparr>ba_report := report_event limit e (ba_report acc), ba_staged := ba_staged acc @ [e]\<rparr>"
    have "accounts limit r0 ?acc" using assms s by (auto simp: accounts_def report_event_counters) (intro exI, rule refl)
    moreover have "snd (snd (stageReportEvent bo json limit e s)) = ?acc"
      using s by (auto simp: stageReportEvent_def Let_def report_event_def on_tx_def split: sum.split prod.split)
    ultimately show ?thesis by simp
  qed
  then show "accounts limit r0 (snd (snd (stageReportEvent bo json limit event s)))"
    and "accounts limit r0 (snd (snd (stage_semantic env bo json limit kind path old before after s)))"
    by (simp_all add: stage_semantic_def)
qed

lemma accounts_staged:
  "stage_semantic env bo json limit kind path old before after s = (e, s') \<Longrightarrow> accounts limit r0 (snd s) \<Longrightarrow> accounts limit r0 (snd s')"
  by (metis accounts_stage(2) snd_conv)

lemma accounts_on_tx [simp]: "snd (snd (on_tx f s)) = snd s"
  by (cases s) (simp add: on_tx_def split: prod.split)

lemma on_tx_snd: "on_tx f s = (e, s') \<Longrightarrow> snd s' = snd s"
  by (metis accounts_on_tx snd_conv)

lemma accounts_callback:
  assumes "accounts (cf_ReportEventLimit config) r0 (snd s)"
  shows "accounts (cf_ReportEventLimit config) r0 (snd (snd (bolt_callback env bo json config backend entry s)))"
proof -
  let ?st = "stateFromEntry entry"
  obtain e acc1 where o: "observe_bolt config backend ?st (snd s) = (e, acc1)" by fastforce
  have "ba_report acc1 = ba_report (snd s) \<and> ba_staged acc1 = ba_staged (snd s)"
    using o by (auto simp: observe_bolt_def split: if_splits option.splits prod.splits)
  with assms have a1: "accounts (cf_ReportEventLimit config) r0 acc1" by (simp add: accounts_def)
  obtain e2 s2 where h: "hardlink_bolt env bo json config ?st (en_Links entry) (fst s, acc1) = (e2, s2)" by (metis surj_pair)
  have a2: "accounts (cf_ReportEventLimit config) r0 (snd s2)"
    using h a1 by (auto simp: hardlink_bolt_def split: if_splits HardlinkPolicy.splits dest: accounts_staged)
  obtain e3 tx3 acc3 where st: "on_tx (stage_state bo json workActual workActualID ?st) s2 = (e3, tx3, acc3)" by (metis prod_cases3)
  then have "acc3 = snd s2" using on_tx_snd [OF st] by simp
  with a2 have a3: "accounts (cf_ReportEventLimit config) r0 acc3"
    "accounts (cf_ReportEventLimit config) r0 (acc3\<lparr>ba_report := (ba_report acc3)\<lparr>rr_Scanned := n\<rparr>\<rparr>)" for n
    by (simp_all add: accounts_counters)
  show ?thesis using o h st a1 a2 a3 by (cases e; cases e2; cases e3) (simp_all add: bolt_callback_def Let_def)
qed

lemma accounts_diff:
  assumes "accounts (cf_ReportEventLimit config) r0 (snd s)"
  shows "accounts (cf_ReportEventLimit config) r0 (snd (snd (diff_index env bo json config s)))"
proof -
  let ?l = "cf_ReportEventLimit config" and ?A = "\<lambda>s. accounts (cf_ReportEventLimit config) r0 (snd s)"
  have present: "?A (snd (diff_present env bo json ?l before after s))" if "?A s" for before after s
    using that by (auto simp: diff_present_def accounts_stage)
  have absent: "?A (snd (diff_absent env bo json ?l after s))" if "?A s" for after s
    using that by (auto simp: diff_absent_def accounts_stage split: option.split sum.split prod.split dest!: on_tx_snd)
  have actual: "?A (snd (diff_actual_entry env bo json ?l kv s))" if "?A s" for kv s
    using that by (auto simp: diff_actual_entry_def absent split: option.split sum.split prod.split dest!: on_tx_snd)
      (metis present snd_conv)
  have previous: "?A (snd (diff_previous_entry env bo json ?l kv s))" if "?A s" for kv s
    using that by (auto simp: diff_previous_entry_def accounts_stage split: option.split sum.split prod.split)
  have expected: "?A (snd (diff_expected_entry env bo json ?l pv s))" if "?A s" for pv s
    using that by (auto simp: diff_expected_entry_def accounts_stage accounts_counters split: option.split sum.split prod.split)
  have orphan: "?A (snd (diff_orphan_entry env bo json config pv s))" if "?A s" for pv s
    using that by (auto simp: diff_orphan_entry_def accounts_stage split: option.split sum.split prod.split)
  have loop: "?A s'" if "\<And>kv s. ?A s \<Longrightarrow> ?A (snd (body kv s))" "?A s" "cursor_loop bo b body s = (e, s')" for b body s e s'
  proof -
    have "?A (snd (for_each body (enumerate 0 (bo_First bo (fst s) b)) s))"
      by (rule for_each_invariant [where P = ?A, OF that(2) that(1)])
    then show ?thesis using that(3) by (simp add: cursor_loop_def)
  qed
  have pairs: "?A (snd ((case kv of (_, pv) \<Rightarrow> f pv) s))" if "\<And>pv s. ?A s \<Longrightarrow> ?A (snd (f pv s))" "?A s" for kv :: "nat \<times> string \<times> string" and f s
    using that by (cases kv) simp
  obtain e1 s1 where l1: "cursor_loop bo workActual (diff_actual_entry env bo json ?l) s = (e1, s1)" by (metis surj_pair)
  obtain e2 s2 where l2: "cursor_loop bo workPrevious (diff_previous_entry env bo json ?l) s1 = (e2, s2)" by (metis surj_pair)
  obtain e3 s3 where l3: "cursor_loop bo workExpected (\<lambda>(_, kv). diff_expected_entry env bo json ?l kv) s2 = (e3, s3)" by (metis surj_pair)
  obtain e4 s4 where l4: "cursor_loop bo workActual (\<lambda>(_, kv). diff_orphan_entry env bo json config kv) s3 = (e4, s4)" by (metis surj_pair)
  have a1: "?A s1" by (rule loop [OF actual assms l1])
  have a2: "?A s2" by (rule loop [OF previous a1 l2])
  have a3: "?A s3" by (rule loop [OF pairs [OF expected] a2 l3])
  have a4: "?A s4" by (rule loop [OF pairs [OF orphan] a3 l4])
  show ?thesis using l1 l2 l3 l4 a1 a2 a3 a4 by (cases e1; cases e2; cases e3) (simp_all add: diff_index_def)
qed

section \<open>The run\<close>

lemma deliver_index_keeps:
  assumes "deliver_index bo json gen index t = (err, t')"
  shows "t_snapshot t' = t_snapshot t" and "t_generation t' = t_generation t" and "t_pending t' = t_pending t"
  using assms by (auto simp: deliver_index_def Let_def split: prod.splits)

lemma finish_bolt_spec:
  assumes laws: "bolt_laws bo committed view" and "committed index workActual = Some m"
    and "finish_bolt env bo json index report t = ((report', err), t')"
  shows "t_pending t' = t_pending t \<and>
    (err \<noteq> None \<longrightarrow> committed (bs_db (t_snapshot t')) = committed (bs_db (t_snapshot t)) \<and> t_generation t' = t_generation t) \<and>
    (err = None \<longrightarrow> committed (bs_db (t_snapshot t')) = (committed (bs_db (t_snapshot t)))(snapshotBucket \<mapsto> m) \<and>
       t_generation t' = rr_Generation report \<and> report' = report\<lparr>rr_Duration := env_elapsed env\<rparr>)"
proof -
  obtain e t1 where d: "deliver_index bo json (rr_Generation report) index t = (e, t1)" by fastforce
  note k = deliver_index_keeps [OF d]
  obtain e2 s where r: "replaceSnapshot bo (env_ctx env UseReplace) index workActual (t_snapshot t1) = (e2, s)" by fastforce
  note spec = replaceSnapshot_spec [OF laws assms(2) r]
  show ?thesis
  proof (cases e)
    case (Some x)
    with assms(3) d k show ?thesis by (auto simp: finish_bolt_def reconcile_fail_def)
  next
    case None
    with assms(3) d r k spec show ?thesis by (cases e2) (auto simp: finish_bolt_def reconcile_fail_def Let_def)
  qed
qed

lemma db_Update_scan_laws:
  assumes laws: "bolt_laws bo committed view" and "db_Update_scan bo fn d a = Some (None, d', a')"
  shows "\<exists>tx tx'. view tx = committed d \<and> fn (tx, a) = Some (None, tx', a') \<and> committed d' = view tx'"
proof -
  obtain tx where tx: "bo_Begin bo True d = Inr tx"
    using assms(2) by (auto simp: db_Update_scan_def split: sum.splits)
  obtain r where r: "fn (tx, a) = Some r" and u: "db_Update bo (\<lambda>_. r) d a = (None, d', a')"
    using assms(2) tx by (auto simp: db_Update_scan_def split: option.splits)
  from u tx obtain tx' where "r = (None, tx', a')" "bo_Commit bo tx' d = (None, d')"
    by (auto simp: db_Update_def split: prod.splits option.splits)
  with r bolt_lawsD(1) [OF laws tx] bolt_lawsD(2) [OF laws] show ?thesis by metis
qed

lemma accounts_healthy:
  assumes "accounts limit r0 acc"
  obtains n h where "bolt_healthy config (ba_report acc) =
    (fold (report_event limit) (ba_staged acc) r0)\<lparr>rr_Scanned := n, rr_Healthy := h\<rparr>"
proof (cases "cf_Expected config = None")
  case True
  from accounts_counters(2) [OF assms] obtain n h where
    "(ba_report acc)\<lparr>rr_Healthy := rr_Scanned (ba_report acc) - rr_Created (ba_report acc) - rr_Modified (ba_report acc) -
        rr_Replaced (ba_report acc)\<rparr> = (fold (report_event limit) (ba_staged acc) r0)\<lparr>rr_Scanned := n, rr_Healthy := h\<rparr>"
    unfolding accounts_def by fastforce
  with True that show ?thesis by (simp add: bolt_healthy_def)
next
  case False
  with assms that show ?thesis unfolding accounts_def bolt_healthy_def by auto
qed

text \<open>A run fails and changes nothing of the snapshot, or it went through all of its steps.\<close>

lemma reconcileBoltLocked_cases:
  assumes "reconcileBoltLocked bo json ix env report t = Some ((report', err), t')"
  shows "(err \<noteq> None \<and> t_snapshot t' = t_snapshot t \<and> t_generation t' = t_generation t \<and> t_pending t' = t_pending t) \<or>
    (\<exists>i0 i1 i2 i3 i4 acc acc' u. open_index bo ix = Inr i0 \<and> stage_previous env bo json t i0 = (None, i1) \<and>
       db_Update_scan bo (stage_actual env bo json t) i1
         \<lparr>ba_report = report, ba_staged = [], ba_observed = [(t_root t, ())], ba_tree = t_watchTree t, ba_backend = t_backend t\<rparr> =
         Some (None, i2, acc) \<and>
       load_expected_bolt env bo json u i2 = (None, i3) \<and>
       db_Update bo (diff_index env bo json (t_config t)) i3 acc = (None, i4, acc') \<and>
       finish_bolt env bo json i4 (bolt_healthy (t_config t) (ba_report acc')) u = ((report', err), t') \<and>
       t_snapshot u = t_snapshot t \<and> t_generation u = t_generation t \<and> t_pending u = t_pending t)"
proof -
  let ?acc = "\<lparr>ba_report = report, ba_staged = [], ba_observed = [(t_root t, ())], ba_tree = t_watchTree t, ba_backend = t_backend t\<rparr>"
  have fail: "err \<noteq> None \<and> t_snapshot t' = t_snapshot t \<and> t_generation t' = t_generation t \<and> t_pending t' = t_pending t"
    if "reconcile_fail env r x u = ((report', err), t')" "t_snapshot u = t_snapshot t" "t_generation u = t_generation t" "t_pending u = t_pending t" for r x u
    using that by (auto simp: reconcile_fail_def)
  show ?thesis
  proof (cases "open_index bo ix")
    case (Inl x)
    with assms fail show ?thesis by (simp add: reconcileBoltLocked_def)
  next
    case (Inr i0)
    obtain e1 i1 where p: "stage_previous env bo json t i0 = (e1, i1)" by fastforce
    show ?thesis
    proof (cases e1)
      case (Some x)
      with assms fail Inr p show ?thesis by (simp add: reconcileBoltLocked_def)
    next
      case e1: None
      obtain e2 i2 acc where a: "db_Update_scan bo (stage_actual env bo json t) i1 ?acc = Some (e2, i2, acc)"
        using assms Inr p e1 by (auto simp: reconcileBoltLocked_def split: option.splits)
      let ?t = "t\<lparr>t_watchTree := ba_tree acc, t_backend := ba_backend acc\<rparr>"
      obtain e3 u where s: "sync_watches [t_root ?t] (ba_observed acc) ?t = (e3, u)" by (metis surj_pair)
      note k = sync_watches_keeps [OF s]
      obtain e4 i3 where l: "load_expected_bolt env bo json u i2 = (e4, i3)" by fastforce
      obtain e5 i4 acc' where d: "db_Update bo (diff_index env bo json (t_config u)) i3 acc = (e5, i4, acc')" by (metis prod_cases3)
      have run: "(case e2 of
          Some x \<Rightarrow> Some (reconcile_fail env (ba_report acc) (ErrWrap ''fsrecon: stage actual filesystem: '' x []) ?t)
        | None \<Rightarrow> (case e3 of Some x \<Rightarrow> Some (reconcile_fail env (ba_report acc) x u)
        | None \<Rightarrow> (case e4 of Some x \<Rightarrow> Some (reconcile_fail env (ba_report acc) x u)
        | None \<Rightarrow> (case e5 of
              Some x \<Rightarrow> Some (reconcile_fail env (ba_report acc') (ErrWrap ''fsrecon: diff persistent snapshot: '' x []) u)
            | None \<Rightarrow> Some (finish_bolt env bo json i4 (bolt_healthy (t_config u) (ba_report acc')) u))))) = Some ((report', err), t')"
        using assms Inr p e1 a s l d
        by (cases e2; cases e3; cases e4; cases e5) (simp_all add: reconcileBoltLocked_def diff_bolt_def)
      show ?thesis
      proof (cases "e2 = None \<and> e3 = None \<and> e4 = None \<and> e5 = None")
        case True
        with run Inr p e1 a l d k show ?thesis 
          by - (rule disjI2, rule exI [of _ i0], rule exI [of _ i1], rule exI [of _ i2], rule exI [of _ i3], rule exI [of _ i4],
              rule exI [of _ acc], rule exI [of _ acc'], rule exI [of _ u], simp)
      next
        case False
        with run k fail [of _ _ ?t] fail [of _ _ u] show ?thesis by (auto split: option.splits)
      qed
    qed
  qed
qed

section \<open>Properties\<close>

definition bolt_ready :: "JSON \<Rightarrow> ('d \<Rightarrow> buckets) \<Rightarrow> ('d BoltStore, 'c, 'b) Tracker \<Rightarrow> bool" where
  "bolt_ready json committed t =
     (\<not> t_closed t \<and> t_pending t = None \<and> cf_ChangeSink (t_config t) = None \<and> bolt_ok json committed (t_snapshot t) \<and> plain (t_root t))"

lemma Reconcile_bolt_start:
  assumes "bolt_ready json committed t"
  shows "Reconcile (Some (reconcileBoltLocked bo json ix env)) env t =
    reconcileBoltLocked bo json ix env (zero_report\<lparr>rr_StartedAt := env_started env, rr_Generation := t_generation t + 1\<rparr>)
      (setState StateReconciling t)"
  using assms collapseScopes_root [of "t_root t"]
  by (simp add: Reconcile_def reconcileScopes_def bolt_ready_def Let_def)

lemma put_entries:
  assumes "distinct (map en_Path es)"
  shows "fold put_map (map stateFromEntry es) Map.empty p = Some st \<longleftrightarrow> (\<exists>e \<in> set es. en_Path e = p \<and> st = stateFromEntry e)"
proof -
  have path: "st_Path (stateFromEntry e) = en_Path e" for e by (simp add: stateFromEntry_def)
  have d: "distinct (map st_Path (map stateFromEntry es))" using assms by (simp add: comp_def path)
  have "fold put_map (map stateFromEntry es) Map.empty = map_of (map (\<lambda>e. (en_Path e, stateFromEntry e)) es)"
    unfolding fold_put_map map_of_states [OF d] by (simp add: comp_def path)
  then show ?thesis using assms by (auto simp: comp_def)
qed

text \<open>The bucket of the tree at the end of a run that went through its steps.\<close>

lemma index_holds_tree:
  assumes laws: "bolt_laws bo committed view" and "bolt_ok json committed (t_snapshot t)"
    and "adds_not_vanish (t_backendOps t)" and "index_errors_ok bo json"
    and scan: "Scan (tracker_scanner (t_config t)) (env_fs env (t_root t)) (env_ctx env (UseScan (t_root t))) (env_fuel env)
      (t_root t) log_entry [] = Some (None, es)"
    and enc: "\<And>e. e \<in> set es \<Longrightarrow> encodable json (stateFromEntry e)"
    and "open_index bo ix = Inr i0" and "stage_previous env bo json t i0 = (None, i1)"
    and acc0: "accounts (cf_ReportEventLimit (t_config t)) r0 acc0"
    and "db_Update_scan bo (stage_actual env bo json t) i1 acc0 = Some (None, i2, acc)"
    and "load_expected_bolt env bo json u i2 = (None, i3)"
    and "db_Update bo (diff_index env bo json (t_config t)) i3 acc = (None, i4, acc')"
  shows "accounts (cf_ReportEventLimit (t_config t)) r0 acc' \<and>
    (\<exists>m. committed i4 workActual = Some m \<and> bucket_ok json m \<and> bucket_lookup json m = fold put_map (map stateFromEntry es) Map.empty)"
proof -
  let ?cb = "bolt_callback env bo json (t_config t) (t_backendOps t)" and ?l = "cf_ReportEventLimit (t_config t)"
  have i1: "index_ok (committed i1)" "committed i1 workActual = Some Map.empty"
    using open_index_ok [OF laws assms(7)] stage_previous_frame [OF laws assms(2,8)] by (simp_all add: frame_def)
  obtain tx tx' where tx: "view tx = committed i1" "stage_actual env bo json t (tx, acc0) = Some (None, tx', acc)" "committed i2 = view tx'"
    using db_Update_scan_laws [OF laws assms(10)] by blast
  note run = stage_actual_entries [OF assms(3,4) scan tx(2)]
  have empty: "bucket_ok json Map.empty" "bucket_lookup json Map.empty = Map.empty"
    by (simp_all add: bucket_ok_def bucket_lookup_def fun_eq_iff)
  obtain m where m: "index_ok (committed i2)" "committed i2 workActual = Some m" "bucket_ok json m"
    "bucket_lookup json m = fold put_map (map stateFromEntry es) Map.empty"
    using staged_tree [OF laws enc _ _ empty(1) run] i1 tx(1,3) empty(2) by auto
  have f: "frame (committed i2) (committed i3)" by (rule load_expected_frame [OF laws assms(11)])
  obtain ty ty' where ty: "view ty = committed i3" "diff_index env bo json (t_config t) (ty, acc) = (None, ty', acc')" "committed i4 = view ty'"
    using db_Update_laws [OF laws assms(12)] by blast
  have "frame (committed i3) (committed i4)"
    using keeps_diff_index [OF laws, unfolded keeps_def, rule_format, OF ty(2)] ty(1,3) by simp
  with f have "frame (committed i2) (committed i4)" by (rule frame_trans)
  with m have i4: "committed i4 workActual = Some m" by (simp add: frame_def)
  have "accounts ?l r0 (snd (snd (for_each ?cb es (tx, acc0))))"
    by (rule for_each_invariant [where P = "\<lambda>s. accounts ?l r0 (snd s)"]) (simp_all add: acc0 accounts_callback)
  then have "accounts ?l r0 acc" by (simp add: run)
  then have "accounts ?l r0 acc'" using accounts_diff [of "t_config t" r0 "(ty, acc)" env bo json] ty(2) by simp
  with i4 m show ?thesis by blast
qed

text \<open>A run either fails before its last phase, or its index holds the scanned tree and it finishes.\<close>

lemma bolt_run_cases:
  fixes t :: "('d BoltStore, 'c, 'b) Tracker"
  assumes "bolt_laws bo committed view" and "bolt_ready json committed t"
    and "adds_not_vanish (t_backendOps t)" and "index_errors_ok bo json"
    and "Scan (tracker_scanner (t_config t)) (env_fs env (t_root t)) (env_ctx env (UseScan (t_root t))) (env_fuel env)
      (t_root t) log_entry [] = Some (None, es)"
    and "\<forall>e \<in> set es. encodable json (stateFromEntry e)"
    and "Reconcile (Some (reconcileBoltLocked bo json ix env)) env t = Some ((report, err), t')"
  shows "err \<noteq> None \<and> t_snapshot t' = t_snapshot t \<and> t_generation t' = t_generation t \<or>
    (\<exists>i m (acc :: 'b bolt_acc) w. accounts (cf_ReportEventLimit (t_config t))
         (zero_report\<lparr>rr_StartedAt := env_started env, rr_Generation := t_generation t + 1\<rparr>) acc \<and>
       committed i workActual = Some m \<and> bucket_ok json m \<and> bucket_lookup json m = fold put_map (map stateFromEntry es) Map.empty \<and>
       finish_bolt env bo json i (bolt_healthy (t_config t) (ba_report acc)) w = ((report, err), t') \<and>
       t_snapshot w = t_snapshot t \<and> t_generation w = t_generation t)"
proof -
  let ?u = "setState StateReconciling t"
  let ?rep = "zero_report\<lparr>rr_StartedAt := env_started env, rr_Generation := t_generation t + 1\<rparr>"
  let ?acc = "\<lparr>ba_report = ?rep, ba_staged = [], ba_observed = [(t_root ?u, ())], ba_tree = t_watchTree ?u, ba_backend = t_backend ?u\<rparr>"
  have ok: "bolt_ok json committed (t_snapshot ?u)" using assms(2) by (auto simp: bolt_ready_def)
  have u: "t_root ?u = t_root t" "t_config ?u = t_config t" "t_backendOps ?u = t_backendOps t" by (simp_all add: setState_def)
  have accounts: "accounts (cf_ReportEventLimit (t_config ?u)) ?rep ?acc"
    unfolding accounts_def by (rule exI [of _ 0], rule exI [of _ 0]) (simp add: zero_report_def)
  from reconcileBoltLocked_cases [OF assms(7) [unfolded Reconcile_bolt_start [OF assms(2)]]] show ?thesis
  proof (elim disjE exE conjE)
    assume "err \<noteq> None" "t_snapshot t' = t_snapshot ?u" "t_generation t' = t_generation ?u"
    then show ?thesis by simp
  next
    fix i0 i1 i2 i3 i4 acc acc' w
    assume steps: "open_index bo ix = Inr i0" "stage_previous env bo json ?u i0 = (None, i1)"
       "db_Update_scan bo (stage_actual env bo json ?u) i1 ?acc = Some (None, i2, acc)"
       "load_expected_bolt env bo json w i2 = (None, i3)" "db_Update bo (diff_index env bo json (t_config ?u)) i3 acc = (None, i4, acc')"
      and fin: "finish_bolt env bo json i4 (bolt_healthy (t_config ?u) (ba_report acc')) w = ((report, err), t')"
      and w: "t_snapshot w = t_snapshot ?u" "t_generation w = t_generation ?u"
    from index_holds_tree [OF assms(1) ok _ assms(4) _ bspec [OF assms(6)] steps(1,2) accounts steps(3-5)] assms(3,5) u
    obtain m where "accounts (cf_ReportEventLimit (t_config t)) ?rep acc'" "committed i4 workActual = Some m" "bucket_ok json m"
      "bucket_lookup json m = fold put_map (map stateFromEntry es) Map.empty" by auto
    moreover have "t_snapshot w = t_snapshot t" "t_generation w = t_generation t" using w by simp_all
    ultimately show ?thesis using fin [unfolded u(2)] by blast
  qed
qed


definition ex_scan :: "FS \<Rightarrow> Entry list" where
  "ex_scan fs = (case Scan (tracker_scanner (t_config ex_run_tracker)) fs background 3 ''/r'' log_entry [] of
     Some (None, es) \<Rightarrow> es | _ \<Rightarrow> [])"

definition ex_bolt_json :: JSON where
  "ex_bolt_json = table_json ([ex_file ''/r/old'', ex_file ''/r/a''] @ map stateFromEntry (ex_scan ex_fs))"

definition ex_bolt_snapshot :: "mem_db BoltStore" where
  "ex_bolt_snapshot = \<lparr>bs_db = [(snapshotBucket, 0, [(''/r/old'', []), (''/r/a'', ''x'')])], bs_closed = False\<rparr>"

definition ex_bolt_config :: "(mem_db BoltStore, unit) Config" where
  "ex_bolt_config = \<lparr>cf_Root = ''/r'', cf_Recursive = True, cf_Expected = None, cf_ExpectedScope = ExpectedRegularFiles,
     cf_ChangeSink = None, cf_Integrity = None, cf_Store = None, cf_Filter = None, cf_SymlinkPolicy = ReportSymlinks,
     cf_HardlinkPolicy = AllowHardlinks, cf_DebounceWindow = 0, cf_ReconcileInterval = 0, cf_EventBuffer = 2,
     cf_ReportEventLimit = 10, cf_ChangeBatchSize = 1\<rparr>"

definition ex_bolt_tracker :: "(mem_db BoltStore, unit, unit) Tracker" where
  "ex_bolt_tracker = \<lparr>t_config = ex_bolt_config, t_root = ''/r'', t_store = bolt_store mem_bolt ex_bolt_json, t_snapshot = ex_bolt_snapshot, t_sinkState = (), t_state = StateDirty,
     t_started = False, t_closed = False, t_backendHealthy = False, t_sessionID = ''s'', t_backendOps = ex_backend_ops,
     t_backend = (), t_watchTree = None, t_events = make_chan 2, t_errors = make_chan 16, t_channelsClosed = False,
     t_stats = zero_stats, t_generation = 6, t_pending = None, t_dirtyPending = False\<rparr>"

definition ex_index :: "mem_db IndexEnv" where
  "ex_index = \<lparr>ix_CreateTemp = Inr ''/tmp/i'', ix_CloseTemp = None, ix_Open = (\<lambda>_. Inr [])\<rparr>"

definition bolt_summary ::
  "(mem_db BoltStore, unit, unit) run_result option \<Rightarrow> (GoError option \<times> (string \<times> string) list \<times> (EventKind \<times> string) list \<times> 64 word) option" where
  "bolt_summary = map_option (\<lambda>((r, e), t). (e, mem_keys (bs_db (t_snapshot t)) snapshotBucket,
     map (\<lambda>ev. (ev_Kind ev, ev_Path ev)) (rr_Events r), t_generation t))"

lemma ex_bolt_run:
  "bolt_summary (Reconcile (Some (reconcileBoltLocked mem_bolt ex_bolt_json ex_index (ex_env ex_fs))) (ex_env ex_fs) ex_bolt_tracker) =
     Some (None, [(''/r/a'', ''xx''), (''/r/d'', ''xxxx''), (''/r/d/b'', ''xxxxx''), (''/r/l'', ''xxx'')],
       [(EventModified, ''/r/a''), (EventCreated, ''/r/d''), (EventCreated, ''/r/d/b''), (EventCreated, ''/r/l''),
        (EventDeleted, ''/r/old'')], 7)"
  by code_simp

lemma ex_bolt_ready: "bolt_ready ex_bolt_json mem_view ex_bolt_tracker"
proof -
  have d: "decodeFileState (js_toState ex_bolt_json) [] = Inr (ex_file ''/r/old'')"
    "decodeFileState (js_toState ex_bolt_json) ''x'' = Inr (ex_file ''/r/a'')" "plain ''/r''" by code_simp+
  have v: "mem_view (bs_db ex_bolt_snapshot) snapshotBucket = Some (map_of [(''/r/old'', []), (''/r/a'', ''x'')])"
    by (simp add: mem_view_def ex_bolt_snapshot_def)
  have "st_Path (ex_file p) = p" for p by (simp add: ex_file_def)
  with d have "bucket_ok ex_bolt_json (map_of [(''/r/old'', []), (''/r/a'', ''x'')])" by (auto simp: bucket_ok_def split: if_splits)
  with v d(3) show ?thesis by (simp add: bolt_ready_def bolt_ok_def ex_bolt_tracker_def ex_bolt_config_def)
qed

lemma ex_bolt_errors: "index_errors_ok mem_bolt ex_bolt_json"
proof -
  have "\<not> errors_Is ErrBucketNotFound ErrNotExist" "\<not> errors_Is (ErrMsg ''key required'') ErrNotExist"
    "\<not> errors_Is (ErrMsg ''json'') ErrNotExist" by code_simp+
  then show ?thesis
    by (auto simp: index_errors_ok_def mem_bolt_def mem_write_def ex_bolt_json_def table_json_def ex_json_def
        split: option.splits prod.splits if_splits)
qed


end
