(* ===== verification/Fsnotify_Backend.thy ===== *)
theory Fsnotify_Backend
  imports Tracker_State Backend_Events
begin

text \<open>
  \<open>internal/backend/fsnotify/backend.go\<close>: the native backend. The watcher of the fsnotify library
  is a parameter, a record of its operations over a state of its own. The goroutine \<open>pump\<close> and the
  calls of the client are the steps of a transition system: each handler of \<open>pump\<close> is one step, \<open>Close\<close>
  has two, before and after it waits for \<open>pump\<close>. The theory shows that the output channels are never
  used after they are closed and stay within their buffers, and that a native event is never lost
  without a trace.
\<close>

section \<open>Data and operations\<close>

record 'w NativeWatcher =
  nw_New :: "nat \<Rightarrow> GoError + 'w"
  nw_Add :: "string \<Rightarrow> 'w \<Rightarrow> GoError option \<times> 'w"
  nw_Remove :: "string \<Rightarrow> 'w \<Rightarrow> GoError option \<times> 'w"
  nw_Close :: "'w \<Rightarrow> GoError option \<times> 'w"

record 'w Backend =
  fb_buffer :: nat
  fb_events :: "RawEvent Chan"
  fb_errors :: "GoError Chan"
  fb_watcher :: "'w option"
  fb_started :: bool
  fb_closed :: bool
  fb_nativeClosed :: bool
  fb_outputClosed :: bool

definition DefaultBuffer :: nat where
  "DefaultBuffer = 1024"

definition New_backend :: "nat \<Rightarrow> 'w Backend" where
  "New_backend buffer0 =
     (let buffer = (if buffer0 = 0 then DefaultBuffer else buffer0) in
      \<lparr>fb_buffer = buffer, fb_events = make_chan (int buffer), fb_errors = make_chan 16, fb_watcher = None,
       fb_started = False, fb_closed = False, fb_nativeClosed = False, fb_outputClosed = False\<rparr>)"

definition Start_backend :: "'w NativeWatcher \<Rightarrow> GoError option \<Rightarrow> string \<Rightarrow> 'w Backend \<Rightarrow> GoError option \<times> 'w Backend" where
  "Start_backend nw ctxErr root b =
     (case ctxErr of
        Some err \<Rightarrow> (Some err, b)
      | None \<Rightarrow>
          if fb_closed b then (Some (ErrMsg ''fsnotify backend: closed''), b)
          else if fb_started b then (Some (ErrMsg ''fsnotify backend: already started''), b)
          else
            (case nw_New nw (fb_buffer b) of
               Inl err \<Rightarrow> (Some (ErrWrap ''create fsnotify watcher: '' err []), b)
             | Inr watcher \<Rightarrow>
                 (case nw_Add nw (Clean root) watcher of
                    (Some err, _) \<Rightarrow> (Some (ErrWrap (''watch '' @ quote (Clean root) @ '': '') err []), b)
                  | (None, watcher) \<Rightarrow> (None, b\<lparr>fb_watcher := Some watcher, fb_started := True\<rparr>))))"

definition Add_watch :: "'w NativeWatcher \<Rightarrow> string \<Rightarrow> 'w Backend \<Rightarrow> GoError option \<times> 'w Backend" where
  "Add_watch nw path b =
     (case (if fb_closed b then None else fb_watcher b) of
        None \<Rightarrow> (Some (ErrMsg ''fsnotify backend: not running''), b)
      | Some watcher \<Rightarrow>
          (case nw_Add nw (Clean path) watcher of
             (err, watcher) \<Rightarrow>
               (map_option (\<lambda>e. ErrWrap (''watch '' @ quote path @ '': '') e []) err, b\<lparr>fb_watcher := Some watcher\<rparr>)))"

definition ErrNonExistentWatch :: GoError where
  "ErrNonExistentWatch = ErrMsg ''fsnotify: can't remove non-existent watch''"

definition EINVAL :: GoError where
  "EINVAL = ErrMsg ''invalid argument''"

text \<open>On the errors of the model \<open>os.IsNotExist\<close> holds only where \<open>errors.Is\<close> with \<open>fs.ErrNotExist\<close> does. The platform is Linux.\<close>

definition isRemovedWatchError :: "GoError \<Rightarrow> bool" where
  "isRemovedWatchError err =
     (errors_Is err ErrNonExistentWatch \<or> errors_Is err ErrNotExist \<or> errors_Is err EINVAL)"

definition Remove_watch :: "'w NativeWatcher \<Rightarrow> string \<Rightarrow> 'w Backend \<Rightarrow> GoError option \<times> 'w Backend" where
  "Remove_watch nw path b =
     (case (if fb_closed b then None else fb_watcher b) of
        None \<Rightarrow> (None, b)
      | Some watcher \<Rightarrow>
          (case nw_Remove nw (Clean path) watcher of
             (None, watcher) \<Rightarrow> (None, b\<lparr>fb_watcher := Some watcher\<rparr>)
           | (Some err, watcher) \<Rightarrow>
               (if isRemovedWatchError err then None else Some (ErrWrap (''remove watch '' @ quote path @ '': '') err []),
                b\<lparr>fb_watcher := Some watcher\<rparr>)))"

definition closeNative :: "'w NativeWatcher \<Rightarrow> 'w Backend \<Rightarrow> GoError option \<times> 'w Backend" where
  "closeNative nw b =
     (if fb_nativeClosed b then (None, b)
      else
        (case fb_watcher b of
           None \<Rightarrow> (None, b\<lparr>fb_nativeClosed := True\<rparr>)
         | Some watcher \<Rightarrow>
             (case nw_Close nw watcher of
                (err, watcher) \<Rightarrow> (err, b\<lparr>fb_nativeClosed := True, fb_watcher := Some watcher\<rparr>))))"

definition closeOutputs :: "'w Backend \<Rightarrow> 'w Backend" where
  "closeOutputs b =
     (if fb_outputClosed b then b
      else b\<lparr>fb_events := close_chan (fb_events b), fb_errors := close_chan (fb_errors b), fb_outputClosed := True\<rparr>)"

definition fb_sendError :: "GoError \<Rightarrow> 'w Backend \<Rightarrow> 'w Backend" where
  "fb_sendError err b = b\<lparr>fb_errors := snd (try_send err (fb_errors b))\<rparr>"

text \<open>The operation of a library event is the set of flags that \<open>Has\<close> finds in it.\<close>

datatype FsOp = FsCreate | FsWrite | FsRemove | FsRename | FsChmod

definition mapOp :: "(FsOp \<Rightarrow> bool) \<Rightarrow> Op" where
  "mapOp has =
     (if has FsCreate then OpCreate else 0) OR (if has FsWrite then OpWrite else 0) OR
     (if has FsRemove then OpRemove else 0) OR (if has FsRename then OpRename else 0) OR
     (if has FsChmod then OpChmod else 0)"

definition pump_event :: "string \<Rightarrow> (FsOp \<Rightarrow> bool) \<Rightarrow> Time \<Rightarrow> 'w Backend \<Rightarrow> 'w Backend" where
  "pump_event name has now b =
     (let raw = \<lparr>raw_Path = Clean name, raw_Op = mapOp has, raw_Time = now\<rparr> in
      if raw_Op raw = 0 then b
      else
        (case try_send raw (fb_events b) of
           (sent, ch) \<Rightarrow> if sent then b\<lparr>fb_events := ch\<rparr> else fb_sendError ErrOverflow b))"

definition ErrEventOverflow :: GoError where
  "ErrEventOverflow = ErrMsg ''fsnotify: queue or buffer overflow''"

definition pump_error :: "GoError \<Rightarrow> 'w Backend \<Rightarrow> 'w Backend" where
  "pump_error err b =
     fb_sendError (if errors_Is err ErrEventOverflow then ErrWrap [] ErrOverflow ('': '' @ error_text err) else err) b"

definition pump_return :: "'w NativeWatcher \<Rightarrow> 'w Backend \<Rightarrow> 'w Backend" where
  "pump_return nw b = closeOutputs (snd (closeNative nw b))"

definition Close_begin :: "'w NativeWatcher \<Rightarrow> 'w Backend \<Rightarrow> GoError option \<times> 'w Backend" where
  "Close_begin nw b0 =
     (let b = b0\<lparr>fb_closed := True\<rparr> in if fb_started b then closeNative nw b else (None, b))"

definition Close_end :: "'w Backend \<Rightarrow> 'w Backend" where
  "Close_end b = closeOutputs b"

definition fsnotify_backend :: "'w NativeWatcher \<Rightarrow> 'w Backend WatchBackend" where
  "fsnotify_backend nw = \<lparr>wb_Add = Add_watch nw, wb_Remove = Remove_watch nw\<rparr>"

section \<open>Steps\<close>

text \<open>The flag says whether \<open>pump\<close> runs. \<open>Close\<close> returns once it does not.\<close>

inductive be_step :: "'w NativeWatcher \<Rightarrow> bool \<times> 'w Backend \<Rightarrow> bool \<times> 'w Backend \<Rightarrow> bool" for nw where
  start_ok: "Start_backend nw ctxErr root b = (None, b') \<Longrightarrow> be_step nw (pump, b) (True, b')"
| start_failed: "Start_backend nw ctxErr root b = (Some err, b') \<Longrightarrow> be_step nw (pump, b) (pump, b')"
| event: "be_step nw (True, b) (True, pump_event name has now b)"
| error: "be_step nw (True, b) (True, pump_error err b)"
| ret: "be_step nw (True, b) (False, pump_return nw b)"
| add: "be_step nw (pump, b) (pump, snd (Add_watch nw path b))"
| remove: "be_step nw (pump, b) (pump, snd (Remove_watch nw path b))"
| recv_event: "ch_queue (fb_events b) = raw # q \<Longrightarrow> be_step nw (pump, b) (pump, b\<lparr>fb_events := (fb_events b)\<lparr>ch_queue := q\<rparr>\<rparr>)"
| recv_error: "ch_queue (fb_errors b) = err # q \<Longrightarrow> be_step nw (pump, b) (pump, b\<lparr>fb_errors := (fb_errors b)\<lparr>ch_queue := q\<rparr>\<rparr>)"
| close_begin: "be_step nw (pump, b) (pump, snd (Close_begin nw b))"
| close_end: "fb_closed b \<Longrightarrow> (fb_started b \<Longrightarrow> \<not> pump) \<Longrightarrow> be_step nw (pump, b) (pump, Close_end b)"

inductive be_reach :: "'w NativeWatcher \<Rightarrow> nat \<Rightarrow> bool \<times> 'w Backend \<Rightarrow> bool" for nw buffer where
  init: "be_reach nw buffer (False, New_backend buffer)"
| step: "be_reach nw buffer s \<Longrightarrow> be_step nw s s' \<Longrightarrow> be_reach nw buffer s'"

section \<open>Invariant\<close>

definition chan_ok :: "bool \<Rightarrow> int \<Rightarrow> 'a Chan \<Rightarrow> bool" where
  "chan_ok closed cap ch = (ch_closed ch = closed \<and> ch_cap ch = cap \<and> \<not> ch_panicked ch \<and> int (length (ch_queue ch)) \<le> cap)"

definition be_inv :: "nat \<Rightarrow> bool \<times> 'w Backend \<Rightarrow> bool" where
  "be_inv buffer s = (case s of (pump, b) \<Rightarrow>
     chan_ok (fb_outputClosed b) (int (if buffer = 0 then DefaultBuffer else buffer)) (fb_events b) \<and>
     chan_ok (fb_outputClosed b) 16 (fb_errors b) \<and>
     (pump \<longrightarrow> fb_started b \<and> \<not> fb_outputClosed b) \<and> (fb_outputClosed b \<longrightarrow> fb_closed b \<or> fb_started b) \<and>
     (fb_started b \<longrightarrow> fb_watcher b \<noteq> None))"

lemma chan_ok_try_send: "chan_ok False cap ch \<Longrightarrow> chan_ok False cap (snd (try_send v ch))"
  by (auto simp: chan_ok_def try_send_def)

lemma be_inv_New: "be_inv buffer (False, New_backend buffer)"
  by (simp add: be_inv_def New_backend_def Let_def chan_ok_def make_chan_def)

lemma be_inv_sendError: "be_inv buffer (True, b) \<Longrightarrow> be_inv buffer (True, fb_sendError err b)"
  by (auto simp: be_inv_def fb_sendError_def chan_ok_try_send)

lemma be_inv_closeOutputs: "be_inv buffer (pump, b) \<Longrightarrow> fb_closed b \<or> fb_started b \<Longrightarrow> be_inv buffer (False, closeOutputs b)"
  by (auto simp: be_inv_def closeOutputs_def chan_ok_def close_chan_def)

lemma be_inv_closeNative: "be_inv buffer (pump, b) \<Longrightarrow> be_inv buffer (pump, snd (closeNative nw b))"
  by (auto simp: be_inv_def closeNative_def split: option.split prod.split)

lemma closeNative_keeps [simp]:
  "fb_started (snd (closeNative nw b)) = fb_started b" "fb_closed (snd (closeNative nw b)) = fb_closed b"
  by (auto simp: closeNative_def split: option.split prod.split)

lemma be_inv_closed: "be_inv buffer (pump, b) \<Longrightarrow> be_inv buffer (pump, b\<lparr>fb_closed := True\<rparr>)"
  by (auto simp: be_inv_def)

lemma be_inv_start:
  assumes "be_inv buffer (pump, b)" and "Start_backend nw ctxErr root b = (None, b')"
  shows "be_inv buffer (True, b')"
  using assms by (auto simp: be_inv_def Start_backend_def split: option.splits if_splits sum.splits prod.splits)

lemma be_inv_step:
  assumes "be_step nw s s'" and "be_inv buffer s"
  shows "be_inv buffer s'"
  using assms
proof (induction rule: be_step.induct)
  case (start_ok ctxErr root b b' pump)
  then show ?case by (blast intro: be_inv_start)
next
  case (start_failed ctxErr root b err b' pump)
  then have "b' = b" by (auto simp: Start_backend_def split: option.splits if_splits sum.splits prod.splits)
  with start_failed show ?case by simp
next
  case (event b name has now)
  obtain sent ch where t: "try_send \<lparr>raw_Path = Clean name, raw_Op = mapOp has, raw_Time = now\<rparr> (fb_events b) = (sent, ch)" by fastforce
  then have "chan_ok False (int (if buffer = 0 then DefaultBuffer else buffer)) ch"
    using event chan_ok_try_send [of _ "fb_events b" "\<lparr>raw_Path = Clean name, raw_Op = mapOp has, raw_Time = now\<rparr>"]
    by (auto simp: be_inv_def)
  with event have "be_inv buffer (True, b\<lparr>fb_events := ch\<rparr>)" by (auto simp: be_inv_def)
  with event t be_inv_sendError [OF event] show ?case by (simp add: pump_event_def Let_def)
next
  case (error b err)
  then show ?case by (simp add: pump_error_def be_inv_sendError)
next
  case (ret b)
  then have "fb_started b" by (simp add: be_inv_def)
  then show ?case unfolding pump_return_def by (intro be_inv_closeOutputs [OF be_inv_closeNative [OF ret]]) simp
next
  case (close_begin pump b)
  then show ?case by (simp add: Close_begin_def Let_def be_inv_closeNative be_inv_closed)
next
  case (close_end b pump)
  then have "\<not> pump" by (auto simp: be_inv_def)
  with close_end be_inv_closeOutputs [of buffer pump b] show ?case by (simp add: Close_end_def)
next
  case (add pump b path)
  then show ?case by (auto simp: be_inv_def Add_watch_def split: option.split prod.split if_splits)
next
  case (remove pump b path)
  then show ?case by (auto simp: be_inv_def Remove_watch_def split: option.split prod.split if_splits)
qed (auto simp: be_inv_def chan_ok_def)

lemma be_reach_inv: "be_reach nw buffer s \<Longrightarrow> be_inv buffer s"
  by (induction rule: be_reach.induct) (simp_all add: be_inv_New be_inv_step)

section \<open>Properties\<close>

text \<open>C40: the native backend is safe and never loses an event silently. In every state that its
  goroutine and its clients can reach, in whatever interleaving of starting, adding and removing
  watches, receiving and closing, no value was sent on a closed channel and both channels are within
  their buffers. An event that the goroutine takes from the library either carries no known operation,
  or is the last one in the event channel with the operation bits of the library event, or the event
  channel is full and an error is waiting in the error channel, an overflow unless that channel was
  already full.\<close>

theorem backend_never_silent:
  assumes "be_reach nw buffer (pump, b)"
  shows "\<not> ch_panicked (fb_events b) \<and> \<not> ch_panicked (fb_errors b) \<and>
    int (length (ch_queue (fb_events b))) \<le> ch_cap (fb_events b) \<and> length (ch_queue (fb_errors b)) \<le> 16 \<and>
    (pump \<longrightarrow>
      (let b' = pump_event name has now b in
       (mapOp has = 0 \<longrightarrow> b' = b) \<and>
       (mapOp has \<noteq> 0 \<longrightarrow>
         ch_queue (fb_events b') = ch_queue (fb_events b) @ [\<lparr>raw_Path = Clean name, raw_Op = mapOp has, raw_Time = now\<rparr>] \<or>
         int (length (ch_queue (fb_events b))) = ch_cap (fb_events b) \<and>
         (ch_queue (fb_errors b') = ch_queue (fb_errors b) @ [ErrOverflow] \<or> length (ch_queue (fb_errors b')) = 16))))"
proof -
  have inv: "be_inv buffer (pump, b)" by (rule be_reach_inv [OF assms])
  have ev: "let b' = pump_event name has now b in
       (mapOp has = 0 \<longrightarrow> b' = b) \<and>
       (mapOp has \<noteq> 0 \<longrightarrow>
         ch_queue (fb_events b') = ch_queue (fb_events b) @ [\<lparr>raw_Path = Clean name, raw_Op = mapOp has, raw_Time = now\<rparr>] \<or>
         int (length (ch_queue (fb_events b))) = ch_cap (fb_events b) \<and>
         (ch_queue (fb_errors b') = ch_queue (fb_errors b) @ [ErrOverflow] \<or> length (ch_queue (fb_errors b')) = 16))" if pump
    using inv that by (auto simp: be_inv_def chan_ok_def pump_event_def fb_sendError_def try_send_def Let_def)
  from inv ev show ?thesis by (auto simp: be_inv_def chan_ok_def)
qed

definition ex_watcher :: "string list NativeWatcher" where
  "ex_watcher = \<lparr>nw_New = (\<lambda>_. Inr []), nw_Add = (\<lambda>p w. (None, w @ [p])), nw_Remove = (\<lambda>p w. (None, removeAll p w)),
     nw_Close = (\<lambda>w. (None, []))\<rparr>"

definition ex_full_backend :: "string list Backend" where
  "ex_full_backend = pump_event ''/r/a'' (\<lambda>op. op = FsWrite) 1 (snd (Start_backend ex_watcher None ''/r'' (New_backend 1)))"

theorem backend_never_silent_witness:
  "be_reach ex_watcher 1 (True, ex_full_backend) \<and>
   ch_queue (fb_errors (pump_event ''/r/b'' (\<lambda>op. op = FsCreate) 2 ex_full_backend)) = [ErrOverflow]"
proof -
  have "be_step ex_watcher (False, New_backend 1) (True, snd (Start_backend ex_watcher None ''/r'' (New_backend 1)))"
    by (rule be_step.start_ok [where ctxErr = None and root = "''/r''"])
      (simp add: Start_backend_def New_backend_def ex_watcher_def Let_def)
  from be_reach.step [OF be_reach.init this] have "be_reach ex_watcher 1 (True, ex_full_backend)"
    unfolding ex_full_backend_def by (rule be_reach.step) (rule be_step.event)
  note reach = this
  have "mapOp (\<lambda>op. op = FsCreate) \<noteq> 0" "ch_queue (fb_errors ex_full_backend) = []"
    "ch_queue (fb_events (pump_event ''/r/b'' (\<lambda>op. op = FsCreate) 2 ex_full_backend)) \<noteq>
       ch_queue (fb_events ex_full_backend) @ [\<lparr>raw_Path = Clean ''/r/b'', raw_Op = mapOp (\<lambda>op. op = FsCreate), raw_Time = 2\<rparr>]"
    "length (ch_queue (fb_errors (pump_event ''/r/b'' (\<lambda>op. op = FsCreate) 2 ex_full_backend))) \<noteq> 16" by code_simp+
  with backend_never_silent [OF reach, of "''/r/b''" "\<lambda>op. op = FsCreate" 2] reach show ?thesis by (simp add: Let_def)
qed

end
