(* ===== verification/Tracker_Frame.thy ===== *)
theory Tracker_Frame
  imports Integrity_Scrub Bolt_Reconcile Fsnotify_Backend
begin

text \<open>
  What a reconciliation or a scrub keeps of the tracker, whatever its environment, store, sink and
  outcome: the life-cycle flags, the error channel and the pending flag stay, the event channel is only
  sent to, a closed tracker keeps its state, and a tracker that has hints pending or has lost its
  backend is not declared synced. The goroutines of the tracker rest on these facts.
\<close>

definition unsettled :: "('s, 'c, 'b) Tracker \<Rightarrow> bool" where
  "unsettled t = (t_dirtyPending t \<or> t_started t \<and> \<not> t_backendHealthy t)"

definition run_frame :: "('s, 'c, 'b) Tracker \<Rightarrow> ('s, 'c, 'b) Tracker \<Rightarrow> bool" where
  "run_frame t t' =
     (t_config t' = t_config t \<and> t_root t' = t_root t \<and> t_closed t' = t_closed t \<and> t_started t' = t_started t \<and>
      t_backendHealthy t' = t_backendHealthy t \<and> t_channelsClosed t' = t_channelsClosed t \<and>
      t_dirtyPending t' = t_dirtyPending t \<and> t_errors t' = t_errors t \<and>
      (\<forall>cap. chan_ok False cap (t_events t) \<longrightarrow> chan_ok False cap (t_events t')) \<and>
      (t_closed t \<longrightarrow> t_state t' = t_state t) \<and>
      (unsettled t \<and> t_state t \<noteq> StateSynced \<longrightarrow> t_state t' \<noteq> StateSynced))"

lemma run_frame_refl [simp]: "run_frame t t"
  by (simp add: run_frame_def)

lemma run_frame_trans: "run_frame t t1 \<Longrightarrow> run_frame t1 t2 \<Longrightarrow> run_frame t t2"
  by (auto simp: run_frame_def unsettled_def)

lemma run_frame_state [simp]:
  "st \<noteq> StateSynced \<Longrightarrow> run_frame t (setState st t)" "run_frame t (markDirty t)" "run_frame t (setConsistentState t)"
  by (auto simp: run_frame_def setState_def markDirty_def setConsistentState_def unsettled_def)

lemma run_frame_sendEvent: "run_frame t (sendEvent e t)"
  by (auto simp: run_frame_def sendEvent_def try_send_def chan_ok_def)

lemma run_frame_sendEvents: "run_frame t (fold sendEvent es t)"
  by (induction es arbitrary: t) (auto intro: run_frame_trans run_frame_sendEvent)

text \<open>Updates of the fields that the frame does not mention.\<close>

lemma run_frame_fields [simp]:
  "run_frame t (t'\<lparr>t_snapshot := s\<rparr>) = run_frame t t'" "run_frame t (t'\<lparr>t_pending := p\<rparr>) = run_frame t t'"
  "run_frame t (t'\<lparr>t_stats := st\<rparr>) = run_frame t t'" "run_frame t (t'\<lparr>t_generation := g\<rparr>) = run_frame t t'"
  "run_frame t (t'\<lparr>t_watchTree := w\<rparr>) = run_frame t t'" "run_frame t (t'\<lparr>t_backend := b\<rparr>) = run_frame t t'"
  "run_frame t (t'\<lparr>t_sinkState := k\<rparr>) = run_frame t t'"
  by (simp_all add: run_frame_def unsettled_def)

lemma run_frame_fields_before [simp]:
  "run_frame (t\<lparr>t_snapshot := s\<rparr>) t' = run_frame t t'" "run_frame (t\<lparr>t_pending := p\<rparr>) t' = run_frame t t'"
  "run_frame (t\<lparr>t_stats := st\<rparr>) t' = run_frame t t'" "run_frame (t\<lparr>t_generation := g\<rparr>) t' = run_frame t t'"
  "run_frame (t\<lparr>t_watchTree := w\<rparr>) t' = run_frame t t'" "run_frame (t\<lparr>t_backend := b\<rparr>) t' = run_frame t t'"
  "run_frame (t\<lparr>t_sinkState := k\<rparr>) t' = run_frame t t'"
  by (simp_all add: run_frame_def unsettled_def)

lemma reconcile_fail_frame: "reconcile_fail env r x u = (res, t') \<Longrightarrow> run_frame u t'"
  by (auto simp: reconcile_fail_def)

lemma deliverPending_frame: "deliverPending t = (err, t') \<Longrightarrow> run_frame t t'"
  by (auto simp: deliverPending_def split: option.splits prod.splits)

lemma published_frame:
  assumes "run_frame t u"
  shows "run_frame t (fold sendEvent es (setConsistentState u))"
  using assms run_frame_state(3) run_frame_sendEvents run_frame_trans by blast

lemma finish_reconcile_frame:
  assumes "finish_reconcile env previous actual expected report events t = (res, t')"
  shows "run_frame t t'"
proof -
  define t1 where "t1 = (if cf_ChangeSink (t_config t) \<noteq> None
      then t\<lparr>t_pending := Some \<lparr>pg_kind = pendingReconcile, pg_sessionID = t_sessionID t,
               pg_generation = rr_Generation report, pg_report = report, pg_events = cloneEvents events,
               pg_puts = put_list env actual, pg_deletes = delete_list env previous actual, pg_integrity = None\<rparr>\<rparr>
      else t)"
  obtain e t2 where d: "(if cf_ChangeSink (t_config t1) \<noteq> None then deliverPending t1 else (None, t1)) = (e, t2)" by fastforce
  have "run_frame t t1" by (simp add: t1_def)
  with d have f: "run_frame t t2" by (auto split: if_splits intro: run_frame_trans deliverPending_frame)
  obtain e2 s where c: "commit_snapshot (env_ctx env) wrapApply wrapDelete wrapPut (t_store t2) (put_list env actual)
      (delete_list env previous actual) (t_snapshot t2) = (e2, s)" by fastforce
  show ?thesis
    using assms d c f
    unfolding finish_reconcile_def put_list_def [symmetric] delete_list_def [symmetric] Let_def t1_def [symmetric]
    by (cases e; cases e2) (auto dest!: reconcile_fail_frame intro: run_frame_trans published_frame)
qed

lemma sync_watches_frame: "sync_watches scopes obs t = (e, u) \<Longrightarrow> run_frame t u"
  by (auto simp: sync_watches_def split: option.splits prod.splits)

lemma reconcile_generic_frame:
  assumes "reconcile_generic env scopes report t = Some (res, t')"
  shows "run_frame t t'"
  using assms
  by (auto simp: reconcile_generic_def Let_def split: option.splits prod.splits sum.splits
      dest!: finish_reconcile_frame reconcile_fail_frame sync_watches_frame intro: run_frame_trans)

lemma resumePending_frame: "resumePending ctx started elapsed p t = (res, t') \<Longrightarrow> run_frame t t'"
  by (auto simp: resumePending_def Let_def split: option.splits prod.splits dest!: deliverPending_frame
      intro: run_frame_trans [OF _ run_frame_state(3)])

lemma resumePendingIntegrity_frame: "resumePendingIntegrity t = (res, t') \<Longrightarrow> run_frame t t'"
  by (auto simp: resumePendingIntegrity_def split: option.splits prod.splits
      intro: run_frame_trans [OF _ run_frame_sendEvents])

text \<open>The fast path, when there is one, keeps the frame as well.\<close>

definition fast_frame :: "(ReconcileReport \<Rightarrow> ('s, 'c, 'b) Tracker \<Rightarrow> ('s, 'c, 'b) run_result option) option \<Rightarrow> bool" where
  "fast_frame bolt = (\<forall>fast report t res t'. bolt = Some fast \<longrightarrow> fast report t = Some (res, t') \<longrightarrow> run_frame t t')"

lemma fast_frame_None [simp]: "fast_frame None"
  by (simp add: fast_frame_def)

lemma finish_bolt_frame:
  assumes "finish_bolt env bo json index report t = (res, t')"
  shows "run_frame t t'"
proof -
  obtain e t1 where d: "deliver_index bo json (rr_Generation report) index t = (e, t1)" by fastforce
  then have f: "run_frame t t1" by (auto simp: deliver_index_def Let_def split: prod.splits)
  obtain e2 s where r: "replaceSnapshot bo (env_ctx env UseReplace) index workActual (t_snapshot t1) = (e2, s)" by fastforce
  show ?thesis
    using assms d r f
    by (cases e; cases e2) (auto simp: finish_bolt_def Let_def dest!: reconcile_fail_frame intro: run_frame_trans published_frame)
qed

lemma diff_bolt_frame: "diff_bolt env bo json index acc t = (res, t') \<Longrightarrow> run_frame t t'"
  by (auto simp: diff_bolt_def split: option.splits prod.splits dest!: reconcile_fail_frame finish_bolt_frame)

lemma fast_frame_bolt [simp]: "fast_frame (Some (reconcileBoltLocked bo json ix env))"
  by (auto simp: fast_frame_def reconcileBoltLocked_def Let_def split: sum.splits option.splits prod.splits
      dest!: reconcile_fail_frame sync_watches_frame diff_bolt_frame intro: run_frame_trans)

lemma reconcileScopes_frame:
  assumes "fast_frame bolt" and "reconcileScopes bolt env requested t = Some (res, t')"
  shows "run_frame t t'"
proof -
  let ?start = "\<lambda>t. let t = setState StateReconciling t;
              report = zero_report\<lparr>rr_StartedAt := env_started env, rr_Generation := t_generation t + 1\<rparr>;
              scopes = collapseScopes (t_root t) requested
          in if scopes = [] then
               Some ((report\<lparr>rr_Duration := env_elapsed env\<rparr>, None),
                     setConsistentState (t\<lparr>t_generation := rr_Generation report\<rparr>))
             else
               (case bolt of
                  Some fast \<Rightarrow>
                    if cf_ChangeSink (t_config t) = None \<and> length scopes = 1 \<and> scopes ! 0 = t_root t
                    then fast report t else reconcile_generic env scopes report t
                | None \<Rightarrow> reconcile_generic env scopes report t)"
  have start: "run_frame t t'" if "?start t = Some (res, t')" for t res t'
  proof -
    have "run_frame t (setState StateReconciling t)" by simp
    moreover have "run_frame (setState StateReconciling t) t'"
      using that assms(1)
      by (cases res) (auto simp: Let_def fast_frame_def split: if_splits option.splits dest!: reconcile_generic_frame
          intro!: run_frame_trans [OF _ run_frame_state(3)])
    ultimately show ?thesis by (rule run_frame_trans)
  qed
  show ?thesis
  proof (cases "t_closed t \<or> t_pending t = None")
    case True
    then show ?thesis using assms(2) start by (auto simp: reconcileScopes_def Let_def split: if_splits)
  next
    case False
    then obtain p where p: "t_pending t = Some p" "\<not> t_closed t" by auto
    obtain r x t1 where i: "resumePendingIntegrity t = ((r, x), t1)" by (metis surj_pair)
    note f1 = resumePendingIntegrity_frame [OF i]
    have eq: "(if pg_kind p = pendingIntegrity then (case x of Some err \<Rightarrow> Some ((zero_report, Some err), t1) | None \<Rightarrow> ?start t1)
        else Some (resumePending (env_ctx env) (env_started env) (env_elapsed env) p t)) = Some (res, t')"
      using assms(2) p i by (cases x; cases "pg_kind p = pendingIntegrity") (simp_all add: reconcileScopes_def)
    show ?thesis
    proof (cases "pg_kind p = pendingIntegrity")
      case False
      with eq show ?thesis by (intro resumePending_frame) simp
    next
      case True
      with eq f1 run_frame_trans [OF f1 start] show ?thesis by (cases x) simp_all
    qed
  qed
qed

lemma Reconcile_frame: "fast_frame bolt \<Longrightarrow> Reconcile bolt env t = Some (res, t') \<Longrightarrow> run_frame t t'"
  unfolding Reconcile_def by (rule reconcileScopes_frame)

lemma scrub_run_frame:
  assumes "scrub_run env check t = Some (res, t')"
  shows "run_frame t t'"
proof -
  have stage: "run_frame t u" if "deliver_stage env acc t = (e, u)" for acc e u
    using that by (auto simp: deliver_stage_def Let_def split: option.splits prod.splits)
  show ?thesis
    using assms
    by (auto simp: scrub_run_def Let_def split: if_splits sum.splits option.splits prod.splits dest!: stage
        intro: run_frame_trans [OF _ run_frame_sendEvents])
qed

lemma Scrub_frame: "Scrub env t = Some (res, t') \<Longrightarrow> run_frame t t'"
  by (auto simp: Scrub_def split: option.splits if_splits prod.splits
      dest!: scrub_run_frame resumePending_frame resumePendingIntegrity_frame intro: run_frame_trans)

section \<open>The interface to the life cycle\<close>

text \<open>A run or a scrub: the frame, and nothing at all on a closed tracker.\<close>

definition run_step :: "('s, 'k, 'b) Tracker \<Rightarrow> ('s, 'k, 'b) Tracker \<Rightarrow> bool" where
  "run_step t t' = (run_frame t t' \<and> (t_closed t \<longrightarrow> t' = t))"

lemma run_step_Scrub: "Scrub env t = Some (res, t') \<Longrightarrow> run_step t t'"
  by (auto simp: run_step_def dest: Scrub_frame) (auto simp: Scrub_def split: option.splits)

text \<open>
  The goroutines of the tracker see a reconciliation through this contract alone. It holds for the
  generic run and for the run on the bbolt store.
\<close>

locale reconciler =
  fixes bolt :: "Env \<Rightarrow> (ReconcileReport \<Rightarrow> ('s, 'k, 'b) Tracker \<Rightarrow> ('s, 'k, 'b) run_result option) option"
  assumes fast: "fast_frame (bolt env)"
begin

lemma scopes_step: "reconcileScopes (bolt env) env scopes t = Some (res, t') \<Longrightarrow> run_step t t'"
  by (auto simp: run_step_def dest: reconcileScopes_frame [OF fast]) (auto simp: reconcileScopes_def)

lemma full_step: "Reconcile (bolt env) env t = Some (res, t') \<Longrightarrow> run_step t t'"
  unfolding Reconcile_def by (rule scopes_step)

end

interpretation generic_run: reconciler "\<lambda>_. None"
  by unfold_locales simp

interpretation bolt_run: reconciler "\<lambda>env. Some (reconcileBoltLocked bo json ix env)" for bo json ix
  by unfold_locales simp

end
