(* ===== verification/Debounce.thy ===== *)
theory Debounce
  imports Fsr_Prelude
begin

text \<open>
  \<open>internal/debounce/debounce.go\<close>: the resettable quiet-period timer, over the timers of package
  \<open>time\<close>. The module declares Go 1.22, so a timer has the channel of that version: it holds a
  tick from the expiry until it is received, and \<open>Stop\<close> and \<open>Reset\<close> leave it there.
\<close>

section \<open>Timers of package time\<close>

record time_Timer =
  tt_active :: bool
  tt_tick :: bool

definition NewTimer :: time_Timer where
  "NewTimer = \<lparr>tt_active = True, tt_tick = False\<rparr>"

text \<open>\<open>Stop\<close> returns whether the timer was active.\<close>

definition timer_Stop :: "time_Timer \<Rightarrow> bool \<times> time_Timer" where
  "timer_Stop tm = (tt_active tm, tm\<lparr>tt_active := False\<rparr>)"

definition timer_Reset :: "time_Timer \<Rightarrow> time_Timer" where
  "timer_Reset tm = tm\<lparr>tt_active := True\<rparr>"

definition expire :: "time_Timer \<Rightarrow> time_Timer" where
  "expire tm = (if tt_active tm then \<lparr>tt_active = False, tt_tick = True\<rparr> else tm)"

section \<open>The quiet period\<close>

text \<open>\<open>dt_ch\<close> says whether \<open>ch\<close> is the channel of the timer; otherwise it is \<open>nil\<close>.\<close>

record Timer =
  dt_window :: int
  dt_timer :: "time_Timer option"
  dt_ch :: bool

definition New_Timer :: "int \<Rightarrow> Timer" where
  "New_Timer window = \<lparr>dt_window = window, dt_timer = None, dt_ch = False\<rparr>"

definition Trigger :: "Timer \<Rightarrow> Timer" where
  "Trigger t =
     (case dt_timer t of
        None \<Rightarrow> t\<lparr>dt_timer := Some NewTimer, dt_ch := True\<rparr>
      | Some tm \<Rightarrow>
          (case timer_Stop tm of
             (stopped, tm) \<Rightarrow>
               let tm = (if \<not> stopped then tm\<lparr>tt_tick := False\<rparr> else tm)
               in t\<lparr>dt_timer := Some (timer_Reset tm), dt_ch := True\<rparr>))"

text \<open>Whether a receive from \<open>C()\<close> is ready, and the receive.\<close>

definition tick_ready :: "Timer \<Rightarrow> bool" where
  "tick_ready t = (dt_ch t \<and> (case dt_timer t of None \<Rightarrow> False | Some tm \<Rightarrow> tt_tick tm))"

definition receive_tick :: "Timer \<Rightarrow> Timer" where
  "receive_tick t = t\<lparr>dt_timer := map_option (\<lambda>tm. tm\<lparr>tt_tick := False\<rparr>) (dt_timer t)\<rparr>"

definition Stop_Timer :: "Timer \<Rightarrow> Timer" where
  "Stop_Timer t = t\<lparr>dt_timer := map_option (\<lambda>tm. snd (timer_Stop tm)) (dt_timer t), dt_ch := False\<rparr>"

text \<open>The window elapses.\<close>

definition fire :: "Timer \<Rightarrow> Timer" where
  "fire t = t\<lparr>dt_timer := map_option expire (dt_timer t)\<rparr>"

definition timer_running :: "Timer \<Rightarrow> bool" where
  "timer_running t = (case dt_timer t of None \<Rightarrow> False | Some tm \<Rightarrow> tt_active tm)"

section \<open>Lemmas\<close>

text \<open>
  A quiet timer is armed when its client will be woken: the timer runs or its tick is waiting, and
  the client listens. It never does both.
\<close>

definition quiet_armed :: "Timer \<Rightarrow> bool" where
  "quiet_armed t = (dt_ch t \<and> (timer_running t \<or> tick_ready t))"

definition timer_ok :: "Timer \<Rightarrow> bool" where
  "timer_ok t = (case dt_timer t of None \<Rightarrow> \<not> dt_ch t | Some tm \<Rightarrow> \<not> (tt_active tm \<and> tt_tick tm))"

lemmas timer_defs = Trigger_def receive_tick_def Stop_Timer_def fire_def expire_def NewTimer_def timer_Stop_def
  timer_Reset_def tick_ready_def timer_running_def

lemma timer_ok_New: "timer_ok (New_Timer window)"
  by (simp add: timer_ok_def New_Timer_def)

lemma not_armed_New: "\<not> quiet_armed (New_Timer window)"
  by (simp add: quiet_armed_def New_Timer_def)

lemma timer_ok_steps:
  "timer_ok t \<Longrightarrow> timer_ok (receive_tick t)" "timer_ok t \<Longrightarrow> timer_ok (Stop_Timer t)" "timer_ok t \<Longrightarrow> timer_ok (fire t)"
  by (auto simp: timer_ok_def timer_defs split: option.splits)

text \<open>
  A trigger starts a whole new quiet period, whatever came before: no tick of an earlier period is
  left in the channel.
\<close>

lemma Trigger_arms: "quiet_armed (Trigger t)" "dt_ch (Trigger t)" "timer_running (Trigger t)"
  by (auto simp: quiet_armed_def timer_defs Let_def split: option.splits)

lemma Trigger_no_stale_tick: "timer_ok t \<Longrightarrow> \<not> tick_ready (Trigger t) \<and> timer_ok (Trigger t)"
  by (auto simp: timer_ok_def timer_defs Let_def split: option.splits)

lemma Stop_silences: "\<not> quiet_armed (Stop_Timer t) \<and> \<not> timer_running (Stop_Timer t)"
  by (auto simp: quiet_armed_def timer_defs split: option.splits)

lemma armed_fire: "quiet_armed t \<Longrightarrow> quiet_armed (fire t) \<and> tick_ready (fire t)"
  by (auto simp: quiet_armed_def timer_defs split: option.splits)

end
