(* ===== verification/Dirty_Set.thy ===== *)
theory Dirty_Set
  imports Scope_Set
begin

text \<open>
  \<open>internal/dirtyset\<close>: the prefix trie of dirty subtrees. \<open>Set\<close> keeps the root path, the
  trie and the number of dirty nodes; \<open>Add\<close> marks the node of a path (a path outside the root
  marks the root), \<open>Drain\<close> returns the marked paths in byte order and empties the trie. The
  trie refines the abstract set of scopes of \<open>Scope_Set\<close>.
\<close>

section \<open>Data and operations\<close>

datatype node = Node (dirty: bool) (children: "(string \<times> node) list")

record Set =
  set_root :: string
  set_tree :: node
  set_size :: int

definition New_Set :: "string \<Rightarrow> Set" where
  "New_Set root = \<lparr>set_root = Clean root, set_tree = Node False [], set_size = 0\<rparr>"

fun countDirty :: "node \<Rightarrow> int" where
  "countDirty (Node d cs) = (if d then 1 else 0) + (\<Sum>(name, child) \<leftarrow> cs. countDirty child)"

text \<open>
  The walk of \<open>Add\<close> from the root of the trie: whether the set changed, the trie after the
  call, and the number of dirty nodes that the new mark removed. Missing children are created
  on the way.
\<close>

fun add_parts :: "string list \<Rightarrow> node \<Rightarrow> bool \<times> node \<times> int" where
  "add_parts [] (Node d cs) =
     (if d then (False, Node d cs, 0)
      else (True, Node True [], countDirty (Node d cs)))"
| "add_parts (part # parts) (Node d cs) =
     (if d then (False, Node d cs, 0)
      else
        let child = (case map_of cs part of None \<Rightarrow> Node False [] | Some c \<Rightarrow> c) in
        (case add_parts parts child of
           (changed, child', removed) \<Rightarrow>
             (changed, Node d (AList.update part child' cs), removed)))"

definition relative_parts :: "string \<Rightarrow> string \<Rightarrow> string list" where
  "relative_parts root path =
     (let relative =
        (case Rel root path of
           None \<Rightarrow> ''.''
         | Some r \<Rightarrow> if r = ''..'' \<or> strings_HasPrefix r ''../'' then ''.'' else r)
      in if relative = ''.'' then [] else split_sep relative)"

definition Add :: "string \<Rightarrow> Set \<Rightarrow> bool \<times> Set" where
  "Add path0 s =
     (let path1 = Clean path0;
          path = (if within (set_root s) path1 then path1 else set_root s)
      in (case add_parts (relative_parts (set_root s) path) (set_tree s) of
            (changed, tree', removed) \<Rightarrow>
              (changed,
               s\<lparr>set_tree := tree',
                 set_size := (if changed then set_size s + (1 - removed) else set_size s)\<rparr>)))"

definition Len :: "Set \<Rightarrow> int" where
  "Len s = set_size s"

fun collect_dirty :: "node \<Rightarrow> string \<Rightarrow> string list" where
  "collect_dirty (Node d cs) path =
     (if d then [path]
      else concat (map (\<lambda>(name, child). collect_dirty child (Join path name)) cs))"

definition Drain :: "Set \<Rightarrow> string list \<times> Set" where
  "Drain s =
     (sort (collect_dirty (set_tree s) (set_root s)),
      s\<lparr>set_tree := Node False [], set_size := 0\<rparr>)"

section \<open>The trie as a set of scopes\<close>

lemma node_induct [case_names Node]:
  "(\<And>d cs. (\<And>k c. (k, c) \<in> set cs \<Longrightarrow> P c) \<Longrightarrow> P (Node d cs)) \<Longrightarrow> P n"
  by induction_schema (pat_completeness, lexicographic_order)

fun dirty_paths :: "node \<Rightarrow> string list set" where
  "dirty_paths (Node d cs) =
     (if d then {[]} else {}) \<union> (\<Union>(k, c) \<in> set cs. (#) k ` dirty_paths c)"

fun node_ok :: "node \<Rightarrow> bool" where
  "node_ok (Node d cs) =
     (gomap_ok cs \<and> (d \<longrightarrow> cs = []) \<and> (\<forall>(k, c) \<in> set cs. good_part k \<and> node_ok c))"

declare dirty_paths.simps [simp del]

lemma finite_dirty_paths [simp]: "finite (dirty_paths n)"
  by (induction n rule: node_induct) (auto simp: dirty_paths.simps)

lemma dirty_paths_Node_True [simp]: "dirty_paths (Node True []) = {[]}"
  by (simp add: dirty_paths.simps)

lemma dirty_paths_empty [simp]: "dirty_paths (Node False []) = {}"
  by (simp add: dirty_paths.simps)

lemma dirty_paths_Nil [simp]: "[] \<in> dirty_paths (Node d cs) \<longleftrightarrow> d"
  by (auto simp: dirty_paths.simps)

lemma dirty_paths_Cons:
  assumes "gomap_ok cs"
  shows "k # q \<in> dirty_paths (Node d cs) \<longleftrightarrow>
     (case map_of cs k of None \<Rightarrow> False | Some c \<Rightarrow> q \<in> dirty_paths c)"
proof -
  have "k # q \<in> dirty_paths (Node d cs) \<longleftrightarrow> (\<exists>c. (k, c) \<in> set cs \<and> q \<in> dirty_paths c)"
    by (auto simp: dirty_paths.simps)
  also have "\<dots> \<longleftrightarrow> (\<exists>c. map_of cs k = Some c \<and> q \<in> dirty_paths c)"
    using map_of_eq_Some_iff [OF assms] by blast
  finally show ?thesis by (auto split: option.split)
qed

lemma card_dirty_children:
  "gomap_ok cs \<Longrightarrow>
   card (\<Union>(k, c) \<in> set cs. (#) k ` dirty_paths c) = (\<Sum>(k, c) \<leftarrow> cs. card (dirty_paths c))"
proof (induction cs)
  case (Cons kc cs)
  obtain k c where kc: "kc = (k, c)" by fastforce
  have "((#) k ` dirty_paths c) \<inter> (\<Union>(k, c) \<in> set cs. (#) k ` dirty_paths c) = {}"
    using Cons.prems kc by force
  moreover have "card ((#) k ` dirty_paths c) = card (dirty_paths c)"
    by (simp add: card_image)
  ultimately show ?case
    using Cons kc by (simp add: card_Un_disjoint split_beta)
qed simp

lemma countDirty_card: "node_ok n \<Longrightarrow> countDirty n = int (card (dirty_paths n))"
proof (induction n rule: node_induct)
  case (Node d cs)
  have "(\<Sum>(k, c) \<leftarrow> cs. countDirty c) = (\<Sum>(k, c) \<leftarrow> cs. int (card (dirty_paths c)))"
    using Node by (intro arg_cong [where f = sum_list] map_cong) auto
  also have "\<dots> = int (\<Sum>(k, c) \<leftarrow> cs. card (dirty_paths c))"
    by (induction cs) auto
  also have "\<dots> = int (card (\<Union>(k, c) \<in> set cs. (#) k ` dirty_paths c))"
    using Node.prems by (simp add: card_dirty_children)
  finally show ?case
    using Node.prems by (auto simp: dirty_paths.simps)
qed

lemma node_ok_antichain: "node_ok n \<Longrightarrow> scope_antichain (dirty_paths n)"
proof (induction n rule: node_induct)
  case (Node d cs)
  then have ok: "gomap_ok cs" by simp
  show ?case
    unfolding scope_antichain_def
  proof (intro ballI impI)
    fix p q
    assume p: "p \<in> dirty_paths (Node d cs)" and q: "q \<in> dirty_paths (Node d cs)"
      and pq: "prefix p q"
    show "p = q"
    proof (cases p)
      case Nil
      with p Node.prems have "d" and "cs = []" by auto
      with q Nil show ?thesis by simp
    next
      case (Cons k p')
      with pq obtain q' where q': "q = k # q'" "prefix p' q'" by (cases q) auto
      from p q Cons q' ok obtain c where c: "map_of cs k = Some c"
        "p' \<in> dirty_paths c" "q' \<in> dirty_paths c"
        by (auto simp: dirty_paths_Cons split: option.splits)
      then have "(k, c) \<in> set cs" by (auto dest: map_of_SomeD)
      with Node have "scope_antichain (dirty_paths c)" by auto
      with c q' Cons show ?thesis by (auto simp: scope_antichain_def)
    qed
  qed
qed

lemma add_parts_spec:
  assumes "node_ok n" and "list_all good_part ws"
  shows "(case add_parts ws n of (changed, n', removed) \<Rightarrow>
      node_ok n' \<and> dirty_paths n' = add_scope ws (dirty_paths n) \<and>
      (changed \<longleftrightarrow> \<not> covers (dirty_paths n) ws) \<and>
      (changed \<longrightarrow> removed = int (card {q \<in> dirty_paths n. prefix ws q})))"
  using assms
proof (induction ws n rule: add_parts.induct)
  case (1 d cs)
  have all: "{q \<in> dirty_paths (Node d cs). prefix [] q} = dirty_paths (Node d cs)" by simp
  have "covers (dirty_paths (Node d cs)) [] \<longleftrightarrow> d" by (auto simp: covers_def)
  with 1 show ?case
    using countDirty_card [OF 1(1)] by (auto simp: add_scope_def)
next
  case (2 part parts d cs)
  show ?case
  proof (cases d)
    case True
    then have "covers (dirty_paths (Node d cs)) (part # parts)"
      by (auto simp: covers_def intro: bexI [of _ "[]"])
    with True 2 show ?thesis by (auto simp: add_scope_def)
  next
    case False
    let ?child = "case map_of cs part of None \<Rightarrow> Node False [] | Some c \<Rightarrow> c"
    obtain changed n' removed where r: "add_parts parts ?child = (changed, n', removed)"
      by (cases "add_parts parts ?child") auto
    have ok: "gomap_ok cs" using 2 by simp
    have ck: "node_ok ?child" using 2 by (auto split: option.splits dest!: map_of_SomeD)
    with 2 False r have IH: "node_ok n'" "dirty_paths n' = add_scope parts (dirty_paths ?child)"
      "changed \<longleftrightarrow> \<not> covers (dirty_paths ?child) parts"
      "changed \<longrightarrow> removed = int (card {q \<in> dirty_paths ?child. prefix parts q})"
      by auto
    have sub: "k # q \<in> dirty_paths (Node d (AList.update part n' cs)) \<longleftrightarrow>
        (if k = part then q \<in> dirty_paths n' else k # q \<in> dirty_paths (Node d cs))" for k q
      using ok by (simp add: dirty_paths_Cons gomap_simps)
    have mem: "part # q \<in> dirty_paths (Node d cs) \<longleftrightarrow> q \<in> dirty_paths ?child" for q
      using ok by (auto simp: dirty_paths_Cons split: option.splits)
    have cov: "covers (dirty_paths (Node d cs)) (part # parts) \<longleftrightarrow> covers (dirty_paths ?child) parts"
      using False mem by (auto simp: covers_def prefix_Cons)
    have "dirty_paths (Node d (AList.update part n' cs)) = add_scope (part # parts) (dirty_paths (Node d cs))"
    proof (rule set_eqI)
      fix q
      show "q \<in> dirty_paths (Node d (AList.update part n' cs)) \<longleftrightarrow>
          q \<in> add_scope (part # parts) (dirty_paths (Node d cs))"
        using False sub mem cov IH(2) by (cases q) (auto simp: add_scope_def)
    qed
    moreover have "node_ok (Node d (AList.update part n' cs))"
      using 2 False IH(1) by (auto dest!: in_set_updateD)
    moreover have "{q \<in> dirty_paths (Node d cs). prefix (part # parts) q} =
        (#) part ` {q \<in> dirty_paths ?child. prefix parts q}"
      using mem False by (auto simp: prefix_def image_iff)
    then have "card {q \<in> dirty_paths (Node d cs). prefix (part # parts) q} =
        card {q \<in> dirty_paths ?child. prefix parts q}"
      by (simp add: card_image)
    ultimately show ?thesis using False r cov IH by simp
  qed
qed


section \<open>Add and Drain\<close>

text \<open>The scope of a path: its parts below the root, the root itself for a path outside it.\<close>

definition scope_key :: "string \<Rightarrow> string \<Rightarrow> string list" where
  "scope_key root path =
     (if IsAbs path \<and> prefix (elems root) (elems (Clean path))
      then drop (length (elems root)) (elems (Clean path)) else [])"

definition set_ok :: "Set \<Rightarrow> bool" where
  "set_ok s = (canonical (set_root s) \<and> node_ok (set_tree s) \<and>
     set_size s = int (card (dirty_paths (set_tree s))))"

lemma join_sep_not_dot: "list_all good_part us \<Longrightarrow> us \<noteq> [] \<Longrightarrow> join_sep us \<noteq> ''.''"
  by (cases us rule: join_sep.cases) (auto simp: good_part_def Cons_eq_append_conv append_eq_Cons_conv)

lemma relative_parts_append:
  assumes "list_all good_part rs" and "list_all good_part us"
  shows "relative_parts (abs_path rs) (abs_path (rs @ us)) = us"
proof (cases "us = []")
  case True
  with assms show ?thesis by (simp add: relative_parts_def Rel_abs_path)
next
  case False
  with assms good_not_dotdot [of us] join_sep_not_dot [of us] show ?thesis
    by (simp add: relative_parts_def Rel_abs_path rel_strip_prefix strings_HasPrefix_def
        split_join list_all_good_no_sep numeral_3_eq_3)
qed

lemma relative_parts_key:
  assumes "canonical root"
  shows "relative_parts root (if within root (Clean path) then Clean path else root) =
     scope_key root path"
    and "list_all good_part (scope_key root path)"
proof -
  obtain rs where rs: "list_all good_part rs" "root = abs_path rs" "elems root = rs"
    using assms by (rule canonicalE)
  have "relative_parts root (if within root (Clean path) then Clean path else root) =
     scope_key root path \<and> list_all good_part (scope_key root path)"
  proof (cases "within root (Clean path)")
    case True
    then have abs: "IsAbs path" using assms within_relative by (metis IsAbs_Clean)
    then have "canonical (Clean path)" by (rule canonical_Clean)
    then obtain ps where ps: "list_all good_part ps" "Clean path = abs_path ps" "elems (Clean path) = ps"
      by (rule canonicalE)
    with True rs have "prefix rs ps" by (simp add: within_abs_path)
    then obtain us where us: "ps = rs @ us" by (auto simp: prefix_def)
    with True rs ps abs show ?thesis
      by (simp add: scope_key_def relative_parts_append)
  next
    case False
    have "IsAbs path \<Longrightarrow> \<not> prefix rs (elems (Clean path))"
      using False assms rs canonical_Clean [of path] by (auto simp: within_canonical)
    then have "scope_key root path = []" using rs by (auto simp: scope_key_def)
    with False rs show ?thesis
      using relative_parts_append [of rs "[]"] by simp
  qed
  then show "relative_parts root (if within root (Clean path) then Clean path else root) =
     scope_key root path" and "list_all good_part (scope_key root path)" by auto
qed

lemma dirty_paths_good: "node_ok n \<Longrightarrow> q \<in> dirty_paths n \<Longrightarrow> list_all good_part q"
proof (induction n arbitrary: q rule: node_induct)
  case (Node d cs)
  then show ?case by (cases q) (auto simp: dirty_paths.simps split: if_splits)
qed

lemma card_add_scope:
  assumes "finite S" and "\<not> covers S p"
  shows "int (card (add_scope p S)) = int (card S) + (1 - int (card {q \<in> S. prefix p q}))"
proof -
  have "p \<notin> S" using assms(2) by (auto simp: covers_def)
  moreover have "card {q \<in> S. \<not> prefix p q} = card S - card {q \<in> S. prefix p q}"
    using card_Diff_subset [of "{q \<in> S. prefix p q}" S] assms(1)
    by (simp add: set_diff_eq) (metis (no_types, lifting) Collect_cong)
  moreover have "card {q \<in> S. prefix p q} \<le> card S" by (simp add: assms(1) card_mono)
  ultimately show ?thesis using assms by (simp add: add_scope_def)
qed

lemma Add_spec:
  assumes "set_ok s"
  shows "set_ok (snd (Add path s))"
    and "set_root (snd (Add path s)) = set_root s"
    and "dirty_paths (set_tree (snd (Add path s))) =
      add_scope (scope_key (set_root s) path) (dirty_paths (set_tree s))"
    and "fst (Add path s) \<longleftrightarrow> \<not> covers (dirty_paths (set_tree s)) (scope_key (set_root s) path)"
proof -
  let ?k = "scope_key (set_root s) path"
  have root: "canonical (set_root s)" and ok: "node_ok (set_tree s)"
    and size: "set_size s = int (card (dirty_paths (set_tree s)))"
    using assms by (auto simp: set_ok_def)
  obtain changed n' removed where r: "add_parts ?k (set_tree s) = (changed, n', removed)"
    by (cases "add_parts ?k (set_tree s)") auto
  have A: "Add path s = (changed, s\<lparr>set_tree := n',
      set_size := (if changed then set_size s + (1 - removed) else set_size s)\<rparr>)"
    using r relative_parts_key(1) [OF root, of path] by (simp add: Add_def Let_def)
  from add_parts_spec [OF ok relative_parts_key(2) [OF root, of path]] r
  have n': "node_ok n'" "dirty_paths n' = add_scope ?k (dirty_paths (set_tree s))"
    "changed \<longleftrightarrow> \<not> covers (dirty_paths (set_tree s)) ?k"
    "changed \<longrightarrow> removed = int (card {q \<in> dirty_paths (set_tree s). prefix ?k q})"
    by auto
  have "set_ok (snd (Add path s))"
    using A n' root size card_add_scope [of "dirty_paths (set_tree s)" ?k]
    by (cases changed) (auto simp: set_ok_def add_scope_def)
  with A n' show "set_ok (snd (Add path s))"
    and "set_root (snd (Add path s)) = set_root s"
    and "dirty_paths (set_tree (snd (Add path s))) = add_scope ?k (dirty_paths (set_tree s))"
    and "fst (Add path s) \<longleftrightarrow> \<not> covers (dirty_paths (set_tree s)) ?k"
    by simp_all
qed

lemma set_ok_New: "IsAbs root \<Longrightarrow> set_ok (New_Set root)"
  by (simp add: set_ok_def New_Set_def canonical_Clean)

lemma collect_dirty_spec:
  assumes "node_ok n" and "list_all good_part rs"
  shows "set (collect_dirty n (abs_path rs)) = (\<lambda>q. abs_path (rs @ q)) ` dirty_paths n"
  using assms
proof (induction n arbitrary: rs rule: node_induct)
  case (Node d cs)
  show ?case
  proof (cases d)
    case True
    with Node.prems show ?thesis by simp
  next
    case False
    have "set (collect_dirty c (Join (abs_path rs) k)) =
        (\<lambda>q. abs_path (rs @ k # q)) ` dirty_paths c" if "(k, c) \<in> set cs" for k c
      using Node.IH [OF that, of "rs @ [k]"] Node.prems that
      by (auto simp: Join_abs_path)
    with False show ?thesis
      by (fastforce simp: dirty_paths.simps image_iff)
  qed
qed


lemma length_collect_dirty: "node_ok n \<Longrightarrow> int (length (collect_dirty n path)) = countDirty n"
proof (induction n arbitrary: path rule: node_induct)
  case (Node d cs)
  have sum: "int (length (concat (map (\<lambda>(k, c). collect_dirty c (Join path k)) xs))) =
      (\<Sum>(k, c) \<leftarrow> xs. countDirty c)" if "set xs \<subseteq> set cs" for xs
    using that
  proof (induction xs)
    case (Cons kc xs)
    obtain k c where kc: "kc = (k, c)" by fastforce
    with Cons.prems Node.prems have "(k, c) \<in> set cs" and "node_ok c" by auto
    then have "int (length (collect_dirty c (Join path k))) = countDirty c" by (rule Node.IH)
    with Cons kc show ?case by simp
  qed simp
  from Node.prems show ?case by (cases d) (auto simp: sum)
qed

lemma Drain_spec:
  assumes "set_ok s"
  shows "set (fst (Drain s)) = (\<lambda>q. abs_path (elems (set_root s) @ q)) ` dirty_paths (set_tree s)"
    and "sorted (fst (Drain s))" and "distinct (fst (Drain s))"
    and "int (length (fst (Drain s))) = Len s"
    and "dirty_paths (set_tree (snd (Drain s))) = {}" and "Len (snd (Drain s)) = 0"
    and "set_ok (snd (Drain s))"
proof -
  let ?l = "collect_dirty (set_tree s) (set_root s)"
  have ok: "canonical (set_root s)" "node_ok (set_tree s)"
    and size: "set_size s = int (card (dirty_paths (set_tree s)))"
    using assms by (auto simp: set_ok_def)
  obtain rs where rs: "list_all good_part rs" "set_root s = abs_path rs" "elems (set_root s) = rs"
    using ok(1) by (rule canonicalE)
  have l: "set ?l = (\<lambda>q. abs_path (rs @ q)) ` dirty_paths (set_tree s)"
    using collect_dirty_spec [OF ok(2) rs(1)] rs(2) by simp
  have len: "int (length ?l) = int (card (dirty_paths (set_tree s)))"
    using length_collect_dirty [OF ok(2)] countDirty_card [OF ok(2)] by simp
  have good: "list_all good_part q" if "q \<in> dirty_paths (set_tree s)" for q
    using that ok(2) dirty_paths_good by blast
  have "inj_on (\<lambda>q. abs_path (rs @ q)) (dirty_paths (set_tree s))"
    using rs(1) good by (intro inj_onI) (simp add: abs_path_inject)
  then have "card (set ?l) = length ?l" using l len by (simp add: card_image)
  then show "distinct (fst (Drain s))" by (simp add: Drain_def card_distinct)
  show "set (fst (Drain s)) = (\<lambda>q. abs_path (elems (set_root s) @ q)) ` dirty_paths (set_tree s)"
    and "sorted (fst (Drain s))" and "int (length (fst (Drain s))) = Len s"
    and "dirty_paths (set_tree (snd (Drain s))) = {}" and "Len (snd (Drain s)) = 0"
    and "set_ok (snd (Drain s))"
    using l len size rs ok(1) by (simp_all add: Drain_def Len_def set_ok_def)
qed

interpretation dirty: scope_collector "\<lambda>s. set_ok s \<and> set_root s = root" "\<lambda>_. True"
  "\<lambda>s. dirty_paths (set_tree s)" "scope_key root" "\<lambda>p s. snd (Add p s)" for root :: string
  by unfold_locales (auto simp: Add_spec)

abbreviation add_all :: "string list \<Rightarrow> Set \<Rightarrow> Set" where
  "add_all ps s \<equiv> fold (\<lambda>p s. snd (Add p s)) ps s"

lemma add_all_New:
  assumes "IsAbs root"
  shows "set_ok (add_all ps (New_Set root))"
    and "set_root (add_all ps (New_Set root)) = Clean root"
    and "dirty_paths (set_tree (add_all ps (New_Set root))) =
      minimal_scopes (scope_key (Clean root) ` set ps)"
proof -
  have init: "set_ok (New_Set root) \<and> set_root (New_Set root) = Clean root"
    "dirty_paths (set_tree (New_Set root)) = minimal_scopes {}"
    using assms set_ok_New [of root] by (simp_all add: New_Set_def minimal_scopes_def)
  have any: "list_all (\<lambda>_. True) ps" by (simp add: list_all_iff)
  from dirty.invar_fold [OF init(1) any] dirty.fold_minimal [OF init(1) any init(2)]
  show "set_ok (add_all ps (New_Set root))"
    and "set_root (add_all ps (New_Set root)) = Clean root"
    and "dirty_paths (set_tree (add_all ps (New_Set root))) =
      minimal_scopes (scope_key (Clean root) ` set ps)"
    by auto
qed

lemma scope_key_outside: "canonical root \<Longrightarrow> \<not> within root (Clean p) \<Longrightarrow> scope_key root p = []"
  using canonical_Clean [of p] by (auto simp: scope_key_def within_canonical)

text \<open>A path of the root whose scope is covered lies within one of the drained subtrees.\<close>

lemma Drain_covers:
  assumes "set_ok s" and "within (set_root s) (Clean p)"
    and "covers (dirty_paths (set_tree s)) (scope_key (set_root s) p)"
  shows "\<exists>d \<in> set (fst (Drain s)). within d (Clean p)"
proof -
  have root: "canonical (set_root s)" using assms(1) by (simp add: set_ok_def)
  obtain rs where rs: "list_all good_part rs" "set_root s = abs_path rs" "elems (set_root s) = rs"
    using root by (rule canonicalE)
  obtain q where q: "q \<in> dirty_paths (set_tree s)" "prefix q (scope_key (set_root s) p)"
    using assms(3) by (auto simp: covers_def)
  have goodq: "list_all good_part q"
    using q(2) relative_parts_key(2) [OF root, of p] by (auto simp: prefix_def)
  have cp: "canonical (Clean p)" using root assms(2) within_relative by (metis IsAbs_Clean canonical_Clean)
  with assms(2) root have "prefix rs (elems (Clean p))" using rs(3) by (simp add: within_canonical)
  then have "elems (Clean p) = rs @ scope_key (set_root s) p"
    using cp rs(3) by (auto simp: scope_key_def prefix_def canonical_IsAbs dest!: canonical_IsAbs)
  then have "within (abs_path (rs @ q)) (Clean p)"
    using q(2) cp rs(1) goodq by (simp add: within_canonical canonical_abs_path elems_abs_path)
  with q(1) Drain_spec(1) [OF assms(1)] rs(3) show ?thesis by auto
qed

section \<open>Properties\<close>

text \<open>C13: after any sequence of \<open>Add\<close> calls on a new set, \<open>Drain\<close> returns the minimal
  dirty subtrees, each once and in byte order, whatever the order of the calls and whatever the
  iteration order of the child maps; \<open>Len\<close> is their number, and the drained set is empty.\<close>

theorem drain_minimal:
  assumes "IsAbs root"
  shows "set (fst (Drain (add_all ps (New_Set root)))) =
       (\<lambda>q. abs_path (elems (Clean root) @ q)) ` minimal_scopes (scope_key (Clean root) ` set ps) \<and>
     sorted (fst (Drain (add_all ps (New_Set root)))) \<and>
     distinct (fst (Drain (add_all ps (New_Set root)))) \<and>
     Len (add_all ps (New_Set root)) = int (length (fst (Drain (add_all ps (New_Set root))))) \<and>
     Len (snd (Drain (add_all ps (New_Set root)))) = 0"
  using Drain_spec [OF add_all_New(1) [OF assms, of ps]] add_all_New(2,3) [OF assms, of ps] by simp

theorem drain_minimal_witness:
  "IsAbs ''/data'' \<and>
   fst (Drain (add_all [''/data/b/x'', ''/data/a'', ''/data/b''] (New_Set ''/data''))) =
     [''/data/a'', ''/data/b''] \<and>
   sorted (fst (Drain (add_all [''/data/b/x'', ''/data/a'', ''/data/b''] (New_Set ''/data''))))"
proof -
  have h: "IsAbs ''/data''" by code_simp
  have v: "fst (Drain (add_all [''/data/b/x'', ''/data/a'', ''/data/b''] (New_Set ''/data''))) =
     [''/data/a'', ''/data/b'']" by code_simp
  show ?thesis using h v drain_minimal [OF h, of "[''/data/b/x'', ''/data/a'', ''/data/b'']"] by blast
qed

text \<open>C19: no dirty notification is lost: every added path below the root lies within one of
  the drained scopes, and a path outside the root makes the whole root dirty.\<close>

theorem drain_covers_added:
  assumes "canonical root" and "p \<in> set ps"
  shows "if within root (Clean p)
     then \<exists>d \<in> set (fst (Drain (add_all ps (New_Set root)))). within d (Clean p)
     else fst (Drain (add_all ps (New_Set root))) = [root]"
proof -
  let ?D = "fst (Drain (add_all ps (New_Set root)))" and ?K = "scope_key root ` set ps"
  have root: "IsAbs root" "Clean root = root" using assms(1) by (auto simp: Clean_canonical)
  note all = add_all_New [OF root(1), of ps, unfolded root(2)]
  have key: "scope_key root p \<in> ?K" using assms(2) by blast
  show ?thesis
  proof (cases "within root (Clean p)")
    case True
    then show ?thesis using Drain_covers [OF all(1), of p] all(2,3) minimal_scopes_covers [OF key] by simp
  next
    case False
    then have "scope_key root p = []" by (rule scope_key_outside [OF assms(1)])
    with key have "minimal_scopes ?K = {[]}" by (auto simp: minimal_scopes_def)
    then have "set ?D = {root}"
      using Drain_spec(1) [OF all(1)] all(2,3) assms(1) by (auto elim: canonicalE simp: elems_abs_path)
    then have "?D = [root]" using distinct_set_singleton [OF _ Drain_spec(3) [OF all(1)]] by blast
    with False show ?thesis by simp
  qed
qed

theorem drain_covers_added_witness:
  "canonical ''/data'' \<and> within ''/data'' (Clean ''/data/b/x'') \<and>
   (\<exists>d \<in> set (fst (Drain (add_all [''/data/b/x'', ''/data/b''] (New_Set ''/data'')))).
      within d (Clean ''/data/b/x''))"
proof -
  have h: "canonical ''/data''" by code_simp
  have m: "''/data/b/x'' \<in> set [''/data/b/x'', ''/data/b'']" by simp
  have w: "within ''/data'' (Clean ''/data/b/x'')" by code_simp
  show ?thesis using h w drain_covers_added [OF h m] by (simp only: if_True simp_thms)
qed

end
