(* ===== verification/Tracker_Loop.thy ===== *)
theory Tracker_Loop
  imports Tracker_Frame Debounce Dirty_Set
begin

text \<open>
  The life cycle of a tracker (\<open>Start\<close>, \<open>run\<close> and its worker, \<open>Close\<close> of \<open>tracker.go\<close>) as a transition
  system of its goroutines: the caller of \<open>Start\<close>, the event loop of \<open>run\<close>, the reconciliation worker,
  the goroutine of the native backend, and the clients that reconcile, scrub, receive and close. Every
  case of a \<open>select\<close> is one step. A reconciliation and a scrub hold \<open>reconcileMu\<close> or \<open>integrityMu\<close>
  and are one step; \<open>addDirty\<close> is two, the marking under \<open>dirtyMu\<close> and the publication after it, since
  the worker can drain the set in between.
\<close>

section \<open>State\<close>

text \<open>Where \<open>Start\<close> stands; its error result is kept when it has returned.\<close>

datatype start_pc = StartIdle | StartNative | StartSpawn | StartReconcile | StartWait GoError | StartReturned "GoError option"

text \<open>What the loop does after \<open>addDirty\<close>: restart the quiet period or wake the worker.\<close>

datatype after = ThenTrigger | ThenWake

datatype loop_pc =
    LoopOff | LoopSelect | LoopPublish int bool after | LoopReturn | LoopClosing "GoError option" | LoopStopping | LoopDone

datatype worker_pc = WorkerOff | WorkerSelect | WorkerDrain | WorkerRun "string list" | WorkerDone

text \<open>
  The tracker beside the local state of \<open>run\<close>: whether \<open>runCtx\<close> is done, whether \<open>nativeEvents\<close> and
  \<open>nativeErrors\<close> are not \<open>nil\<close>, the dirty set, the token in \<open>reconcileWake\<close> and the quiet timer.
\<close>

record ('s, 'k, 'w) TrackerSys =
  y_t :: "('s, 'k, 'w Backend) Tracker"
  y_cancelled :: bool
  y_start :: start_pc
  y_loop :: loop_pc
  y_worker :: worker_pc
  y_pump :: bool
  y_nativeEvents :: bool
  y_nativeErrors :: bool
  y_reported :: bool
  y_dirty :: Set
  y_wake :: bool
  y_quiet :: Timer

definition new_sys :: "('s, 'k, 'w Backend) Tracker \<Rightarrow> ('s, 'k, 'w) TrackerSys" where
  "new_sys t = \<lparr>y_t = t, y_cancelled = False, y_start = StartIdle, y_loop = LoopOff, y_worker = WorkerOff,
     y_pump = False, y_nativeEvents = False, y_nativeErrors = False, y_reported = False,
     y_dirty = New_Set (t_root t), y_wake = False, y_quiet = New_Timer (cf_DebounceWindow (t_config t))\<rparr>"

section \<open>Start\<close>

text \<open>The first critical section; the flag says whether the context is \<open>nil\<close>.\<close>

definition start_begin :: "bool \<Rightarrow> ('s, 'k, 'b) Tracker \<Rightarrow> GoError option \<times> ('s, 'k, 'b) Tracker" where
  "start_begin nilctx t =
     (if nilctx then (Some (ErrMsg ''fsrecon: nil context''), t)
      else if t_closed t then (Some ErrClosed, t)
      else if t_started t then (Some ErrAlreadyStarted, t)
      else (None, t\<lparr>t_started := True, t_state := StateStarting\<rparr>))"

definition start_native :: "'w NativeWatcher \<Rightarrow> ('s, 'k, 'w) TrackerSys \<Rightarrow> ('s, 'k, 'w) TrackerSys" where
  "start_native nw y =
     (let t = y_t y in
      case Start_backend nw (if y_cancelled y then Some ContextCanceled else None) (t_root t) (New_backend DefaultBuffer) of
        (Some err, _) \<Rightarrow>
          y\<lparr>y_t := setState StateDirty t, y_cancelled := True,
            y_start := StartReturned (Some (ErrWrap ''fsrecon: start native watcher: '' err []))\<rparr>
      | (None, native) \<Rightarrow>
          y\<lparr>y_t := t\<lparr>t_backend := native, t_watchTree := Some (wt_New (t_root t)), t_backendHealthy := True\<rparr>,
            y_pump := True, y_start := StartSpawn\<rparr>)"

text \<open>The goroutine is counted and started; the local variables of \<open>run\<close> get their values.\<close>

definition start_spawn :: "('s, 'k, 'w) TrackerSys \<Rightarrow> ('s, 'k, 'w) TrackerSys" where
  "start_spawn y =
     (let t = setState StateSyncing (y_t y) in
      y\<lparr>y_t := t, y_start := StartReconcile, y_loop := LoopSelect, y_worker := WorkerSelect,
        y_nativeEvents := True, y_nativeErrors := True, y_reported := False,
        y_dirty := New_Set (t_root t), y_wake := False, y_quiet := New_Timer (cf_DebounceWindow (t_config t))\<rparr>)"

definition start_finish :: "GoError option \<Rightarrow> ('s, 'k, 'w) TrackerSys \<Rightarrow> ('s, 'k, 'w) TrackerSys" where
  "start_finish err y =
     (case err of
        None \<Rightarrow> y\<lparr>y_start := StartReturned None\<rparr>
      | Some e \<Rightarrow> y\<lparr>y_t := setState StateDirty (y_t y), y_cancelled := True, y_start := StartWait e\<rparr>)"

section \<open>The event loop\<close>

definition add_dirty :: "string \<Rightarrow> after \<Rightarrow> ('s, 'k, 'w) TrackerSys \<Rightarrow> ('s, 'k, 'w) TrackerSys" where
  "add_dirty path next y =
     (case Add path (y_dirty y) of
        (changed, ds) \<Rightarrow> y\<lparr>y_dirty := ds, y_loop := LoopPublish (Len ds) changed next\<rparr>)"

text \<open>The rest of \<open>addDirty\<close>, and the statement that follows the call.\<close>

definition publish_dirty :: "int \<Rightarrow> bool \<Rightarrow> ('s, 'k, 'b) Tracker \<Rightarrow> ('s, 'k, 'b) Tracker" where
  "publish_dirty cnt changed t =
     (let stats = (t_stats t)\<lparr>ts_dirtyPaths := of_int cnt\<rparr>;
          stats = (if \<not> changed then stats\<lparr>ts_eventsCoalesced := ts_eventsCoalesced stats + 1\<rparr> else stats)
      in markDirty (t\<lparr>t_dirtyPending := cnt > 0, t_stats := stats\<rparr>))"

definition publish :: "int \<Rightarrow> bool \<Rightarrow> after \<Rightarrow> ('s, 'k, 'w) TrackerSys \<Rightarrow> ('s, 'k, 'w) TrackerSys" where
  "publish cnt changed next y0 =
     (let y = y0\<lparr>y_t := publish_dirty cnt changed (y_t y0), y_loop := LoopSelect\<rparr> in
      case next of
        ThenTrigger \<Rightarrow> y\<lparr>y_quiet := Trigger (y_quiet y)\<rparr>
      | ThenWake \<Rightarrow> y\<lparr>y_wake := True\<rparr>)"

definition recv_ready :: "'a Chan \<Rightarrow> bool" where
  "recv_ready ch = (ch_queue ch \<noteq> [] \<or> ch_closed ch)"

definition loop_event :: "('s, 'k, 'w) TrackerSys \<Rightarrow> ('s, 'k, 'w) TrackerSys" where
  "loop_event y0 =
     (let t = y_t y0; b = t_backend t in
      case ch_queue (fb_events b) of
        [] \<Rightarrow>
          let y = y0\<lparr>y_nativeEvents := False\<rparr> in
          if \<not> y_cancelled y \<and> \<not> y_reported y then
            add_dirty (t_root t) ThenWake
              (y\<lparr>y_reported := True, y_t := sendError ErrBackendStopped (markBackendUnhealthy t)\<rparr>)
          else y
      | raw # q \<Rightarrow>
          let y = y0\<lparr>y_t := t\<lparr>t_backend := b\<lparr>fb_events := (fb_events b)\<lparr>ch_queue := q\<rparr>\<rparr>,
                              t_stats := (t_stats t)\<lparr>ts_eventsReceived := ts_eventsReceived (t_stats t) + 1\<rparr>\<rparr>\<rparr>
          in (case normalize_Event raw (t_root t) of
                None \<Rightarrow> y
              | Some hint \<Rightarrow> add_dirty (nh_Scope hint) ThenTrigger y))"

definition loop_error :: "Time \<Rightarrow> ('s, 'k, 'w) TrackerSys \<Rightarrow> ('s, 'k, 'w) TrackerSys" where
  "loop_error now y =
     (let t = y_t y; b = t_backend t in
      case ch_queue (fb_errors b) of
        [] \<Rightarrow> y\<lparr>y_nativeErrors := False\<rparr>
      | err # q \<Rightarrow>
          add_dirty (t_root t) ThenWake
            (y\<lparr>y_t := handleBackendError now err (t\<lparr>t_backend := b\<lparr>fb_errors := (fb_errors b)\<lparr>ch_queue := q\<rparr>\<rparr>\<rparr>)\<rparr>))"

definition loop_quiet :: "('s, 'k, 'w) TrackerSys \<Rightarrow> ('s, 'k, 'w) TrackerSys" where
  "loop_quiet y = y\<lparr>y_quiet := receive_tick (y_quiet y), y_wake := True\<rparr>"

definition loop_tick :: "('s, 'k, 'w) TrackerSys \<Rightarrow> ('s, 'k, 'w) TrackerSys" where
  "loop_tick y = add_dirty (t_root (y_t y)) ThenWake (y\<lparr>y_quiet := Stop_Timer (y_quiet y)\<rparr>)"

text \<open>
  The return of \<open>run\<close>: its deferred calls stop the quiet timer, wait for the worker, close the backend
  and stop the tracker. \<open>Close\<close> of the backend waits for its goroutine.
\<close>

definition loop_return :: "('s, 'k, 'w) TrackerSys \<Rightarrow> ('s, 'k, 'w) TrackerSys" where
  "loop_return y = y\<lparr>y_quiet := Stop_Timer (y_quiet y), y_loop := LoopReturn\<rparr>"

definition close_backend_begin :: "'w NativeWatcher \<Rightarrow> ('s, 'k, 'w) TrackerSys \<Rightarrow> ('s, 'k, 'w) TrackerSys" where
  "close_backend_begin nw y =
     (case Close_begin nw (t_backend (y_t y)) of
        (err, b) \<Rightarrow> y\<lparr>y_t := (y_t y)\<lparr>t_backend := b\<rparr>, y_loop := LoopClosing err\<rparr>)"

definition close_backend_end :: "GoError option \<Rightarrow> ('s, 'k, 'w) TrackerSys \<Rightarrow> ('s, 'k, 'w) TrackerSys" where
  "close_backend_end err y =
     (let t = (y_t y)\<lparr>t_backend := Close_end (t_backend (y_t y))\<rparr>;
          t = (case err of None \<Rightarrow> t | Some e \<Rightarrow> sendError (ErrWrap ''fsrecon: close native watcher: '' e []) t)
      in y\<lparr>y_t := t, y_loop := LoopStopping\<rparr>)"

definition loop_stop :: "('s, 'k, 'w) TrackerSys \<Rightarrow> ('s, 'k, 'w) TrackerSys" where
  "loop_stop y = y\<lparr>y_t := stopFromContext (y_t y), y_loop := LoopDone\<rparr>"

section \<open>The worker\<close>

definition worker_drain :: "('s, 'k, 'w) TrackerSys \<Rightarrow> ('s, 'k, 'w) TrackerSys" where
  "worker_drain y =
     (case Drain (y_dirty y) of
        (scopes, ds) \<Rightarrow>
          let t = y_t y in
          y\<lparr>y_dirty := ds, y_t := t\<lparr>t_stats := (t_stats t)\<lparr>ts_dirtyPaths := 0\<rparr>, t_dirtyPending := False\<rparr>,
            y_worker := (if length scopes > 0 then WorkerRun scopes else WorkerSelect)\<rparr>)"

definition reconcileScopesAfterHint ::
  "(ReconcileReport \<Rightarrow> ('s, 'k, 'b) Tracker \<Rightarrow> ('s, 'k, 'b) run_result option) option \<Rightarrow> Env \<Rightarrow> string list \<Rightarrow>
   ('s, 'k, 'b) Tracker \<Rightarrow> ('s, 'k, 'b) Tracker option" where
  "reconcileScopesAfterHint bolt env scopes t =
     (case reconcileScopes bolt env scopes t of
        None \<Rightarrow> None
      | Some ((_, err), t) \<Rightarrow>
          Some (case err of
                  None \<Rightarrow> t
                | Some e \<Rightarrow> if \<not> errors_Is e ContextCanceled \<and> \<not> errors_Is e ErrClosed then sendError e t else t))"

section \<open>Close\<close>

text \<open>Before and after \<open>Close\<close> waits for the goroutines; the cancel function exists once \<open>Start\<close> has set it.\<close>

definition close_begin :: "('s, 'k, 'w) TrackerSys \<Rightarrow> ('s, 'k, 'w) TrackerSys" where
  "close_begin y =
     (let t = y_t y in
      if t_closed t then y
      else y\<lparr>y_t := t\<lparr>t_closed := True, t_state := StateStopped\<rparr>, y_cancelled := (y_cancelled y \<or> t_started t)\<rparr>)"

definition close_end :: "('s, 'k, 'w) TrackerSys \<Rightarrow> ('s, 'k, 'w) TrackerSys" where
  "close_end y = y\<lparr>y_t := closeChannels (y_t y)\<rparr>"

section \<open>Steps\<close>

text \<open>
  The steps of the goroutines and of the environment. With \<open>race\<close> set, \<open>Close\<close> may finish while \<open>Start\<close>
  stands between its first critical section and the counting of its goroutine; the code does not
  exclude it, since the wait group is still empty then.
\<close>

inductive tr_step ::
  "'w NativeWatcher \<Rightarrow> (Env \<Rightarrow> (ReconcileReport \<Rightarrow> ('s, 'k, 'w Backend) Tracker \<Rightarrow> ('s, 'k, 'w Backend) run_result option) option) \<Rightarrow>
   bool \<Rightarrow> ('s, 'k, 'w) TrackerSys \<Rightarrow> ('s, 'k, 'w) TrackerSys \<Rightarrow> bool" for nw bolt race where
  start_begin: "y_start y = StartIdle \<Longrightarrow> start_begin False (y_t y) = (None, t) \<Longrightarrow>
     tr_step nw bolt race y (y\<lparr>y_t := t, y_start := StartNative\<rparr>)"
| start_native: "y_start y = StartNative \<Longrightarrow> tr_step nw bolt race y (start_native nw y)"
| start_spawn: "y_start y = StartSpawn \<Longrightarrow> tr_step nw bolt race y (start_spawn y)"
| start_reconcile: "y_start y = StartReconcile \<Longrightarrow> Reconcile (bolt env) env (y_t y) = Some ((report, err), t) \<Longrightarrow>
     tr_step nw bolt race y (start_finish err (y\<lparr>y_t := t\<rparr>))"
| start_wait: "y_start y = StartWait err \<Longrightarrow> y_loop y = LoopDone \<Longrightarrow>
     tr_step nw bolt race y (y\<lparr>y_start := StartReturned (Some err)\<rparr>)"
| pump: "y_pump y \<Longrightarrow> b' = pump_event name has now (t_backend (y_t y)) \<or> b' = pump_error err (t_backend (y_t y)) \<Longrightarrow>
     tr_step nw bolt race y (y\<lparr>y_t := (y_t y)\<lparr>t_backend := b'\<rparr>\<rparr>)"
| pump_return: "y_pump y \<Longrightarrow>
     tr_step nw bolt race y (y\<lparr>y_t := (y_t y)\<lparr>t_backend := pump_return nw (t_backend (y_t y))\<rparr>, y_pump := False\<rparr>)"
| loop_event: "y_loop y = LoopSelect \<Longrightarrow> y_nativeEvents y \<Longrightarrow> recv_ready (fb_events (t_backend (y_t y))) \<Longrightarrow>
     tr_step nw bolt race y (loop_event y)"
| loop_error: "y_loop y = LoopSelect \<Longrightarrow> y_nativeErrors y \<Longrightarrow> recv_ready (fb_errors (t_backend (y_t y))) \<Longrightarrow>
     tr_step nw bolt race y (loop_error now y)"
| loop_quiet: "y_loop y = LoopSelect \<Longrightarrow> tick_ready (y_quiet y) \<Longrightarrow> tr_step nw bolt race y (loop_quiet y)"
| loop_tick: "y_loop y = LoopSelect \<Longrightarrow> cf_ReconcileInterval (t_config (y_t y)) > 0 \<Longrightarrow> tr_step nw bolt race y (loop_tick y)"
| publish: "y_loop y = LoopPublish cnt changed next \<Longrightarrow> tr_step nw bolt race y (publish cnt changed next y)"
| timer_fires: "timer_running (y_quiet y) \<Longrightarrow> tr_step nw bolt race y (y\<lparr>y_quiet := fire (y_quiet y)\<rparr>)"
| loop_return: "y_loop y = LoopSelect \<Longrightarrow> y_cancelled y \<Longrightarrow> tr_step nw bolt race y (loop_return y)"
| close_backend_begin: "y_loop y = LoopReturn \<Longrightarrow> y_worker y = WorkerDone \<Longrightarrow> tr_step nw bolt race y (close_backend_begin nw y)"
| close_backend_end: "y_loop y = LoopClosing err \<Longrightarrow> \<not> y_pump y \<Longrightarrow> tr_step nw bolt race y (close_backend_end err y)"
| loop_stop: "y_loop y = LoopStopping \<Longrightarrow> tr_step nw bolt race y (loop_stop y)"
| worker_wake: "y_worker y = WorkerSelect \<Longrightarrow> y_wake y \<Longrightarrow> tr_step nw bolt race y (y\<lparr>y_wake := False, y_worker := WorkerDrain\<rparr>)"
| worker_done: "y_worker y = WorkerSelect \<Longrightarrow> y_cancelled y \<Longrightarrow> tr_step nw bolt race y (y\<lparr>y_worker := WorkerDone\<rparr>)"
| worker_drain: "y_worker y = WorkerDrain \<Longrightarrow> tr_step nw bolt race y (worker_drain y)"
| worker_run: "y_worker y = WorkerRun scopes \<Longrightarrow> reconcileScopesAfterHint (bolt env) env scopes (y_t y) = Some t \<Longrightarrow>
     tr_step nw bolt race y (y\<lparr>y_t := t, y_worker := WorkerSelect\<rparr>)"
| cancel: "tr_step nw bolt race y (y\<lparr>y_cancelled := True\<rparr>)"
| reconcile: "Reconcile (bolt env) env (y_t y) = Some (res, t) \<Longrightarrow> tr_step nw bolt race y (y\<lparr>y_t := t\<rparr>)"
| scrub: "Scrub senv (y_t y) = Some (sres, t) \<Longrightarrow> tr_step nw bolt race y (y\<lparr>y_t := t\<rparr>)"
| recv_event: "ch_queue (t_events (y_t y)) = e # q \<Longrightarrow>
     tr_step nw bolt race y (y\<lparr>y_t := (y_t y)\<lparr>t_events := (t_events (y_t y))\<lparr>ch_queue := q\<rparr>\<rparr>\<rparr>)"
| recv_error: "ch_queue (t_errors (y_t y)) = x # q \<Longrightarrow>
     tr_step nw bolt race y (y\<lparr>y_t := (y_t y)\<lparr>t_errors := (t_errors (y_t y))\<lparr>ch_queue := q\<rparr>\<rparr>\<rparr>)"
| close_begin: "tr_step nw bolt race y (close_begin y)"
| close_end: "t_closed (y_t y) \<Longrightarrow> y_loop y = LoopOff \<or> y_loop y = LoopDone \<Longrightarrow>
     race \<or> y_start y \<noteq> StartNative \<and> y_start y \<noteq> StartSpawn \<Longrightarrow> tr_step nw bolt race y (close_end y)"

inductive tr_reach ::
  "'w NativeWatcher \<Rightarrow> (Env \<Rightarrow> (ReconcileReport \<Rightarrow> ('s, 'k, 'w Backend) Tracker \<Rightarrow> ('s, 'k, 'w Backend) run_result option) option) \<Rightarrow>
   bool \<Rightarrow> ('s, 'k, 'w Backend) Tracker \<Rightarrow> ('s, 'k, 'w) TrackerSys \<Rightarrow> bool" for nw bolt race t where
  init: "tr_reach nw bolt race t (new_sys t)"
| step: "tr_reach nw bolt race t y \<Longrightarrow> tr_step nw bolt race y y' \<Longrightarrow> tr_reach nw bolt race t y'"

section \<open>Invariant of the tracker\<close>

definition life_ok :: "('s, 'k, 'b) Tracker \<Rightarrow> bool" where
  "life_ok t =
     (chan_ok (t_channelsClosed t) (cf_EventBuffer (t_config t)) (t_events t) \<and> chan_ok (t_channelsClosed t) 16 (t_errors t) \<and>
      (t_channelsClosed t \<longrightarrow> t_closed t) \<and> (t_closed t \<longrightarrow> t_state t = StateStopped) \<and>
      (t_started t \<and> \<not> t_backendHealthy t \<longrightarrow> t_state t \<noteq> StateSynced))"

lemma life_ok_fields [simp]:
  "life_ok (t\<lparr>t_backend := b\<rparr>) = life_ok t" "life_ok (t\<lparr>t_stats := s\<rparr>) = life_ok t"
  "life_ok (t\<lparr>t_dirtyPending := p\<rparr>) = life_ok t" "life_ok (t\<lparr>t_watchTree := w\<rparr>) = life_ok t"
  by (simp_all add: life_ok_def)

lemma life_ok_state:
  "life_ok t \<Longrightarrow> st \<noteq> StateSynced \<Longrightarrow> life_ok (setState st t)" "life_ok t \<Longrightarrow> life_ok (markDirty t)"
  "life_ok t \<Longrightarrow> life_ok (markBackendUnhealthy t)"
  by (auto simp: life_ok_def setState_def markDirty_def markBackendUnhealthy_def)

lemma life_ok_send:
  "life_ok t \<Longrightarrow> \<not> t_channelsClosed t \<Longrightarrow> life_ok (sendError err t)"
  "life_ok t \<Longrightarrow> \<not> t_channelsClosed t \<Longrightarrow> life_ok (sendEvent e t)"
  by (auto simp: life_ok_def sendError_def sendEvent_def try_send_def chan_ok_def)

lemma ops_keep [simp]:
  "t_root (sendError err t) = t_root t" "t_root (markDirty t) = t_root t" "t_root (markBackendUnhealthy t) = t_root t"
  "t_root (sendEvent e t) = t_root t"
  "t_started (setState st t) = t_started t" "t_started (sendError err t) = t_started t" "t_started (markDirty t) = t_started t"
  "t_started (markBackendUnhealthy t) = t_started t" "t_started (sendEvent e t) = t_started t"
  "t_channelsClosed (setState st t) = t_channelsClosed t" "t_channelsClosed (sendError err t) = t_channelsClosed t"
  "t_channelsClosed (markDirty t) = t_channelsClosed t" "t_channelsClosed (markBackendUnhealthy t) = t_channelsClosed t"
  "t_channelsClosed (sendEvent e t) = t_channelsClosed t"
  "t_dirtyPending (setState st t) = t_dirtyPending t" "t_dirtyPending (sendError err t) = t_dirtyPending t"
  "t_state (sendError err t) = t_state t"
  by (simp_all add: sendError_def markDirty_def markBackendUnhealthy_def sendEvent_def setState_def split: prod.split)

lemma handleBackendError_keep [simp]:
  "t_root (handleBackendError now err t) = t_root t" "t_started (handleBackendError now err t) = t_started t"
  "t_channelsClosed (handleBackendError now err t) = t_channelsClosed t"
  by (simp_all add: handleBackendError_def Let_def)

lemma life_ok_handleBackendError:
  "life_ok t \<Longrightarrow> \<not> t_channelsClosed t \<Longrightarrow> life_ok (handleBackendError now err t)"
  by (simp add: handleBackendError_def Let_def life_ok_send life_ok_state)

lemma publish_dirty_spec:
  assumes "life_ok t"
  shows "life_ok (publish_dirty cnt changed t)" and "t_root (publish_dirty cnt changed t) = t_root t"
    and "t_started (publish_dirty cnt changed t) = t_started t"
    and "t_channelsClosed (publish_dirty cnt changed t) = t_channelsClosed t"
    and "t_dirtyPending (publish_dirty cnt changed t) \<longleftrightarrow> 0 < cnt"
    and "t_state (publish_dirty cnt changed t) \<noteq> StateSynced"
  using assms by (auto simp: publish_dirty_def Let_def life_ok_state) (auto simp: markDirty_def life_ok_def split: if_splits)

lemma life_ok_close:
  "life_ok t \<Longrightarrow> t_closed t \<Longrightarrow> life_ok (closeChannels t)"
  "life_ok t \<Longrightarrow> life_ok (stopFromContext t)"
  by (auto simp: life_ok_def closeChannels_def stopFromContext_def chan_ok_def close_chan_def)

lemma closeChannels_keep [simp]:
  "t_root (closeChannels t) = t_root t" "t_started (closeChannels t) = t_started t"
  "t_dirtyPending (closeChannels t) = t_dirtyPending t" "t_state (closeChannels t) = t_state t" "t_channelsClosed (closeChannels t)"
  "t_root (stopFromContext t) = t_root t" "t_started (stopFromContext t) = t_started t"
  by (simp_all add: closeChannels_def stopFromContext_def)

lemma run_step_keeps:
  assumes "run_step t t'"
  shows "t_root t' = t_root t" and "t_started t' = t_started t" and "t_channelsClosed t' = t_channelsClosed t"
    and "t_dirtyPending t' = t_dirtyPending t" and "t_closed t' = t_closed t"
    and "life_ok t \<Longrightarrow> life_ok t'"
    and "t_dirtyPending t \<Longrightarrow> t_state t \<noteq> StateSynced \<Longrightarrow> t_state t' \<noteq> StateSynced"
  using assms by (auto simp: run_step_def run_frame_def unsettled_def life_ok_def)

section \<open>Invariant of the system\<close>

abbreviation pending_scopes :: "('s, 'k, 'w) TrackerSys \<Rightarrow> string list set" where
  "pending_scopes y \<equiv> dirty_paths (set_tree (y_dirty y))"

text \<open>A pending hint is on its way to the worker, and the tracker does not claim to be synced.\<close>

definition hint_live :: "('s, 'k, 'w) TrackerSys \<Rightarrow> bool" where
  "hint_live y = ((y_wake y \<or> quiet_armed (y_quiet y) \<or> y_worker y = WorkerDrain) \<and>
     t_dirtyPending (y_t y) \<and> t_state (y_t y) \<noteq> StateSynced)"

definition dirty_ok :: "('s, 'k, 'w) TrackerSys \<Rightarrow> bool" where
  "dirty_ok y = (set_ok (y_dirty y) \<and> set_root (y_dirty y) = t_root (y_t y) \<and>
     (y_loop y = LoopOff \<longrightarrow> pending_scopes y = {}) \<and>
     (\<forall>cnt changed next. y_loop y = LoopPublish cnt changed next \<longrightarrow> 0 < cnt) \<and>
     (y_loop y = LoopSelect \<and> pending_scopes y \<noteq> {} \<longrightarrow> hint_live y))"

text \<open>The loop has waited for the worker.\<close>

fun loop_ending :: "loop_pc \<Rightarrow> bool" where
  "loop_ending (LoopClosing _) = True"
| "loop_ending LoopStopping = True"
| "loop_ending LoopDone = True"
| "loop_ending _ = False"

definition start_ok :: "('s, 'k, 'w) TrackerSys \<Rightarrow> bool" where
  "start_ok y =
     ((y_start y = StartIdle \<longleftrightarrow> \<not> t_started (y_t y)) \<and>
      (y_start y \<in> {StartIdle, StartNative, StartSpawn} \<longrightarrow> y_loop y = LoopOff) \<and>
      (y_loop y = LoopOff \<longrightarrow> y_worker y = WorkerOff) \<and> (loop_ending (y_loop y) \<longrightarrow> y_worker y = WorkerDone) \<and>
      (t_channelsClosed (y_t y) \<longrightarrow> (y_loop y = LoopOff \<or> y_loop y = LoopDone) \<and> y_start y \<noteq> StartNative \<and> y_start y \<noteq> StartSpawn))"

definition tr_inv :: "('s, 'k, 'w) TrackerSys \<Rightarrow> bool" where
  "tr_inv y = (life_ok (y_t y) \<and> canonical (t_root (y_t y)) \<and> start_ok y \<and> dirty_ok y)"

text \<open>Steps that touch neither the dirty set nor the places of the goroutines.\<close>

lemma dirty_ok_tracker:
  assumes "dirty_ok y" and "t_root t = t_root (y_t y)" and "t_dirtyPending (y_t y) \<longrightarrow> t_dirtyPending t"
    and "t_dirtyPending (y_t y) \<Longrightarrow> t_state (y_t y) \<noteq> StateSynced \<Longrightarrow> t_state t \<noteq> StateSynced"
  shows "dirty_ok (y\<lparr>y_t := t\<rparr>)"
  using assms by (auto simp: dirty_ok_def hint_live_def)

lemma tr_inv_run:
  assumes "tr_inv y" and "run_step (y_t y) t"
  shows "tr_inv (y\<lparr>y_t := t\<rparr>)"
  using assms dirty_ok_tracker [of y t] by (auto simp: tr_inv_def start_ok_def run_step_keeps)

lemma tr_inv_fields [simp]:
  "tr_inv (y\<lparr>y_t := (y_t y)\<lparr>t_backend := b\<rparr>\<rparr>) = tr_inv y"
  "tr_inv (y\<lparr>y_t := (y_t y)\<lparr>t_backend := b, t_stats := s\<rparr>\<rparr>) = tr_inv y"
  "tr_inv (y\<lparr>y_nativeEvents := nonnil\<rparr>) = tr_inv y" "tr_inv (y\<lparr>y_nativeErrors := nonnil\<rparr>) = tr_inv y"
  "tr_inv (y\<lparr>y_cancelled := c\<rparr>) = tr_inv y" "tr_inv (y\<lparr>y_pump := p\<rparr>) = tr_inv y"
  by (simp_all only: tr_inv_def start_ok_def dirty_ok_def hint_live_def) simp_all

lemma Add_nonempty: "set_ok d \<Longrightarrow> 0 < Len (snd (Add path d))"
  using Add_spec [of d path] by (auto simp: set_ok_def Len_def add_scope_def covers_def card_gt_0_iff split: if_splits)

text \<open>
  \<open>addDirty\<close> of the loop: the tracker may already have been changed before, the loop is past its
  select.
\<close>

lemma tr_inv_add_dirty:
  assumes "tr_inv y" and "y_loop y = LoopSelect" and "life_ok (y_t y')" and "t_root (y_t y') = t_root (y_t y)"
    and "t_started (y_t y') = t_started (y_t y)" and "t_channelsClosed (y_t y') = t_channelsClosed (y_t y)"
    and "y_dirty y' = y_dirty y" and "y_start y' = y_start y"
  shows "tr_inv (add_dirty path next y')"
proof -
  obtain changed d where a: "Add path (y_dirty y) = (changed, d)" by fastforce
  have ok: "set_ok (y_dirty y)" "set_root (y_dirty y) = t_root (y_t y)" using assms(1) by (auto simp: tr_inv_def dirty_ok_def)
  have "set_ok d" "set_root d = t_root (y_t y)" "0 < Len d"
    using Add_spec(1,2) [OF ok(1), of path] Add_nonempty [OF ok(1), of path] a ok(2) by simp_all
  with assms a show ?thesis by (auto simp: tr_inv_def add_dirty_def start_ok_def dirty_ok_def)
qed

lemma tr_inv_publish:
  assumes "tr_inv y" and "y_loop y = LoopPublish cnt changed next"
  shows "tr_inv (publish cnt changed next y)"
  using assms publish_dirty_spec [of "y_t y" cnt changed]
  by (cases "next") (auto simp: tr_inv_def publish_def Let_def start_ok_def dirty_ok_def hint_live_def Trigger_arms)

lemma running_open: "tr_inv y \<Longrightarrow> y_loop y \<noteq> LoopOff \<Longrightarrow> y_loop y \<noteq> LoopDone \<Longrightarrow> \<not> t_channelsClosed (y_t y)"
  by (auto simp: tr_inv_def start_ok_def)

lemma tr_inv_loop_event:
  assumes "tr_inv y" and "y_loop y = LoopSelect"
  shows "tr_inv (loop_event y)"
proof (cases "ch_queue (fb_events (t_backend (y_t y)))")
  case Nil
  have "life_ok (sendError ErrBackendStopped (markBackendUnhealthy (y_t y)))"
    using assms running_open [OF assms(1)] by (auto simp: tr_inv_def life_ok_send life_ok_state)
  then show ?thesis using Nil assms by (auto simp: loop_event_def Let_def intro!: tr_inv_add_dirty [of y])
next
  case (Cons raw q)
  let ?t = "(y_t y)\<lparr>t_backend := (t_backend (y_t y))\<lparr>fb_events := (fb_events (t_backend (y_t y)))\<lparr>ch_queue := q\<rparr>\<rparr>,
      t_stats := (t_stats (y_t y))\<lparr>ts_eventsReceived := ts_eventsReceived (t_stats (y_t y)) + 1\<rparr>\<rparr>"
  have "life_ok ?t" using assms(1) by (simp add: tr_inv_def)
  then show ?thesis
    using Cons assms by (auto simp: loop_event_def Let_def split: option.split intro!: tr_inv_add_dirty [of y])
qed

lemma tr_inv_loop_error:
  assumes "tr_inv y" and "y_loop y = LoopSelect"
  shows "tr_inv (loop_error now y)"
proof -
  have "life_ok (handleBackendError now err ((y_t y)\<lparr>t_backend := b\<rparr>))" for err b
    using assms running_open [OF assms(1)] by (auto simp: tr_inv_def life_ok_handleBackendError)
  then show ?thesis
    using assms by (auto simp: loop_error_def Let_def split: list.split intro!: tr_inv_add_dirty [of y])
qed

lemma tr_inv_start_native:
  assumes "tr_inv y" and "y_start y = StartNative"
  shows "tr_inv (start_native nw y)"
proof -
  obtain err b where s: "Start_backend nw (if y_cancelled y then Some ContextCanceled else None) (t_root (y_t y))
      (New_backend DefaultBuffer) = (err, b)" by fastforce
  have "life_ok (t\<lparr>t_backend := b, t_watchTree := w, t_backendHealthy := True\<rparr>)" if "life_ok t" for t :: "('a, 'b, 'c Backend) Tracker" and w
    using that by (simp add: life_ok_def)
  with assms s show ?thesis
    by (cases err) (auto simp: start_native_def Let_def tr_inv_def start_ok_def dirty_ok_def life_ok_state)
qed

lemma tr_inv_start_spawn:
  assumes "tr_inv y" and "y_start y = StartSpawn"
  shows "tr_inv (start_spawn y)"
proof -
  have "IsAbs (t_root (y_t y))" "Clean (t_root (y_t y)) = t_root (y_t y)"
    using assms(1) by (auto simp: tr_inv_def Clean_canonical)
  with assms show ?thesis
    by (auto simp: start_spawn_def Let_def tr_inv_def start_ok_def dirty_ok_def life_ok_state set_ok_New New_Set_def
        dest: set_ok_New)
qed

lemma setState_unsynced: "st \<noteq> StateSynced \<Longrightarrow> t_state t \<noteq> StateSynced \<Longrightarrow> t_state (setState st t) \<noteq> StateSynced"
  by (simp add: setState_def)

lemma tr_inv_start_finish: "tr_inv y \<Longrightarrow> y_start y = StartReconcile \<Longrightarrow> tr_inv (start_finish err y)"
  by (cases err) (auto simp: start_finish_def tr_inv_def start_ok_def dirty_ok_def hint_live_def life_ok_state setState_unsynced)

lemma tr_inv_worker_drain: "tr_inv y \<Longrightarrow> y_worker y = WorkerDrain \<Longrightarrow> tr_inv (worker_drain y)"
  using Drain_spec(5,7) [of "y_dirty y"]
  by (auto simp: worker_drain_def Let_def tr_inv_def start_ok_def dirty_ok_def Drain_def)

lemma tr_inv_worker_back: "tr_inv y \<Longrightarrow> y_worker y = WorkerRun scopes \<Longrightarrow> tr_inv (y\<lparr>y_worker := WorkerSelect\<rparr>)"
  by (auto simp: tr_inv_def start_ok_def dirty_ok_def hint_live_def)

lemma tr_inv_worker_run:
  assumes "tr_inv y" and "reconciler bolt" and "reconcileScopesAfterHint (bolt env) env scopes (y_t y) = Some t"
    and "y_loop y \<noteq> LoopOff" and "y_loop y \<noteq> LoopDone" and "y_worker y = WorkerRun scopes"
  shows "tr_inv (y\<lparr>y_t := t, y_worker := WorkerSelect\<rparr>)"
proof -
  from assms(3) obtain report err u where r: "reconcileScopes (bolt env) env scopes (y_t y) = Some ((report, err), u)"
    and t: "t = u \<or> (\<exists>e. t = sendError e u)"
    by (fastforce simp: reconcileScopesAfterHint_def split: option.splits if_splits)
  have inv: "tr_inv (y\<lparr>y_t := u\<rparr>)" by (rule tr_inv_run [OF assms(1) reconciler.scopes_step [OF assms(2) r]])
  have send: "tr_inv (y\<lparr>y_t := sendError e u\<rparr>)" for e
  proof -
    have "\<not> t_channelsClosed u" using running_open [OF inv] assms(4,5) by simp
    then have "life_ok (sendError e u)" using inv by (simp add: tr_inv_def life_ok_send)
    moreover have "dirty_ok (y\<lparr>y_t := sendError e u\<rparr>)"
      using dirty_ok_tracker [of "y\<lparr>y_t := u\<rparr>" "sendError e u"] inv by (simp add: tr_inv_def)
    moreover have "start_ok (y\<lparr>y_t := sendError e u\<rparr>)" using inv by (auto simp: tr_inv_def start_ok_def)
    ultimately show ?thesis using inv by (simp add: tr_inv_def)
  qed
  from t inv send have "tr_inv (y\<lparr>y_t := t\<rparr>)" by (elim disjE exE) simp_all
  then show ?thesis using tr_inv_worker_back [of "y\<lparr>y_t := t\<rparr>" scopes] assms(6) by simp
qed

text \<open>The steps that only move the goroutines or the timer.\<close>

lemma tr_inv_moves:
  "tr_inv y \<Longrightarrow> y_start y = StartWait err \<Longrightarrow> tr_inv (y\<lparr>y_start := StartReturned (Some err)\<rparr>)"
  "tr_inv y \<Longrightarrow> tr_inv (loop_quiet y)" "tr_inv y \<Longrightarrow> tr_inv (y\<lparr>y_quiet := fire (y_quiet y)\<rparr>)"
  "tr_inv y \<Longrightarrow> y_loop y = LoopSelect \<Longrightarrow> tr_inv (loop_return y)"
  "tr_inv y \<Longrightarrow> y_loop y = LoopReturn \<Longrightarrow> y_worker y = WorkerDone \<Longrightarrow> tr_inv (close_backend_begin nw y)"
  "tr_inv y \<Longrightarrow> y_worker y = WorkerSelect \<Longrightarrow> tr_inv (y\<lparr>y_wake := False, y_worker := WorkerDrain\<rparr>)"
  "tr_inv y \<Longrightarrow> y_worker y = WorkerSelect \<Longrightarrow> tr_inv (y\<lparr>y_worker := WorkerDone\<rparr>)"
  by (auto simp: tr_inv_def start_ok_def dirty_ok_def hint_live_def loop_quiet_def loop_return_def close_backend_begin_def
      armed_fire split: prod.split)

lemma tr_inv_step:
  assumes "tr_step nw bolt False y y'" and "reconciler bolt" and "tr_inv y"
  shows "tr_inv y'"
  using assms(1,3)
proof (cases rule: tr_step.cases)
  case (start_begin t)
  then show ?thesis using assms(3)
    by (auto simp: start_begin_def tr_inv_def start_ok_def dirty_ok_def hint_live_def life_ok_def split: if_splits)
next
  case (start_reconcile env report err t)
  have "tr_inv (y\<lparr>y_t := t\<rparr>)" by (rule tr_inv_run [OF assms(3) reconciler.full_step [OF assms(2) start_reconcile(3)]])
  with start_reconcile show ?thesis by (simp add: tr_inv_start_finish)
next
  case (pump_return)
  then show ?thesis using assms(3) tr_inv_fields(6) [where p = False] by simp
next
  case (worker_run scopes env t)
  have "y_loop y \<noteq> LoopOff" "y_loop y \<noteq> LoopDone" using worker_run(2) assms(3) by (auto simp: tr_inv_def start_ok_def)
  with worker_run show ?thesis by (simp add: tr_inv_worker_run [OF assms(3,2)])
next
  case (reconcile env res t)
  then show ?thesis using tr_inv_run [OF assms(3) reconciler.full_step [OF assms(2)]] by simp
next
  case (scrub senv sres t)
  then show ?thesis using tr_inv_run [OF assms(3) run_step_Scrub] by simp
next
  case (recv_event e q)
  then show ?thesis using assms(3) by (auto simp: tr_inv_def start_ok_def dirty_ok_def hint_live_def life_ok_def chan_ok_def)
next
  case (recv_error x q)
  then show ?thesis using assms(3) by (auto simp: tr_inv_def start_ok_def dirty_ok_def hint_live_def life_ok_def chan_ok_def)
next
  case close_begin
  then show ?thesis using assms(3)
    by (auto simp: close_begin_def Let_def tr_inv_def start_ok_def dirty_ok_def hint_live_def life_ok_def)
next
  case close_end
  then show ?thesis using assms(3)
    by (auto simp: close_end_def tr_inv_def life_ok_close start_ok_def dirty_ok_def)
next
  case loop_stop
  then show ?thesis using assms(3)
    by (auto simp: loop_stop_def tr_inv_def life_ok_close start_ok_def dirty_ok_def)
next
  case (close_backend_end err)
  then show ?thesis using assms(3) running_open [OF assms(3)]
    by (cases err) (auto simp: close_backend_end_def Let_def tr_inv_def life_ok_send start_ok_def dirty_ok_def)
next
  case loop_tick
  then show ?thesis using assms(3) by (auto simp: loop_tick_def tr_inv_def [of y] intro!: tr_inv_add_dirty [of y])
qed (use assms(3) in \<open>auto simp: tr_inv_start_native tr_inv_start_spawn tr_inv_loop_event tr_inv_loop_error tr_inv_publish
    tr_inv_worker_drain tr_inv_moves\<close>)

text \<open>What \<open>New\<close> returns satisfies the invariant.\<close>

lemma New_fresh:
  assumes "New random getwd dflt sink bops b config = Inr t" and "\<And>wd. getwd = Inr wd \<Longrightarrow> IsAbs wd"
  shows "tr_inv (new_sys t)"
proof -
  obtain sid r where ok: "config_error config = None" "newSessionID random = Inr sid" "Abs_path getwd (cf_Root config) = Inr r"
    using assms(1) by (cases "config_error config"; cases "newSessionID random"; cases "Abs_path getwd (cf_Root config)")
      (simp_all add: New_def)
  have buf: "0 \<le> cf_EventBuffer config" using ok(1) by (auto simp: config_error_def split: if_splits)
  have "IsAbs r" using ok(3) assms(2) by (auto simp: Abs_path_def IsAbs_Clean IsAbs_Join split: if_splits sum.splits)
  then have root: "canonical (Clean r)" by (rule canonical_Clean)
  obtain store snap where st: "(case cf_Store config of None \<Rightarrow> dflt | Some s \<Rightarrow> s) = (store, snap)" by fastforce
  have "life_ok t \<and> canonical (t_root t) \<and> \<not> t_started t \<and> \<not> t_channelsClosed t"
    using assms(1) ok st buf root
    by (cases "cf_ChangeSink config \<noteq> None \<and> ss_Apply store = None")
      (auto simp: New_def Let_def life_ok_def chan_ok_def make_chan_def with_defaults_def defaultEventBuffer_def)
  then show ?thesis
    by (simp add: tr_inv_def new_sys_def start_ok_def dirty_ok_def set_ok_New [OF canonical_IsAbs] New_Set_def Clean_canonical
        set_ok_def)
qed

lemma tr_reach_inv:
  assumes "tr_reach nw bolt False t y" and "reconciler bolt" and "tr_inv (new_sys t)"
  shows "tr_inv y"
  using assms(1) by induction (use assms(2,3) tr_inv_step in blast)+

end
