(* ===== verification/Tracker_Hints.thy ===== *)
theory Tracker_Hints
  imports Tracker_Loop
begin

text \<open>
  What the goroutines of the tracker guarantee: no hint is lost between the native backend and the
  worker, and an event in the channel of the backend reaches a reconciliation of its path. The last
  section exhibits two races of \<open>tracker.go\<close>, both as reachable states of the transition system.
\<close>

section \<open>The way of a hint\<close>

text \<open>A path that is dirty, and a path that the worker is about to reconcile.\<close>

definition hint_pending :: "string \<Rightarrow> ('s, 'k, 'w) TrackerSys \<Rightarrow> bool" where
  "hint_pending p y = covers (pending_scopes y) (scope_key (t_root (y_t y)) p)"

definition hint_taken :: "string \<Rightarrow> ('s, 'k, 'w) TrackerSys \<Rightarrow> bool" where
  "hint_taken p y = (\<exists>scopes. y_worker y = WorkerRun scopes \<and> (\<exists>d \<in> set scopes. within d (Clean p)))"

lemma covers_add_scope: "covers S q \<Longrightarrow> covers (add_scope p S) q"
  by (auto simp: covers_def add_scope_def)

lemma add_dirty_hints:
  assumes "set_ok (y_dirty y)" and "set_root (y_dirty y) = t_root (y_t y)"
  shows "hint_pending p (add_dirty p next y)" and "hint_pending q y \<Longrightarrow> hint_pending q (add_dirty p next y)"
proof -
  obtain changed d where a: "Add p (y_dirty y) = (changed, d)" by fastforce
  have d: "dirty_paths (set_tree d) = add_scope (scope_key (t_root (y_t y)) p) (pending_scopes y)"
    using Add_spec(3) [OF assms(1), of p] a assms(2) by simp
  show "hint_pending p (add_dirty p next y)" by (auto simp: hint_pending_def add_dirty_def a d covers_def add_scope_def)
  show "hint_pending q (add_dirty p next y)" if "hint_pending q y"
    using that by (simp add: hint_pending_def add_dirty_def a d covers_add_scope)
qed

lemma loop_keeps_hint:
  assumes "tr_inv y" and "hint_pending p y"
  shows "hint_pending p (loop_event y)" and "hint_pending p (loop_error now y)" and "hint_pending p (loop_tick y)"
    and "hint_pending p (publish cnt changed next y)"
proof -
  have ok: "set_ok (y_dirty y)" "set_root (y_dirty y) = t_root (y_t y)" and l: "life_ok (y_t y)"
    using assms(1) by (auto simp: tr_inv_def dirty_ok_def)
  have add: "hint_pending p (add_dirty q next y')"
    if "y_dirty y' = y_dirty y" "t_root (y_t y') = t_root (y_t y)" for q "next" and y' :: "('a, 'b, 'c) TrackerSys"
    using that ok assms(2) by (intro add_dirty_hints(2)) (simp_all add: hint_pending_def)
  have same: "hint_pending p y'"
    if "y_dirty y' = y_dirty y" "t_root (y_t y') = t_root (y_t y)" for y' :: "('a, 'b, 'c) TrackerSys"
    using that assms(2) by (simp add: hint_pending_def)
  show "hint_pending p (loop_event y)"
    by (auto simp: loop_event_def Let_def add same split: list.split option.split)
  show "hint_pending p (loop_error now y)"
    by (auto simp: loop_error_def Let_def add same split: list.split)
  show "hint_pending p (loop_tick y)" by (simp add: loop_tick_def add)
  show "hint_pending p (publish cnt changed next y)"
    using assms(2) publish_dirty_spec(2) [OF l]
    by (cases "next") (simp_all add: publish_def Let_def hint_pending_def)
qed

lemma worker_drain_takes:
  assumes "tr_inv y" and "hint_pending p y" and "within (t_root (y_t y)) (Clean p)"
  shows "hint_taken p (worker_drain y)"
proof -
  obtain scopes d where a: "Drain (y_dirty y) = (scopes, d)" by fastforce
  have "\<exists>d \<in> set scopes. within d (Clean p)"
    using Drain_covers [of "y_dirty y" p] assms a by (simp add: tr_inv_def dirty_ok_def hint_pending_def)
  then show ?thesis using a by (auto simp: worker_drain_def hint_taken_def Let_def)
qed

lemma step_keeps_hint:
  assumes "tr_step nw bolt race y y'" and "reconciler bolt" and "tr_inv y" and "hint_pending p y"
    and "within (t_root (y_t y)) (Clean p)"
  shows "hint_pending p y' \<or> hint_taken p y'"
  using assms(1)
proof (cases rule: tr_step.cases)
  case start_spawn
  then have "pending_scopes y = {}" using assms(3) by (auto simp: tr_inv_def start_ok_def dirty_ok_def)
  then show ?thesis using assms(4) by (simp add: hint_pending_def covers_def)
next
  case start_native
  have "y_dirty (start_native nw y) = y_dirty y \<and> t_root (y_t (start_native nw y)) = t_root (y_t y)"
    by (auto simp: start_native_def Let_def split: prod.split option.split)
  with start_native assms(4) show ?thesis by (simp add: hint_pending_def)
next
  case (start_reconcile env report err t)
  from reconciler.full_step [OF assms(2) start_reconcile(3)] have "t_root t = t_root (y_t y)" by (rule run_step_keeps)
  with start_reconcile assms(4) show ?thesis by (cases err) (simp_all add: start_finish_def hint_pending_def)
next
  case (worker_run scopes env t)
  from worker_run(3) obtain res u where "reconcileScopes (bolt env) env scopes (y_t y) = Some (res, u)" "t_root t = t_root u"
    by (fastforce simp: reconcileScopesAfterHint_def split: option.splits if_splits)
  with reconciler.scopes_step [OF assms(2)] have "t_root t = t_root (y_t y)" by (metis run_step_keeps(1))
  with worker_run assms(4) show ?thesis by (simp add: hint_pending_def)
next
  case (reconcile env res t)
  from reconciler.full_step [OF assms(2) reconcile(2)] have "t_root t = t_root (y_t y)" by (rule run_step_keeps)
  with reconcile assms(4) show ?thesis by (simp add: hint_pending_def)
next
  case (scrub senv sres t)
  from run_step_Scrub [OF scrub(2)] have "t_root t = t_root (y_t y)" by (rule run_step_keeps)
  with scrub assms(4) show ?thesis by (simp add: hint_pending_def)
next
  case (start_begin t)
  then show ?thesis using assms(4) by (auto simp: start_begin_def hint_pending_def split: if_splits)
next
  case (close_backend_end err)
  then show ?thesis using assms(4) by (cases err) (simp_all add: close_backend_end_def Let_def hint_pending_def)
qed (use assms(3,4,5) in \<open>auto simp: loop_keeps_hint worker_drain_takes,
      auto simp: hint_pending_def loop_quiet_def loop_return_def close_backend_begin_def loop_stop_def close_begin_def
        close_end_def Let_def split: prod.split\<close>)

text \<open>
  The steps that the tracker takes by itself to handle an event: those of the loop, of the quiet timer
  and of the worker up to its run. Neither the backend nor a client has to act.
\<close>

inductive own_step :: "('s, 'k, 'w) TrackerSys \<Rightarrow> ('s, 'k, 'w) TrackerSys \<Rightarrow> bool" where
  event: "y_loop y = LoopSelect \<Longrightarrow> y_nativeEvents y \<Longrightarrow> recv_ready (fb_events (t_backend (y_t y))) \<Longrightarrow> own_step y (loop_event y)"
| publish: "y_loop y = LoopPublish cnt changed next \<Longrightarrow> own_step y (publish cnt changed next y)"
| fires: "timer_running (y_quiet y) \<Longrightarrow> own_step y (y\<lparr>y_quiet := fire (y_quiet y)\<rparr>)"
| quiet: "y_loop y = LoopSelect \<Longrightarrow> tick_ready (y_quiet y) \<Longrightarrow> own_step y (loop_quiet y)"
| wake: "y_worker y = WorkerSelect \<Longrightarrow> y_wake y \<Longrightarrow> own_step y (y\<lparr>y_wake := False, y_worker := WorkerDrain\<rparr>)"
| drain: "y_worker y = WorkerDrain \<Longrightarrow> own_step y (worker_drain y)"

lemma own_step_tr: "own_step y y' \<Longrightarrow> tr_step nw bolt race y y'"
  by (induction rule: own_step.induct) (blast intro: tr_step.intros)+

text \<open>A pending hint reaches the worker: at most the quiet period ends, the loop wakes the worker, and it drains.\<close>

lemma hint_reaches_worker:
  assumes "tr_inv y" and "y_loop y = LoopSelect" and "y_worker y \<in> {WorkerSelect, WorkerDrain}" and "hint_pending p y"
    and "within (t_root (y_t y)) (Clean p)"
  shows "\<exists>y'. own_step\<^sup>*\<^sup>* y y' \<and> hint_taken p y'"
proof -
  have drain: "\<exists>y'. own_step\<^sup>*\<^sup>* z y' \<and> hint_taken p y'"
    if "y_worker z = WorkerDrain" "tr_inv z" "hint_pending p z" "t_root (y_t z) = t_root (y_t y)" for z :: "('a, 'b, 'c) TrackerSys"
    using own_step.drain [OF that(1)] worker_drain_takes [OF that(2,3)] that(4) assms(5) by auto
  have wake: "\<exists>y'. own_step\<^sup>*\<^sup>* z y' \<and> hint_taken p y'"
    if w: "y_wake z" "y_worker z = WorkerSelect" "tr_inv z" "hint_pending p z" "t_root (y_t z) = t_root (y_t y)"
    for z :: "('a, 'b, 'c) TrackerSys"
  proof -
    let ?z = "z\<lparr>y_wake := False, y_worker := WorkerDrain\<rparr>"
    have "hint_pending p ?z" using that(4) by (simp add: hint_pending_def)
    then obtain y' where "own_step\<^sup>*\<^sup>* ?z y'" "hint_taken p y'"
      using drain [of ?z] tr_inv_moves(6) [OF w(3,2)] w(5) by auto
    with own_step.wake [OF that(2,1)] show ?thesis by (meson converse_rtranclp_into_rtranclp)
  qed
  have ne: "pending_scopes y \<noteq> {}" using assms(4) by (auto simp: hint_pending_def)
  then have live: "y_wake y \<or> quiet_armed (y_quiet y) \<or> y_worker y = WorkerDrain"
    using assms(1,2) by (auto simp: tr_inv_def dirty_ok_def hint_live_def)
  show ?thesis
  proof (cases "y_worker y = WorkerDrain \<or> y_wake y")
    case True
    then show ?thesis using drain [of y] wake [of y] assms by auto
  next
    case False
    let ?f = "y\<lparr>y_quiet := fire (y_quiet y)\<rparr>"
    have armed: "quiet_armed (y_quiet y)" using live False by simp
    have "own_step\<^sup>*\<^sup>* y ?f"
    proof (cases "timer_running (y_quiet y)")
      case True
      then show ?thesis by (intro r_into_rtranclp own_step.fires)
    next
      case False
      then have "fire (y_quiet y) = y_quiet y" by (auto simp: timer_defs split: option.splits)
      then show ?thesis by simp
    qed
    moreover have "own_step ?f (loop_quiet ?f)"
      using armed_fire [OF armed] assms(2) by (intro own_step.quiet) simp_all
    moreover have "\<exists>y'. own_step\<^sup>*\<^sup>* (loop_quiet ?f) y' \<and> hint_taken p y'"
      using False assms tr_inv_moves(2) [OF tr_inv_moves(3) [OF assms(1)]]
      by (intro wake) (auto simp: loop_quiet_def hint_pending_def)
    ultimately show ?thesis by (meson converse_rtranclp_into_rtranclp rtranclp_trans)
  qed
qed

text \<open>The loop takes the events of the backend one by one and leaves a hint for each inside the root.\<close>

lemma publish_simps [simp]:
  "y_loop (publish cnt changed next y) = LoopSelect" "y_worker (publish cnt changed next y) = y_worker y"
  "y_nativeEvents (publish cnt changed next y) = y_nativeEvents y" "t_backend (y_t (publish cnt changed next y)) = t_backend (y_t y)"
  "t_root (y_t (publish cnt changed next y)) = t_root (y_t y)"
  by (cases "next"; simp add: publish_def Let_def publish_dirty_def markDirty_def)+

lemma add_dirty_simps [simp]:
  "y_worker (add_dirty p next y) = y_worker y" "y_nativeEvents (add_dirty p next y) = y_nativeEvents y"
  "y_t (add_dirty p next y) = y_t y" "\<exists>cnt changed. y_loop (add_dirty p next y) = LoopPublish cnt changed next"
  by (auto simp: add_dirty_def split: prod.split)

lemma event_step:
  assumes "tr_inv y" and "y_loop y = LoopSelect" and "y_nativeEvents y" and "ch_queue (fb_events (t_backend (y_t y))) = raw # q"
  obtains z where "own_step\<^sup>*\<^sup>* y z" and "tr_inv z" and "y_loop z = LoopSelect" and "y_nativeEvents z"
    and "y_worker z = y_worker y" and "t_root (y_t z) = t_root (y_t y)" and "ch_queue (fb_events (t_backend (y_t z))) = q"
    and "\<And>hint. normalize_Event raw (t_root (y_t y)) = Some hint \<Longrightarrow> hint_pending (nh_Scope hint) z"
proof -
  have s: "own_step y (loop_event y)" using assms by (intro own_step.event) (simp_all add: recv_ready_def)
  have inv: "tr_inv (loop_event y)" by (rule tr_inv_loop_event [OF assms(1,2)])
  show ?thesis
  proof (cases "normalize_Event raw (t_root (y_t y))")
    case None
    then show ?thesis using that [of "loop_event y"] r_into_rtranclp [of own_step, OF s] inv assms by (simp add: loop_event_def Let_def)
  next
    case (Some hint)
    let ?y = "y\<lparr>y_t := (y_t y)\<lparr>t_backend := (t_backend (y_t y))\<lparr>fb_events := (fb_events (t_backend (y_t y)))\<lparr>ch_queue := q\<rparr>\<rparr>,
        t_stats := (t_stats (y_t y))\<lparr>ts_eventsReceived := ts_eventsReceived (t_stats (y_t y)) + 1\<rparr>\<rparr>\<rparr>"
    have e: "loop_event y = add_dirty (nh_Scope hint) ThenTrigger ?y" using assms(4) Some by (simp add: loop_event_def Let_def)
    obtain cnt changed where l: "y_loop (loop_event y) = LoopPublish cnt changed ThenTrigger" unfolding e by (metis add_dirty_simps(4))
    have "hint_pending (nh_Scope hint) (loop_event y)"
      unfolding e using assms(1) by (intro add_dirty_hints(1)) (simp_all add: tr_inv_def dirty_ok_def)
    then have "hint_pending (nh_Scope hint) (publish cnt changed ThenTrigger (loop_event y))" by (rule loop_keeps_hint [OF inv])
    moreover have "own_step\<^sup>*\<^sup>* y (publish cnt changed ThenTrigger (loop_event y))"
      using s own_step.publish [OF l] by (meson converse_rtranclp_into_rtranclp r_into_rtranclp)
    ultimately show ?thesis
      using that [of "publish cnt changed ThenTrigger (loop_event y)"] tr_inv_publish [OF inv l] Some assms by (simp add: e)
  qed
qed

lemma queued_event_pending:
  assumes "tr_inv y" and "y_loop y = LoopSelect" and "y_nativeEvents y"
    and "ch_queue (fb_events (t_backend (y_t y))) = pre @ raw # post"
    and "normalize_Event raw (t_root (y_t y)) = Some hint"
  shows "\<exists>z. own_step\<^sup>*\<^sup>* y z \<and> tr_inv z \<and> y_loop z = LoopSelect \<and> y_worker z = y_worker y \<and>
    t_root (y_t z) = t_root (y_t y) \<and> hint_pending (nh_Scope hint) z"
  using assms
proof (induction pre arbitrary: y)
  case Nil
  then show ?case using event_step [OF Nil.prems(1-3), of raw post] by (metis append_Nil)
next
  case (Cons r pre)
  obtain z where z: "own_step\<^sup>*\<^sup>* y z" "tr_inv z" "y_loop z = LoopSelect" "y_nativeEvents z"
      "y_worker z = y_worker y" "t_root (y_t z) = t_root (y_t y)" "ch_queue (fb_events (t_backend (y_t z))) = pre @ raw # post"
    using event_step [OF Cons.prems(1-3), of r "pre @ raw # post"] Cons.prems(4) by (metis append_Cons)
  with Cons.IH [OF z(2,3,4,7)] Cons.prems(5) show ?case by (metis rtranclp_trans)
qed

lemma covers_prefix: "covers S q \<Longrightarrow> prefix q r \<Longrightarrow> covers S r"
  by (auto simp: covers_def intro: prefix_order.trans)

lemma scope_key_prefix:
  assumes "canonical scope" and "IsAbs p" and "prefix (elems root) (elems scope)" and "prefix (elems scope) (elems (Clean p))"
  shows "prefix (scope_key root scope) (scope_key root p)"
  using assms by (auto simp: scope_key_def Clean_canonical canonical_IsAbs prefix_def)

section \<open>Properties\<close>


text \<open>C6: a native event is reconciled. While the loop waits and the worker is between two runs, every
  event in the channel of the backend whose path lies inside the root leads, by steps of the loop, the
  timer and the worker alone, to a run of the worker one of whose scopes contains the path.\<close>

theorem native_event_reconciled:
  assumes "New random getwd dflt sink bops b config = Inr t" and "\<And>wd. getwd = Inr wd \<Longrightarrow> IsAbs wd"
    and "reconciler bolt" and "tr_reach nw bolt False t y"
    and "y_loop y = LoopSelect" and "y_worker y = WorkerSelect \<or> y_worker y = WorkerDrain" and "y_nativeEvents y"
    and "raw \<in> set (ch_queue (fb_events (t_backend (y_t y))))"
    and "IsAbs (raw_Path raw)" and "within (t_root (y_t y)) (Clean (raw_Path raw))"
  shows "\<exists>y' scopes. own_step\<^sup>*\<^sup>* y y' \<and> y_worker y' = WorkerRun scopes \<and>
    (\<exists>d \<in> set scopes. within d (Clean (raw_Path raw)))"
proof -
  have inv: "tr_inv y" by (rule tr_reach_inv [OF assms(4,3) New_fresh [OF assms(1,2)]])
  then have root: "IsAbs (t_root (y_t y))" "Clean (t_root (y_t y)) = t_root (y_t y)" by (auto simp: tr_inv_def Clean_canonical)
  obtain hint where h: "normalize_Event raw (t_root (y_t y)) = Some hint" "canonical (nh_Scope hint)"
      "prefix (elems (t_root (y_t y))) (elems (nh_Scope hint))" "prefix (elems (nh_Scope hint)) (elems (Clean (raw_Path raw)))"
    using normalize_Event_inside [OF root(1) assms(9), unfolded root(2), OF assms(10)] by blast
  obtain pre post where q: "ch_queue (fb_events (t_backend (y_t y))) = pre @ raw # post" using assms(8) by (meson split_list)
  obtain z where z: "own_step\<^sup>*\<^sup>* y z" "tr_inv z" "y_loop z = LoopSelect" "y_worker z = y_worker y"
      "t_root (y_t z) = t_root (y_t y)" "hint_pending (nh_Scope hint) z"
    using queued_event_pending [OF inv assms(5,7) q h(1)] by blast
  have "hint_pending (raw_Path raw) z"
    using z(6) covers_prefix [OF _ scope_key_prefix [OF h(2) assms(9) h(3,4)]] by (simp add: hint_pending_def z(5))
  then obtain y' where "own_step\<^sup>*\<^sup>* z y'" "hint_taken (raw_Path raw) y'"
    using hint_reaches_worker [OF z(2,3)] assms(6,10) z(4,5) by fastforce
  with z(1) show ?thesis by (metis hint_taken_def rtranclp_trans)
qed

section \<open>Witnesses\<close>

definition ex_live_tracker :: "(MemoryStore, unit, string list Backend) Tracker" where
  "ex_live_tracker = (case New (Inr [0x1F, 0xA0]) (Inr ''/w'') (memory_store, NewMemoryStore) () (fsnotify_backend ex_watcher)
     (New_backend 0) ex_config of Inr t \<Rightarrow> t)"

definition ex_no_fast :: "Env \<Rightarrow> (ReconcileReport \<Rightarrow> (MemoryStore, unit, string list Backend) Tracker \<Rightarrow>
    (MemoryStore, unit, string list Backend) run_result option) option" where
  "ex_no_fast env = None"

text \<open>\<open>Start\<close> up to its reconciliation, a native event, and its hint.\<close>

definition ex_y1 :: "(MemoryStore, unit, string list) TrackerSys" where
  "ex_y1 = (new_sys ex_live_tracker)\<lparr>y_t := snd (start_begin False ex_live_tracker), y_start := StartNative\<rparr>"

definition ex_y3 :: "(MemoryStore, unit, string list) TrackerSys" where
  "ex_y3 = start_spawn (start_native ex_watcher ex_y1)"

definition ex_y4 :: "(MemoryStore, unit, string list) TrackerSys" where
  "ex_y4 = ex_y3\<lparr>y_t := (y_t ex_y3)\<lparr>t_backend := pump_event ''/w/e/a/x'' (\<lambda>op. op = FsWrite) 5 (t_backend (y_t ex_y3))\<rparr>\<rparr>"

definition ex_y6 :: "(MemoryStore, unit, string list) TrackerSys" where
  "ex_y6 = publish 1 True ThenTrigger (loop_event ex_y4)"

lemma ex_run_new:
  "New (Inr [0x1F, 0xA0]) (Inr ''/w'') (memory_store, NewMemoryStore) () (fsnotify_backend ex_watcher)
     (New_backend 0) ex_config = Inr ex_live_tracker"
proof -
  have "case New (Inr [0x1F, 0xA0]) (Inr ''/w'') (memory_store, NewMemoryStore) () (fsnotify_backend ex_watcher)
     (New_backend 0) ex_config of Inl _ \<Rightarrow> False | Inr _ \<Rightarrow> True" by code_simp
  then show ?thesis by (auto simp: ex_live_tracker_def split: sum.splits)
qed

lemma ex_run_wd: "(Inr ''/w'' :: GoError + string) = Inr wd \<Longrightarrow> IsAbs wd"
  by (auto simp: IsAbs_def)

lemma ex_no_fast_run: "reconciler ex_no_fast"
  unfolding ex_no_fast_def [abs_def] by (rule generic_run.reconciler_axioms)

lemma ex_live_reach:
  "tr_reach ex_watcher ex_no_fast race ex_live_tracker (start_native ex_watcher ex_y1)"
  "tr_reach ex_watcher ex_no_fast race ex_live_tracker ex_y3" "tr_reach ex_watcher ex_no_fast race ex_live_tracker ex_y4"
  "tr_reach ex_watcher ex_no_fast race ex_live_tracker ex_y6"
proof -
  have v: "y_start (new_sys ex_live_tracker) = StartIdle" "fst (start_begin False ex_live_tracker) = None" "y_start ex_y1 = StartNative"
    "y_start (start_native ex_watcher ex_y1) = StartSpawn" "y_pump ex_y3" "y_loop ex_y4 = LoopSelect" "y_nativeEvents ex_y4"
    "recv_ready (fb_events (t_backend (y_t ex_y4)))" "y_loop (loop_event ex_y4) = LoopPublish 1 True ThenTrigger"
    by code_simp+
  have "tr_step ex_watcher ex_no_fast race (new_sys ex_live_tracker) ex_y1"
    unfolding ex_y1_def using v(2) by (intro tr_step.start_begin [OF v(1)]) (simp add: new_sys_def prod_eq_iff)
  from tr_reach.step [OF tr_reach.init this]
  show r2: "tr_reach ex_watcher ex_no_fast race ex_live_tracker (start_native ex_watcher ex_y1)"
    by (rule tr_reach.step) (rule tr_step.start_native [OF v(3)])
  then show r3: "tr_reach ex_watcher ex_no_fast race ex_live_tracker ex_y3"
    unfolding ex_y3_def by (rule tr_reach.step) (rule tr_step.start_spawn [OF v(4)])
  then show r4: "tr_reach ex_watcher ex_no_fast race ex_live_tracker ex_y4"
    unfolding ex_y4_def by (rule tr_reach.step) (rule tr_step.pump [OF v(5)], blast)
  from tr_reach.step [OF r4 tr_step.loop_event [OF v(6,7,8)]]
  show "tr_reach ex_watcher ex_no_fast race ex_live_tracker ex_y6"
    unfolding ex_y6_def by (rule tr_reach.step) (rule tr_step.publish [OF v(9)])
qed


theorem native_event_reconciled_witness:
  "tr_reach ex_watcher ex_no_fast False ex_live_tracker ex_y4 \<and>
   (\<exists>y' scopes. own_step\<^sup>*\<^sup>* ex_y4 y' \<and> y_worker y' = WorkerRun scopes \<and>
     (\<exists>d \<in> set scopes. within d ''/w/e/a/x''))"
proof -
  let ?raw = "\<lparr>raw_Path = ''/w/e/a/x'', raw_Op = OpWrite, raw_Time = 5\<rparr>"
  have v: "y_loop ex_y4 = LoopSelect" "y_worker ex_y4 = WorkerSelect" "y_nativeEvents ex_y4"
    "ch_queue (fb_events (t_backend (y_t ex_y4))) = [?raw]" "IsAbs (raw_Path ?raw)" "Clean (raw_Path ?raw) = ''/w/e/a/x''"
    "within (t_root (y_t ex_y4)) ''/w/e/a/x''" by code_simp+
  from v(2) have w: "y_worker ex_y4 = WorkerSelect \<or> y_worker ex_y4 = WorkerDrain" ..
  from v(4) have q: "?raw \<in> set (ch_queue (fb_events (t_backend (y_t ex_y4))))" by simp
  have p: "within (t_root (y_t ex_y4)) (Clean (raw_Path ?raw))" by (simp only: v(6,7))
  from native_event_reconciled [OF ex_run_new ex_run_wd ex_no_fast_run ex_live_reach(3) v(1) w v(3) q v(5) p]
    ex_live_reach(3) [of False] show ?thesis by (simp only: v(6) simp_thms)
qed

section \<open>Two races\<close>

text \<open>
  \<open>Close\<close> may finish while \<open>Start\<close> has started the backend and not yet counted its goroutine: the wait
  group is empty, so the channels are closed, and the loop that \<open>Start\<close> then starts sends the next
  backend error on a closed channel.
\<close>

definition ex_c4 :: "(MemoryStore, unit, string list) TrackerSys" where
  "ex_c4 = start_spawn (close_end (close_begin (start_native ex_watcher ex_y1)))"

definition ex_c5 :: "(MemoryStore, unit, string list) TrackerSys" where
  "ex_c5 = ex_c4\<lparr>y_t := (y_t ex_c4)\<lparr>t_backend := pump_error ErrEventOverflow (t_backend (y_t ex_c4))\<rparr>\<rparr>"

lemma close_during_start_panics:
  "tr_reach ex_watcher ex_no_fast True ex_live_tracker (loop_error 9 ex_c5) \<and> ch_panicked (t_errors (y_t (loop_error 9 ex_c5)))"
proof -
  let ?c2 = "close_begin (start_native ex_watcher ex_y1)"
  have v: "t_closed (y_t ?c2)" "y_loop ?c2 = LoopOff" "y_start (close_end ?c2) = StartSpawn" "y_pump ex_c4" "y_loop ex_c5 = LoopSelect"
    "y_nativeErrors ex_c5" "recv_ready (fb_errors (t_backend (y_t ex_c5)))" "ch_panicked (t_errors (y_t (loop_error 9 ex_c5)))"
    by code_simp+
  have "tr_reach ex_watcher ex_no_fast True ex_live_tracker ?c2"
    by (rule tr_reach.step [OF ex_live_reach(1) tr_step.close_begin])
  then have "tr_reach ex_watcher ex_no_fast True ex_live_tracker (close_end ?c2)"
    by (rule tr_reach.step) (rule tr_step.close_end, use v(1,2) in simp_all)
  then have "tr_reach ex_watcher ex_no_fast True ex_live_tracker ex_c4"
    unfolding ex_c4_def by (rule tr_reach.step) (rule tr_step.start_spawn [OF v(3)])
  then have "tr_reach ex_watcher ex_no_fast True ex_live_tracker ex_c5"
    unfolding ex_c5_def by (rule tr_reach.step) (rule tr_step.pump [OF v(4)], blast)
  from tr_reach.step [OF this tr_step.loop_error [OF v(5,6,7)]] v(8) show ?thesis by blast
qed

text \<open>
  The worker may drain the set between the two halves of \<open>addDirty\<close>: the run that follows covers the
  new hint and ends SYNCED, then the loop publishes the hint as pending and marks the tracker DIRTY.
  The wake-up for it finds an empty set, and no run follows: the tracker stays DIRTY with nothing
  pending, no timer armed and no wake-up sent, until the next event.
\<close>

definition ex_empty_fs :: FS where
  "ex_empty_fs = \<lparr>fs_Lstat = (\<lambda>p. if p = ''/w/e'' then Inr (ex_info 0x80000000 1) else Inl ErrNotExist),
      fs_Stat = (\<lambda>p. Inr (ex_info 0x80000000 1)), fs_Open = (\<lambda>p. None), fs_ReadDir = (\<lambda>p. ([], None))\<rparr>"

definition ex_write :: "string \<Rightarrow> (MemoryStore, unit, string list) TrackerSys \<Rightarrow> (MemoryStore, unit, string list) TrackerSys" where
  "ex_write p y = y\<lparr>y_t := (y_t y)\<lparr>t_backend := pump_event p (\<lambda>op. op = FsWrite) 5 (t_backend (y_t y))\<rparr>\<rparr>"

text \<open>The quiet period ends and the worker takes the wake-up.\<close>

definition ex_settle :: "(MemoryStore, unit, string list) TrackerSys \<Rightarrow> (MemoryStore, unit, string list) TrackerSys" where
  "ex_settle y = (loop_quiet (y\<lparr>y_quiet := fire (y_quiet y)\<rparr>))\<lparr>y_wake := False, y_worker := WorkerDrain\<rparr>"

definition ex_s1 :: "(MemoryStore, unit, string list) TrackerSys" where
  "ex_s1 = start_finish None (ex_y3\<lparr>y_t := snd (the (Reconcile None (ex_env ex_empty_fs) (y_t ex_y3)))\<rparr>)"

definition ex_s2 :: "(MemoryStore, unit, string list) TrackerSys" where
  "ex_s2 = publish 1 True ThenTrigger (loop_event (ex_write ''/w/e/a/x'' ex_s1))"

definition ex_s3 :: "(MemoryStore, unit, string list) TrackerSys" where
  "ex_s3 = worker_drain (loop_event (ex_write ''/w/e/b/x'' (ex_settle ex_s2)))"

definition ex_s4 :: "(MemoryStore, unit, string list) TrackerSys" where
  "ex_s4 = ex_s3\<lparr>y_t := the (reconcileScopesAfterHint None (ex_env ex_empty_fs) [''/w/e/a'', ''/w/e/b''] (y_t ex_s3)), y_worker := WorkerSelect\<rparr>"

definition ex_s5 :: "(MemoryStore, unit, string list) TrackerSys" where
  "ex_s5 = publish 2 True ThenTrigger ex_s4"

abbreviation ex_reachable :: "(MemoryStore, unit, string list) TrackerSys \<Rightarrow> bool" where
  "ex_reachable \<equiv> tr_reach ex_watcher ex_no_fast False ex_live_tracker"

lemma ex_write_event:
  assumes "ex_reachable y" and "y_pump y" and "y_loop y = LoopSelect" and "y_nativeEvents y"
    and "recv_ready (fb_events (t_backend (y_t (ex_write p y))))"
  shows "ex_reachable (loop_event (ex_write p y))"
proof -
  from assms(1) have "ex_reachable (ex_write p y)"
    unfolding ex_write_def by (rule tr_reach.step) (rule tr_step.pump [OF assms(2)], blast)
  then show ?thesis
    by (rule tr_reach.step) (rule tr_step.loop_event, use assms(3-5) in \<open>simp_all add: ex_write_def\<close>)
qed

lemma ex_settle_steps:
  assumes "ex_reachable y" and "y_loop y = LoopSelect" and "y_worker y = WorkerSelect" and "timer_running (y_quiet y)"
    and "quiet_armed (y_quiet y)"
  shows "ex_reachable (ex_settle y)"
proof -
  have "ex_reachable (y\<lparr>y_quiet := fire (y_quiet y)\<rparr>)" using assms(1) tr_step.timer_fires [OF assms(4)] by (rule tr_reach.step)
  then have "ex_reachable (loop_quiet (y\<lparr>y_quiet := fire (y_quiet y)\<rparr>))"
    by (rule tr_reach.step) (rule tr_step.loop_quiet, use assms(2) armed_fire [OF assms(5)] in simp_all)
  then show ?thesis
    unfolding ex_settle_def by (rule tr_reach.step) (rule tr_step.worker_wake, use assms(3) in \<open>simp_all add: loop_quiet_def\<close>)
qed

lemma ex_runs:
  "\<exists>report t. Reconcile None (ex_env ex_empty_fs) (y_t ex_y3) = Some ((report, None), t)"
  "reconcileScopesAfterHint None (ex_env ex_empty_fs) [''/w/e/a'', ''/w/e/b''] (y_t ex_s3) \<noteq> None"
proof -
  have "map_option (\<lambda>((_, err), _). err) (Reconcile None (ex_env ex_empty_fs) (y_t ex_y3)) = Some None" by code_simp
  then show "\<exists>report t. Reconcile None (ex_env ex_empty_fs) (y_t ex_y3) = Some ((report, None), t)" by auto
  have "\<not> Option.is_none (reconcileScopesAfterHint None (ex_env ex_empty_fs) [''/w/e/a'', ''/w/e/b''] (y_t ex_s3))" by code_simp
  then show "reconcileScopesAfterHint None (ex_env ex_empty_fs) [''/w/e/a'', ''/w/e/b''] (y_t ex_s3) \<noteq> None"
    by (auto simp: Option.is_none_def)
qed

lemma ex_s2_reachable: "ex_reachable ex_s2"
proof -
  have v: "y_start ex_y3 = StartReconcile" "y_pump ex_s1" "y_loop ex_s1 = LoopSelect" "y_nativeEvents ex_s1"
    "recv_ready (fb_events (t_backend (y_t (ex_write ''/w/e/a/x'' ex_s1))))"
    "y_loop (loop_event (ex_write ''/w/e/a/x'' ex_s1)) = LoopPublish 1 True ThenTrigger"
    by code_simp+
  from ex_runs(1) obtain report t where r: "Reconcile None (ex_env ex_empty_fs) (y_t ex_y3) = Some ((report, None), t)" by blast
  then have "tr_step ex_watcher ex_no_fast False ex_y3 (start_finish None (ex_y3\<lparr>y_t := t\<rparr>))"
    by (intro tr_step.start_reconcile [OF v(1)]) (simp add: ex_no_fast_def)
  moreover have "ex_s1 = start_finish None (ex_y3\<lparr>y_t := t\<rparr>)" by (simp add: ex_s1_def r)
  ultimately have "ex_reachable ex_s1" using tr_reach.step [OF ex_live_reach(2)] by simp
  from ex_write_event [OF this v(2-5)] show ?thesis
    unfolding ex_s2_def by (rule tr_reach.step) (rule tr_step.publish [OF v(6)])
qed

lemma stale_dirty:
  "ex_reachable (worker_drain (ex_settle ex_s5)) \<and> t_state (y_t ex_s4) = StateSynced \<and>
   t_state (y_t (worker_drain (ex_settle ex_s5))) = StateDirty \<and> Len (y_dirty (worker_drain (ex_settle ex_s5))) = 0 \<and>
   \<not> y_wake (worker_drain (ex_settle ex_s5)) \<and> \<not> quiet_armed (y_quiet (worker_drain (ex_settle ex_s5))) \<and>
   y_worker (worker_drain (ex_settle ex_s5)) = WorkerSelect"
proof -
  let ?e = "ex_settle ex_s2"
  have v: "y_loop ex_s2 = LoopSelect" "y_worker ex_s2 = WorkerSelect" "timer_running (y_quiet ex_s2)" "quiet_armed (y_quiet ex_s2)"
    by code_simp+
  have w: "y_pump ?e" "y_loop ?e = LoopSelect" "y_nativeEvents ?e" "recv_ready (fb_events (t_backend (y_t (ex_write ''/w/e/b/x'' ?e))))"
    "y_worker (loop_event (ex_write ''/w/e/b/x'' ?e)) = WorkerDrain" "y_worker ex_s3 = WorkerRun [''/w/e/a'', ''/w/e/b'']"
    by code_simp+
  have x: "y_loop ex_s4 = LoopPublish 2 True ThenTrigger" "y_loop ex_s5 = LoopSelect" "y_worker ex_s5 = WorkerSelect"
    "timer_running (y_quiet ex_s5)" "quiet_armed (y_quiet ex_s5)" "y_worker (ex_settle ex_s5) = WorkerDrain" by code_simp+
  have "ex_reachable ?e" by (rule ex_settle_steps [OF ex_s2_reachable v])
  from ex_write_event [OF this w(1-4)] have "ex_reachable ex_s3"
    unfolding ex_s3_def by (rule tr_reach.step) (rule tr_step.worker_drain [OF w(5)])
  moreover obtain t where "reconcileScopesAfterHint None (ex_env ex_empty_fs) [''/w/e/a'', ''/w/e/b''] (y_t ex_s3) = Some t"
    using ex_runs(2) by blast
  then have "tr_step ex_watcher ex_no_fast False ex_s3 ex_s4"
    unfolding ex_s4_def by (intro tr_step.worker_run [OF w(6), where env = "ex_env ex_empty_fs"]) (simp add: ex_no_fast_def)
  ultimately have "ex_reachable ex_s4" by (rule tr_reach.step)
  then have "ex_reachable ex_s5" unfolding ex_s5_def by (rule tr_reach.step) (rule tr_step.publish [OF x(1)])
  from ex_settle_steps [OF this x(2-5)] have "ex_reachable (worker_drain (ex_settle ex_s5))"
    by (rule tr_reach.step) (rule tr_step.worker_drain [OF x(6)])
  moreover have "t_state (y_t ex_s4) = StateSynced" "t_state (y_t (worker_drain (ex_settle ex_s5))) = StateDirty"
    "Len (y_dirty (worker_drain (ex_settle ex_s5))) = 0" "\<not> y_wake (worker_drain (ex_settle ex_s5))"
    "\<not> quiet_armed (y_quiet (worker_drain (ex_settle ex_s5)))" "y_worker (worker_drain (ex_settle ex_s5)) = WorkerSelect" by code_simp+
  ultimately show ?thesis by blast
qed

end
