(* ===== verification/Windows_Identity.thy ===== *)
theory Windows_Identity
  imports Scanner_Walk
begin

text \<open>
  \<open>fileIdentity\<close> of \<open>internal/scanner/identity_windows.go\<close>. The system calls are parameters.
\<close>

record ByHandleFileInformation =
  bh_VolumeSerialNumber :: "32 word"
  bh_FileIndexHigh :: "32 word"
  bh_FileIndexLow :: "32 word"
  bh_NumberOfLinks :: "32 word"

definition identity_flags :: "bool \<Rightarrow> 32 word" where
  "identity_flags followSymlink = (if followSymlink then 0x02000000 else 0x02000000 OR 0x00200000)"

definition identity_text :: "ByHandleFileInformation \<Rightarrow> string" where
  "identity_text d = fmt_x (bh_VolumeSerialNumber d) @ '':'' @ fmt_x (bh_FileIndexHigh d) @ fmt_x (bh_FileIndexLow d)"

definition fileIdentity_windows ::
  "(string \<Rightarrow> GoError + 'u) \<Rightarrow> ('u \<Rightarrow> 32 word \<Rightarrow> GoError + 'h) \<Rightarrow> ('h \<Rightarrow> GoError + ByHandleFileInformation) \<Rightarrow>
   string \<Rightarrow> FileInfo \<Rightarrow> bool \<Rightarrow> GoError + (string \<times> 64 word)" where
  "fileIdentity_windows utf16 createFile getInformation path info followSymlink =
     (case utf16 path of
        Inl err \<Rightarrow> Inl err
      | Inr ptr \<Rightarrow>
     (case createFile ptr (identity_flags followSymlink) of
        Inl err \<Rightarrow> Inl err
      | Inr h \<Rightarrow>
     (case getInformation h of
        Inl err \<Rightarrow> Inl err
      | Inr d \<Rightarrow> Inr (identity_text d, ucast (bh_NumberOfLinks d)))))"

text \<open>
  The two halves of the file index are written without padding, so two files of one volume can have
  the same identity: the halves \<open>1\<close> and \<open>0x23\<close> read as \<open>0x12\<close> and \<open>3\<close>.
\<close>

lemma windows_identity_collides:
  "fileIdentity_windows Inr (\<lambda>p _. Inr p)
     (\<lambda>p. Inr \<lparr>bh_VolumeSerialNumber = 7, bh_FileIndexHigh = (if p = ''a'' then 1 else 0x12),
              bh_FileIndexLow = (if p = ''a'' then 0x23 else 3), bh_NumberOfLinks = 1\<rparr>) p
     \<lparr>fi_Mode = 0, fi_Size = 0, fi_ModTime = 0, fi_Sys = None\<rparr> False = Inr (''7:123'', 1)"
proof (cases "p = ''a''")
  case True
  have "identity_text \<lparr>bh_VolumeSerialNumber = 7, bh_FileIndexHigh = 1, bh_FileIndexLow = 0x23, bh_NumberOfLinks = 1\<rparr> = ''7:123''"
    by code_simp
  with True show ?thesis by (simp add: fileIdentity_windows_def)
next
  case False
  have "identity_text \<lparr>bh_VolumeSerialNumber = 7, bh_FileIndexHigh = 0x12, bh_FileIndexLow = 3, bh_NumberOfLinks = 1\<rparr> = ''7:123''"
    by code_simp
  with False show ?thesis by (simp add: fileIdentity_windows_def)
qed

end
