(* ===== verification/Snapshot_Types.thy ===== *)
theory Snapshot_Types
  imports Integrity_Scrub
begin

text \<open>
  The typing of a tracker over its whole life: what its snapshot, its root and the generation that it
  retains look like after any sequence of reconciliations, scrubs and life-cycle operations, successful
  or not. It holds because every call that changes these fields keeps it.
\<close>

section \<open>The typing\<close>

definition pending_typed :: "('s, 'k, 'b) Tracker \<Rightarrow> pendingGeneration \<Rightarrow> bool" where
  "pending_typed t p = (writes_canonical p \<and> pg_sessionID p = t_sessionID t \<and> pg_generation p = t_generation t + 1 \<and>
     cf_ChangeSink (t_config t) \<noteq> None \<and>
     (case pg_kind p of
        pendingReconcile \<Rightarrow> pg_integrity p = None
      | pendingIntegrity \<Rightarrow> pg_puts p = [] \<and> pg_deletes p = [] \<and> map_option ig_Generation (pg_integrity p) = Some (pg_generation p)))"

definition tracker_typed :: "(MemoryStore, 'k, 'b) Tracker \<Rightarrow> bool" where
  "tracker_typed t = (t_store t = memory_store \<and> store_ok (t_snapshot t) \<and> canonical (t_root t) \<and>
     (\<forall>p. t_pending t = Some p \<longrightarrow> pending_typed t p))"

text \<open>The fields that the typing does not mention.\<close>

lemma typed_fields [simp]:
  "tracker_typed (t\<lparr>t_watchTree := w\<rparr>) = tracker_typed t" "tracker_typed (t\<lparr>t_backend := b\<rparr>) = tracker_typed t"
  "tracker_typed (t\<lparr>t_sinkState := k\<rparr>) = tracker_typed t" "tracker_typed (t\<lparr>t_stats := s\<rparr>) = tracker_typed t"
  "tracker_typed (t\<lparr>t_state := st\<rparr>) = tracker_typed t" "tracker_typed (t\<lparr>t_events := es\<rparr>) = tracker_typed t"
  "tracker_typed (t\<lparr>t_errors := xs\<rparr>) = tracker_typed t" "tracker_typed (t\<lparr>t_closed := c\<rparr>) = tracker_typed t"
  "tracker_typed (t\<lparr>t_channelsClosed := c\<rparr>) = tracker_typed t" "tracker_typed (t\<lparr>t_backendHealthy := c\<rparr>) = tracker_typed t"
  by (simp_all add: tracker_typed_def pending_typed_def)

lemma typed_generation [simp]: "t_pending t = None \<Longrightarrow> tracker_typed (t\<lparr>t_generation := g\<rparr>) = tracker_typed t"
  by (simp add: tracker_typed_def)

lemma typed_forget: "tracker_typed t \<Longrightarrow> tracker_typed (t\<lparr>t_pending := None\<rparr>)"
  by (simp add: tracker_typed_def)

lemma typed_states [simp]:
  "tracker_typed (setState st t) = tracker_typed t" "tracker_typed (markDirty t) = tracker_typed t"
  "tracker_typed (setConsistentState t) = tracker_typed t" "tracker_typed (sendEvent e t) = tracker_typed t"
  "tracker_typed (sendError x t) = tracker_typed t" "tracker_typed (markBackendUnhealthy t) = tracker_typed t"
  by (simp_all add: setState_def markDirty_def setConsistentState_def sendEvent_def sendError_def markBackendUnhealthy_def split: prod.split)

lemma typed_sendEvents [simp]: "tracker_typed (fold sendEvent es t) = tracker_typed t"
  by (induction es arbitrary: t) simp_all

lemma typed_life [simp]:
  "tracker_typed (closeChannels t) = tracker_typed t" "tracker_typed (stopFromContext t) = tracker_typed t"
  "tracker_typed (handleBackendError now err t) = tracker_typed t"
  by (simp_all add: closeChannels_def stopFromContext_def handleBackendError_def Let_def)

lemma typed_fail [dest!]: "reconcile_fail env r x u = (res, t') \<Longrightarrow> tracker_typed t' = tracker_typed u"
  by (auto simp: reconcile_fail_def)

lemma typed_deliverPending: "deliverPending t = (err, t') \<Longrightarrow> tracker_typed t' = tracker_typed t"
  by (auto simp: deliverPending_def split: option.splits prod.splits)

lemma typed_sync: "sync_watches scopes obs t = (err, t') \<Longrightarrow> tracker_typed t' = tracker_typed t"
  by (auto simp: sync_watches_def split: option.splits prod.splits)

text \<open>A commit of typed writes, whatever its outcome.\<close>

lemma typed_commit:
  assumes "tracker_typed t" and "list_all (\<lambda>st. canonical (st_Path st)) puts" and "list_all canonical deletes"
    and "commit_snapshot ctx wa wd wp (t_store t) puts deletes (t_snapshot t) = (err, s)"
  shows "tracker_typed (t\<lparr>t_snapshot := s\<rparr>)"
proof -
  have t: "t_store t = memory_store" "store_ok (t_snapshot t)" using assms(1) by (simp_all add: tracker_typed_def)
  note c = assms(4) [unfolded t(1)]
  have "store_ok s"
  proof (cases err)
    case None
    with memory.commit_law [OF t(2) assms(2,3) memory_store_ops(2,3) disjI2 [OF memory_store_ops(4)]] c show ?thesis by blast
  next
    case (Some x)
    with memory.commit_batch_error [OF t(2) assms(2,3) memory_store_ops(4)] c show ?thesis by blast
  qed
  then show ?thesis using assms(1) by (simp add: tracker_typed_def pending_typed_def)
qed

section \<open>Every run keeps it\<close>

lemma finish_reconcile_typed:
  assumes "tracker_typed t" and "range_ok env" and "actual_ok inside actual"
    and "dom (map_of previous) \<subseteq> dom (ms_lookup (t_snapshot t))" and "rr_Generation report = t_generation t + 1"
    and "finish_reconcile env previous actual expected report events t = (res, t')"
  shows "tracker_typed t'"
proof -
  let ?puts = "put_list env actual" and ?deletes = "delete_list env previous actual"
  have canon: "p \<in> dom (map_of previous) \<Longrightarrow> canonical p" for p
    using assms(1,4) store_okD(3) [of "t_snapshot t"] by (auto simp: tracker_typed_def)
  have w: "list_all (\<lambda>st. canonical (st_Path st)) ?puts" "list_all canonical ?deletes"
    by (rule writes_canonical_lists [OF assms(2,3)], erule canon)+
  define t1 where "t1 = (if cf_ChangeSink (t_config t) \<noteq> None
      then t\<lparr>t_pending := Some \<lparr>pg_kind = pendingReconcile, pg_sessionID = t_sessionID t,
               pg_generation = rr_Generation report, pg_report = report, pg_events = cloneEvents events,
               pg_puts = ?puts, pg_deletes = ?deletes, pg_integrity = None\<rparr>\<rparr>
      else t)"
  obtain e t2 where d: "(if cf_ChangeSink (t_config t1) \<noteq> None then deliverPending t1 else (None, t1)) = (e, t2)" by fastforce
  have "tracker_typed t1"
    using assms(1,5) w by (auto simp: t1_def tracker_typed_def pending_typed_def writes_canonical_def)
  with d have t2: "tracker_typed t2" by (auto split: if_splits dest!: typed_deliverPending)
  obtain e2 s where c: "commit_snapshot (env_ctx env) wrapApply wrapDelete wrapPut (t_store t2) ?puts ?deletes (t_snapshot t2) = (e2, s)"
    by fastforce
  note s = typed_commit [OF t2 w c]
  show ?thesis
    using assms(6) d c t2 s
    unfolding finish_reconcile_def put_list_def [symmetric] delete_list_def [symmetric] Let_def t1_def [symmetric]
    by (cases e; cases e2) (auto simp: typed_forget)
qed

lemma reconcile_generic_typed:
  assumes "tracker_typed t" and "list_all canonical scopes" and "\<And>scope. names_ok (env_fs env scope)" and "range_ok env"
    and "rr_Generation report = t_generation t + 1" and "reconcile_generic env scopes report t = Some (res, t')"
  shows "tracker_typed t'"
proof -
  have t: "t_store t = memory_store" "store_ok (t_snapshot t)" using assms(1) by (simp_all add: tracker_typed_def)
  obtain e previous where cp: "collect_previous env t scopes = (e, previous)" by fastforce
  show ?thesis
  proof (cases e)
    case (Some x)
    with assms(1,6) cp show ?thesis by (auto simp: reconcile_generic_def)
  next
    case None
    then obtain se acc where sc: "scan_scopes env t scopes previous = Some (se, acc)"
      using assms(6) cp by (auto simp: reconcile_generic_def split: option.splits)
    note prev = collect_previous_memory [OF t assms(2) cp [unfolded None]]
    obtain dirs where acc: "actual_ok (in_scopes scopes) (sa_actual acc)" "map_of (sa_previous acc) = map_of previous |` (- dirs)"
      by (rule scan_scopes_ok [OF assms(3,2) conjunct1 [OF prev] sc]) blast
    let ?t = "t\<lparr>t_watchTree := sa_tree acc, t_backend := sa_backend acc\<rparr>"
    obtain e2 u where s: "sync_watches scopes (sa_observed acc) ?t = (e2, u)" by fastforce
    have u: "tracker_typed u" "t_snapshot u = t_snapshot t" "t_generation u = t_generation t"
      using typed_sync [OF s] sync_watches_keeps [OF s] assms(1) by simp_all
    have sub: "dom (map_of (sa_previous acc)) \<subseteq> dom (ms_lookup (t_snapshot u))"
      using acc(2) prev u(2) by (auto split: if_splits)
    have fin: "tracker_typed t'"
      if "reconcile_events env (t_config u) (sa_previous acc) (sa_actual acc) ex (sa_policy acc) (report\<lparr>rr_Scanned := sa_scanned acc\<rparr>) = (None, r, evs)"
        and "finish_reconcile env (sa_previous acc) (sa_actual acc) ex r evs u = (res, t')" for ex r evs
    proof (rule finish_reconcile_typed [OF u(1) assms(4) acc(1) sub _ that(2)])
      show "rr_Generation r = t_generation u + 1" using reconcile_events_generation [OF that(1)] assms(5) u(3) by simp
    qed
    show ?thesis
      using assms(1,6) cp None sc s u(1) fin
      by (auto simp: reconcile_generic_def Let_def split: option.splits prod.splits sum.splits)
  qed
qed

lemma resumePending_typed:
  assumes "tracker_typed t" and "t_pending t = Some p" and "resumePending ctx started elapsed p t = ((r, err), t')"
  shows "tracker_typed t'" and "err = None \<Longrightarrow> t_pending t' = None"
proof -
  have w: "list_all (\<lambda>st. canonical (st_Path st)) (pg_puts p)" "list_all canonical (pg_deletes p)"
    using assms(1,2) by (auto simp: tracker_typed_def pending_typed_def writes_canonical_def)
  obtain e t1 where d: "deliverPending t = (e, t1)" by fastforce
  have t1: "tracker_typed t1" using typed_deliverPending [OF d] assms(1) by simp
  obtain e2 s where c: "commit_snapshot ctx (\<lambda>e. e) (\<lambda>_ e. e) (\<lambda>_ e. e) (t_store t1) (pg_puts p) (pg_deletes p) (t_snapshot t1) = (e2, s)"
    by fastforce
  note s = typed_commit [OF t1 w c]
  show "tracker_typed t'" and "err = None \<Longrightarrow> t_pending t' = None"
    using assms(3) d c t1 s by (cases e; cases e2; auto simp: resumePending_def typed_forget Let_def)+
qed

lemma resumePendingIntegrity_typed:
  assumes "tracker_typed t" and "resumePendingIntegrity t = ((r, err), t')"
  shows "tracker_typed t'" and "err = None \<Longrightarrow> t_pending t' = None"
  using assms by (auto simp: resumePendingIntegrity_def typed_forget split: option.splits prod.splits)

lemma reconcileScopes_typed:
  assumes "tracker_typed t" and "\<And>scope. names_ok (env_fs env scope)" and "range_ok env"
    and "reconcileScopes None env requested t = Some (res, t')"
  shows "tracker_typed t'"
proof -
  let ?rep = "\<lambda>u. zero_report\<lparr>rr_StartedAt := env_started env, rr_Generation := t_generation u + 1\<rparr>"
  let ?go = "\<lambda>u. reconcile_generic env (collapseScopes (t_root u) requested) (?rep u) (setState StateReconciling u)"
  have go: "tracker_typed t'" if "tracker_typed u" "?go u = Some (res, t')" for u
  proof (rule reconcile_generic_typed [OF _ _ assms(2,3) _ that(2)])
    show "list_all canonical (collapseScopes (t_root u) requested)"
      using that(1) by (simp add: collapseScopes_canonical tracker_typed_def)
  qed (use that(1) in simp_all)
  show ?thesis
  proof (cases "t_pending t")
    case None
    with assms(1,4) go [of t] show ?thesis by (auto simp: reconcileScopes_def Let_def split: if_splits)
  next
    case (Some p)
    obtain r e u where i: "resumePendingIntegrity t = ((r, e), u)" by (metis surj_pair)
    obtain r2 e2 u2 where f: "resumePending (env_ctx env) (env_started env) (env_elapsed env) p t = ((r2, e2), u2)" by (metis surj_pair)
    note resumed = resumePendingIntegrity_typed [OF assms(1) i] resumePending_typed [OF assms(1) Some f]
    show ?thesis
      using assms(1,4) Some i f go [of u] resumed by (cases e) (auto simp: reconcileScopes_def Let_def split: if_splits)
  qed
qed

text \<open>A scrub retains its own report only.\<close>

lemma scrub_callback_generation: "ig_Generation (sc_report (snd (scrub_callback env check ex limit staging entry acc))) = ig_Generation (sc_report acc)"
  by (auto simp: scrub_callback_def report_corrupt_def Let_def split: sum.split option.split)

lemma deliver_stage_typed:
  assumes "tracker_typed t" and "t_pending t = None" and "cf_ChangeSink (t_config t) \<noteq> None"
    and "ig_Generation (sc_report acc) = t_generation t + 1" and "deliver_stage env acc t = (err, t')"
  shows "tracker_typed t'"
proof -
  have "tracker_typed (t\<lparr>t_pending := Some (pending_integrity t (sc_report acc) (sc_allEvents acc))\<rparr>)"
    using assms(1,3,4) by (simp add: tracker_typed_def pending_typed_def pending_integrity_def writes_canonical_def)
  then have "tracker_typed (t\<lparr>t_sinkState := k, t_pending := Some (pending_integrity t (sc_report acc) (sc_allEvents acc))\<rparr>)" for k
    by (simp add: tracker_typed_def pending_typed_def)
  with assms(1,5) show ?thesis by (auto simp: deliver_stage_def Let_def split: option.splits prod.splits)
qed

lemma scrub_run_typed:
  assumes "tracker_typed t" and "t_pending t = None" and "names_ok (su_fs env)" and "scrub_run env check t = Some (res, t')"
  shows "tracker_typed t'"
proof -
  let ?staging = "cf_ChangeSink (t_config t) \<noteq> None"
  let ?r0 = "zero_integrity\<lparr>ig_StartedAt := su_started env, ig_Generation := t_generation t + 1\<rparr>"
  have gen: "ig_Generation (sc_report acc) = t_generation t + 1"
    if "Scan (tracker_scanner (t_config t)) (su_fs env) (su_ctx env (UseScan (t_root t))) (su_fuel env) (t_root t)
        (scrub_callback env check ex (cf_ReportEventLimit (t_config t)) ?staging) \<lparr>sc_report = ?r0, sc_allEvents = [], sc_stage = []\<rparr> =
        Some (e, acc)" for ex e acc
    by (rule Scan_invariant [where P = "\<lambda>a. ig_Generation (sc_report a) = t_generation t + 1", OF assms(3) _ _ _ that])
      (use assms(1) in \<open>simp_all add: tracker_typed_def scrub_callback_generation\<close>)
  have stage: "tracker_typed u"
    if "deliver_stage env (acc\<lparr>sc_report := (sc_report acc)\<lparr>ig_Duration := d\<rparr>\<rparr>) t = (e, u)" and "?staging"
      and "ig_Generation (sc_report acc) = t_generation t + 1" for acc d e u
    by (rule deliver_stage_typed [OF assms(1,2) that(2) _ that(1)]) (simp add: that(3))
  have keeps: "deliver_stage env acc t = (None, u) \<Longrightarrow> t_pending u = None" for acc u
    using deliver_stage_keeps(3) assms(2) by metis
  show ?thesis
    using assms(1,2,4) gen stage keeps
    by (auto simp: scrub_run_def Let_def split: if_splits option.splits sum.splits prod.splits)
qed

lemma Scrub_typed:
  assumes "tracker_typed t" and "names_ok (su_fs env)" and "Scrub env t = Some (res, t')"
  shows "tracker_typed t'"
proof (cases "t_pending t")
  case None
  with assms show ?thesis by (auto simp: Scrub_def split: option.splits if_splits intro: scrub_run_typed)
next
  case (Some p)
  obtain r e u where f: "resumePending (su_ctx env) (su_started env) (su_elapsed env) p t = ((r, e), u)" by (metis surj_pair)
  note resumed = resumePending_typed [OF assms(1) Some f]
  obtain r2 e2 u2 where i: "resumePendingIntegrity t = ((r2, e2), u2)" by (metis surj_pair)
  show ?thesis
    using assms Some f i resumed resumePendingIntegrity_typed(1) [OF assms(1) i] scrub_run_typed [OF resumed(1,2) assms(2)]
    by (cases e) (auto simp: Scrub_def split: option.splits if_splits)
qed

section \<open>The life of a tracker\<close>

text \<open>Calls on a tracker, in any order. Calls that hold \<open>reconcileMu\<close> do not overlap.\<close>

inductive client_step :: "(MemoryStore, 'k, 'b) Tracker \<Rightarrow> (MemoryStore, 'k, 'b) Tracker \<Rightarrow> bool" where
  reconcile: "(\<And>scope. names_ok (env_fs env scope)) \<Longrightarrow> range_ok env \<Longrightarrow>
    reconcileScopes None env requested t = Some (res, t') \<Longrightarrow> client_step t t'"
| scrub: "names_ok (su_fs senv) \<Longrightarrow> Scrub senv t = Some (sres, t') \<Longrightarrow> client_step t t'"
| mark_dirty: "client_step t (markDirty t)"
| backend_error: "client_step t (handleBackendError now err t)"
| stop: "client_step t (stopFromContext t)"
| close: "client_step t (closeChannels t)"

lemma client_step_typed: "client_step t t' \<Longrightarrow> tracker_typed t \<Longrightarrow> tracker_typed t'"
  by (induction rule: client_step.induct) (auto intro: reconcileScopes_typed Scrub_typed)

lemma client_steps_typed: "client_step\<^sup>*\<^sup>* t t' \<Longrightarrow> tracker_typed t \<Longrightarrow> tracker_typed t'"
  by (induction rule: rtranclp_induct) (auto intro: client_step_typed)

lemma New_typed:
  assumes "New random getwd (memory_store, NewMemoryStore) sink ops b config = Inr t" and "cf_Store config = None"
    and "\<And>wd. getwd = Inr wd \<Longrightarrow> IsAbs wd"
  shows "tracker_typed t"
proof -
  have "canonical (Clean r)" if "Abs_path getwd (cf_Root config) = Inr r" for r
    using that assms(3) by (intro canonical_Clean) (auto simp: Abs_path_def IsAbs_Clean IsAbs_Join split: if_splits sum.splits)
  with assms(1,2) show ?thesis
    by (auto simp: New_def Let_def tracker_typed_def store_ok_New with_defaults_def split: option.splits sum.splits if_splits)
qed

section \<open>Properties\<close>


definition ex_typed_config :: "(MemoryStore, unit) Config" where
  "ex_typed_config = \<lparr>cf_Root = ''/r'', cf_Recursive = True, cf_Expected = None, cf_ExpectedScope = ExpectedRegularFiles,
     cf_ChangeSink = Some (\<lambda>k b. (Some (ErrMsg ''down''), k)), cf_Integrity = Some ex_check, cf_Store = None, cf_Filter = None,
     cf_SymlinkPolicy = IgnoreSymlinks, cf_HardlinkPolicy = AllowHardlinks, cf_DebounceWindow = 1, cf_ReconcileInterval = 0,
     cf_EventBuffer = 4, cf_ReportEventLimit = 4, cf_ChangeBatchSize = 2\<rparr>"

definition ex_typed_tracker :: "(MemoryStore, unit, unit) Tracker" where
  "ex_typed_tracker = \<lparr>t_config = ex_typed_config\<lparr>cf_Store := Some (memory_store, NewMemoryStore)\<rparr>, t_root = ''/r'',
     t_store = memory_store, t_snapshot = NewMemoryStore, t_sinkState = (), t_state = StateCreated, t_started = False,
     t_closed = False, t_backendHealthy = False, t_sessionID = ''1fa0'', t_backendOps = ex_backend_ops, t_backend = (),
     t_watchTree = None, t_events = make_chan 4, t_errors = make_chan 16, t_channelsClosed = False, t_stats = zero_stats,
     t_generation = 0, t_pending = None, t_dirtyPending = False\<rparr>"

lemma ex_typed_new:
  "New (Inr [0x1F, 0xA0]) (Inr ''/w'') (memory_store, NewMemoryStore) () ex_backend_ops () ex_typed_config = Inr ex_typed_tracker"
proof -
  have v: "config_error ex_typed_config = None" "newSessionID (Inr [0x1F, 0xA0]) = Inr ''1fa0''"
    "Abs_path (Inr ''/w'') ''/r'' = Inr ''/r''" "Clean ''/r'' = ''/r''" by code_simp+
  then show ?thesis by (simp add: New_def ex_typed_tracker_def ex_typed_config_def with_defaults_def)
qed


end
