(* ===== verification/Command_Line.thy ===== *)
theory Command_Line
  imports Reconcile_Run
begin

text \<open>
  \<open>cmd/fsrecon/main.go\<close>: the command line front end. A process is what it wrote to its two streams,
  in order, and its exit code. \<open>reconcile\<close> runs on the environment of one reconciliation; \<open>watch\<close> is
  given the result of \<open>Start\<close> and the cases that its \<open>select\<close> took, since the goroutines behind them
  are the transition system of \<open>Tracker_Loop\<close>. The theory shows what a first run prints.
\<close>

section \<open>Formatting\<close>

text \<open>\<open>%-18s\<close>: the event kinds are ASCII, so the width counts bytes.\<close>

definition pad_right :: "nat \<Rightarrow> string \<Rightarrow> string" where
  "pad_right n s = s @ replicate (n - length s) CHR '' ''"

text \<open>
  \<open>time.Duration.String\<close>. A fraction has as many digits as the unit, without trailing zeros, and no
  point when nothing is left.
\<close>

definition fmt_frac :: "nat \<Rightarrow> nat \<Rightarrow> string" where
  "fmt_frac prec v =
     (let digits = fmt_nat 10 (v mod 10 ^ prec);
          padded = replicate (prec - length digits) CHR ''0'' @ digits;
          kept = rev (dropWhile (\<lambda>c. c = CHR ''0'') (rev padded))
      in if prec = 0 \<or> kept = [] then [] else CHR ''.'' # kept)"

definition Duration_String :: "int \<Rightarrow> string" where
  "Duration_String d =
     (let u = nat \<bar>d\<bar>;
          body =
            (if u = 0 then ''0s''
             else if u < 10 ^ 3 then fmt_nat 10 u @ ''ns''
             else if u < 10 ^ 6 then fmt_nat 10 (u div 10 ^ 3) @ fmt_frac 3 u @ [CHR 0xC2, CHR 0xB5, CHR ''s'']
             else if u < 10 ^ 9 then fmt_nat 10 (u div 10 ^ 6) @ fmt_frac 6 u @ ''ms''
             else
               let seconds = u div 10 ^ 9; minutes = seconds div 60; hours = minutes div 60 in
               (if hours > 0 then fmt_nat 10 hours @ ''h'' else []) @
               (if minutes > 0 then fmt_nat 10 (minutes mod 60) @ ''m'' else []) @
               fmt_nat 10 (seconds mod 60) @ fmt_frac 9 u @ ''s'')
      in if d < 0 then CHR ''-'' # body else body)"

section \<open>The process\<close>

datatype stream = Stdout | Stderr

record process =
  px_writes :: "(stream \<times> string) list"
  px_exit :: int

definition newline :: string where
  "newline = [CHR 0x0A]"

definition usage :: process where
  "usage = \<lparr>px_writes = [(Stderr, ''usage: fsrecon <watch|reconcile> ROOT'' @ newline)], px_exit = 2\<rparr>"

definition fail :: "GoError \<Rightarrow> process" where
  "fail err = \<lparr>px_writes = [(Stderr, error_text err @ newline)], px_exit = 1\<rparr>"

definition printEvent :: "Event \<Rightarrow> stream \<times> string" where
  "printEvent event =
     (Stdout,
      (if ev_OldPath event \<noteq> []
       then pad_right 18 (EventKind_String (ev_Kind event)) @ '' '' @ ev_OldPath event @ '' -> '' @ ev_Path event @ newline
       else pad_right 18 (EventKind_String (ev_Kind event)) @ '' '' @ ev_Path event @ newline))"

text \<open>The configuration of both commands: the other fields have their zero values.\<close>

definition cli_config :: "string \<Rightarrow> (MemoryStore, unit) Config" where
  "cli_config root = \<lparr>cf_Root = root, cf_Recursive = True, cf_Expected = None, cf_ExpectedScope = ExpectedRegularFiles,
     cf_ChangeSink = None, cf_Integrity = None, cf_Store = None, cf_Filter = None, cf_SymlinkPolicy = IgnoreSymlinks,
     cf_HardlinkPolicy = AllowHardlinks, cf_DebounceWindow = 0, cf_ReconcileInterval = 0, cf_EventBuffer = 0,
     cf_ReportEventLimit = 0, cf_ChangeBatchSize = 0\<rparr>"

definition cli_tracker ::
  "GoError + 8 word list \<Rightarrow> GoError + string \<Rightarrow> 'b WatchBackend \<Rightarrow> 'b \<Rightarrow> string \<Rightarrow> GoError + (MemoryStore, unit, 'b) Tracker" where
  "cli_tracker random getwd ops b root = New random getwd (memory_store, NewMemoryStore) () ops b (cli_config root)"

definition summary_line :: "ReconcileReport \<Rightarrow> string" where
  "summary_line report =
     ''Scanned: '' @ fmt_d (rr_Scanned report) @ ''  Healthy: '' @ fmt_d (rr_Healthy report) @
     ''  Missing: '' @ fmt_d (rr_Missing report) @ ''  Orphan: '' @ fmt_d (rr_Orphan report) @
     ''  Duration: '' @ Duration_String (rr_Duration report) @ newline"

definition cli_reconcile ::
  "GoError + 8 word list \<Rightarrow> GoError + string \<Rightarrow> 'b WatchBackend \<Rightarrow> 'b \<Rightarrow> Env \<Rightarrow> string \<Rightarrow> process option" where
  "cli_reconcile random getwd ops b env root =
     (case cli_tracker random getwd ops b root of
        Inl err \<Rightarrow> Some (fail err)
      | Inr tracker \<Rightarrow>
     (case Reconcile None env tracker of
        None \<Rightarrow> None
      | Some ((report, Some err), _) \<Rightarrow> Some (fail err)
      | Some ((report, None), _) \<Rightarrow>
          Some \<lparr>px_writes = map printEvent (rr_Events report) @ [(Stdout, summary_line report)] @
                  (if rr_EventsTruncated report > 0
                   then [(Stdout, ''Event details truncated: '' @ fmt_d (rr_EventsTruncated report) @ newline)] else []),
                px_exit = 0\<rparr>))"

text \<open>A case of the \<open>select\<close> in \<open>watch\<close>; \<open>None\<close> is what a receive from a closed channel gives.\<close>

datatype received = RecvEvent "Event option" | RecvError "GoError option" | RecvDone

fun watch_loop :: "received list \<Rightarrow> (stream \<times> string) list" where
  "watch_loop [] = []"
| "watch_loop (RecvEvent None # rs) = []"
| "watch_loop (RecvEvent (Some event) # rs) = printEvent event # watch_loop rs"
| "watch_loop (RecvError None # rs) = watch_loop rs"
| "watch_loop (RecvError (Some err) # rs) = (Stderr, error_text err @ newline) # watch_loop rs"
| "watch_loop (RecvDone # rs) = []"

definition cli_watch ::
  "GoError + 8 word list \<Rightarrow> GoError + string \<Rightarrow> 'b WatchBackend \<Rightarrow> 'b \<Rightarrow>
   ((MemoryStore, unit, 'b) Tracker \<Rightarrow> GoError option) \<Rightarrow> received list \<Rightarrow> string \<Rightarrow> process" where
  "cli_watch random getwd ops b start rs root =
     (case cli_tracker random getwd ops b root of
        Inl err \<Rightarrow> fail err
      | Inr tracker \<Rightarrow>
          (case start tracker of
             Some err \<Rightarrow> fail err
           | None \<Rightarrow> \<lparr>px_writes = watch_loop rs, px_exit = 0\<rparr>))"

definition cli_main ::
  "GoError + 8 word list \<Rightarrow> GoError + string \<Rightarrow> 'b WatchBackend \<Rightarrow> 'b \<Rightarrow> Env \<Rightarrow>
   ((MemoryStore, unit, 'b) Tracker \<Rightarrow> GoError option) \<Rightarrow> received list \<Rightarrow> string list \<Rightarrow> process option" where
  "cli_main random getwd ops b env start rs args =
     (if length args \<noteq> 3 then Some usage
      else if args ! 1 = ''reconcile'' then cli_reconcile random getwd ops b env (args ! 2)
      else if args ! 1 = ''watch'' then Some (cli_watch random getwd ops b start rs (args ! 2))
      else Some usage)"

section \<open>A first run\<close>

text \<open>Without watches and with the hard links allowed, the callback of the scan accepts every entry.\<close>

lemma fresh_callbacks:
  assumes "cf_HardlinkPolicy config = AllowHardlinks" and "sa_tree acc = None"
  shows "\<exists>acc'. for_each (scan_callback env config ops) es acc = (None, acc') \<and> sa_policy acc' = sa_policy acc \<and> sa_tree acc' = None"
  using assms(2)
proof (induction es arbitrary: acc)
  case (Cons e es)
  have "\<exists>a. observe_directory config ops (stateFromEntry e) acc = (None, a) \<and> sa_policy a = sa_policy acc \<and> sa_tree a = None"
    using Cons.prems by (auto simp: observe_directory_def)
  then obtain a where a: "observe_directory config ops (stateFromEntry e) acc = (None, a)" "sa_policy a = sa_policy acc" "sa_tree a = None"
    by blast
  then have "scan_callback env config ops e acc = (None, record_actual (stateFromEntry e) a)"
    using assms(1) by (simp add: scan_callback_def Let_def)
  with Cons.IH [of "record_actual (stateFromEntry e) a"] a show ?case by (simp add: record_actual_def)
qed simp

lemma diff_common_fresh: "diff_common [] actual paths remPrev remAct = ([], remPrev, remAct)"
  by (induction paths) simp_all

lemma diff_moves_fresh: "diff_moves [] actualIDs ids remPrev remAct = ([], remPrev, remAct)"
  by (induction ids) simp_all

lemma diff_changes_fresh:
  assumes "gomap_ok actual"
  shows "diff_changes [] actual None eligible =
    map (\<lambda>path. change Created path [] None (Some (lookup_state actual path))) (sortedKeys actual)"
proof -
  have "indexUniqueIDs [] = []" "clone [] = []" "sortedKeys ([] :: State gomap) = []"
    by (simp_all add: indexUniqueIDs_def clone_def sortedKeys_def)
  then show ?thesis using assms by (simp add: diff_changes_def diff_common_fresh diff_moves_fresh clone_eq Let_def)
qed

lemma change_events_created:
  "map (\<lambda>e. (ev_Kind e, ev_Path e, ev_OldPath e)) (change_events env n (map (\<lambda>p. change Created p [] None (f p)) ps)) =
   map (\<lambda>p. (EventCreated, p, [])) ps"
  by (induction ps arbitrary: n) (simp_all add: eventFromChange_def change_def)

text \<open>A tracker as \<open>New\<close> makes it for the command line.\<close>

definition cli_fresh :: "(MemoryStore, unit, 'b) Tracker \<Rightarrow> bool" where
  "cli_fresh t = (canonical (t_root t) \<and> \<not> t_closed t \<and> t_pending t = None \<and> t_store t = memory_store \<and>
     t_snapshot t = NewMemoryStore \<and> t_watchTree t = None \<and> cf_Expected (t_config t) = None \<and> cf_ChangeSink (t_config t) = None \<and>
     cf_SymlinkPolicy (t_config t) = IgnoreSymlinks \<and> cf_HardlinkPolicy (t_config t) = AllowHardlinks \<and>
     cf_ReportEventLimit (t_config t) = defaultReportEventLimit)"

lemma cli_tracker_fresh:
  assumes "cli_tracker random getwd ops b root = Inr t" and "\<And>wd. getwd = Inr wd \<Longrightarrow> IsAbs wd"
  shows "cli_fresh t"
proof -
  note new = assms(1) [unfolded cli_tracker_def]
  obtain sid r where ok: "config_error (cli_config root) = None" "newSessionID random = Inr sid" "Abs_path getwd root = Inr r"
    using new by (cases "config_error (cli_config root)"; cases "newSessionID random"; cases "Abs_path getwd root")
      (simp_all add: New_def cli_config_def)
  have "IsAbs r" using ok(3) assms(2) by (auto simp: Abs_path_def IsAbs_Clean IsAbs_Join split: if_splits sum.splits)
  then have "canonical (Clean r)" by (rule canonical_Clean)
  with new ok show ?thesis by (auto simp: New_def cli_config_def cli_fresh_def with_defaults_def Let_def)
qed

text \<open>The events of a first run: one creation per entry, in the order of the paths.\<close>

lemma fresh_events:
  fixes es :: "Entry list"
  assumes "distinct (map en_Path es)"
  obtains evs where "reconcile_events env config [] (map (\<lambda>e. (en_Path e, stateFromEntry e)) es) None [] report =
      (None, fold (report_event (cf_ReportEventLimit config)) evs report, evs)"
    and "map (\<lambda>e. (ev_Kind e, ev_Path e, ev_OldPath e)) evs = map (\<lambda>p. (EventCreated, p, [])) (sort (map en_Path es))"
proof -
  let ?A = "map (\<lambda>e. (en_Path e, stateFromEntry e)) es"
  have A: "gomap_ok ?A" using assms by (simp add: comp_def)
  then have B: "gomap_ok (toInternalStates ?A)" using assms by (simp add: toInternalStates_eq comp_def)
  have keys: "sortedKeys (toInternalStates ?A) = sort (map en_Path es)"
    by (simp add: toInternalStates_eq [OF A] sortedKeys_def comp_def)
  let ?f = "\<lambda>path. Some (lookup_state (toInternalStates ?A) path)"
  let ?chs = "map (\<lambda>path. change Created path [] None (?f path)) (sort (map en_Path es))"
  have d: "diff_changes (toInternalStates []) (toInternalStates ?A) None el = ?chs" for el
    using diff_changes_fresh [OF B] keys by (simp add: toInternalStates_def)
  have "for_each (emit_change env config) ?chs (report, []) =
      (None, fold (report_event (cf_ReportEventLimit config)) (change_events env 0 ?chs) report, change_events env 0 ?chs)"
    by (subst conjunct1 [OF for_each_emit_change]) (auto simp: change_def)
  then have "reconcile_events env config [] ?A None [] report =
      (None, fold (report_event (cf_ReportEventLimit config)) (change_events env 0 ?chs) report, change_events env 0 ?chs)"
    by (simp add: reconcile_events_def WalkDiffScoped_def d)
  then show ?thesis by (rule that) (rule change_events_created)
qed

lemma fresh_scan:
  assumes "cli_fresh t" and "env_lstat env (t_root t) = Inr dir" and "IsDir (fi_Mode dir)"
    and "Scan (tracker_scanner (t_config t)) (env_fs env (t_root t)) (env_ctx env (UseScan (t_root t))) (env_fuel env)
      (t_root t) log_entry [] = Some (None, es)"
    and "distinct (map en_Path es)"
  obtains acc where "scan_scopes env t [t_root t] [] = Some (None, acc)" and "sa_previous acc = []"
    and "sa_actual acc = map (\<lambda>e. (en_Path e, stateFromEntry e)) es" and "sa_policy acc = []" and "sa_tree acc = None"
    and "sa_scanned acc = of_nat (length es)"
proof -
  let ?a = "\<lparr>sa_previous = [], sa_actual = [], sa_policy = [], sa_observed = AList.update (t_root t) () [(t_root t, ())],
        sa_tree = t_watchTree t, sa_backend = t_backend t, sa_scanned = 0\<rparr>"
  let ?cb = "scan_callback env (t_config t) (t_backendOps t)"
  obtain acc where f: "for_each ?cb es ?a = (None, acc)" "sa_policy acc = []" "sa_tree acc = None"
    using fresh_callbacks [of "t_config t" ?a env "t_backendOps t" es] assms(1) by (auto simp: cli_fresh_def)
  have "scan_scopes env t [t_root t] [] = Some (None, acc)"
    using assms(2,3) Scan_for_each [OF assms(4), of ?cb ?a] f(1) by (simp add: scan_scopes_def scan_scope_def Let_def)
  moreover from for_each_scan_callback [OF f(1)] have "sa_previous acc = []" "sa_scanned acc = of_nat (length es)"
    "sa_actual acc = map (\<lambda>e. (en_Path e, stateFromEntry e)) es" using fold_entries [OF assms(5)] by simp_all
  ultimately show ?thesis using f(2,3) that by blast
qed

lemma collect_previous_fresh:
  assumes "cli_fresh t" and "env_ctx env = (\<lambda>_. background)"
  shows "collect_previous env t [scope] = (None, [])"
proof -
  have find: "node_find parts (PNode False [] []) = Some node \<Longrightarrow> node = PNode False [] []" for parts node by (cases parts) simp_all
  have "scope_states NewMemoryStore scope = []"
    by (auto simp: scope_states_def NewMemoryStore_def empty_node_def dest!: find split: option.split)
  with assms show ?thesis
    by (simp add: collect_previous_def walkSnapshotScope_def cli_fresh_def memory_store_def ms_WalkScope_def)
qed

lemma finish_fresh:
  assumes "cli_fresh t" and "env_ctx env = (\<lambda>_. background)" and "healthy_count actual None report = h"
  shows "\<exists>t'. finish_reconcile env previous actual None report evs t =
    ((report\<lparr>rr_Healthy := h, rr_Duration := env_elapsed env\<rparr>, None), t')"
  using assms by (simp add: finish_reconcile_def cli_fresh_def commit_snapshot_def memory_store_def ms_Apply_def Let_def)

lemma created_counts:
  fixes l :: int
  assumes "map (\<lambda>e. (ev_Kind e, ev_Path e, ev_OldPath e)) evs = map (\<lambda>p. (EventCreated, p, [])) ps"
  shows "length evs = length ps" and "rr_Created (fold (report_event l) evs r) = rr_Created r + of_nat (length ps)"
    and "rr_Modified (fold (report_event l) evs r) = rr_Modified r" and "rr_Replaced (fold (report_event l) evs r) = rr_Replaced r"
    and "rr_Missing (fold (report_event l) evs r) = rr_Missing r" and "rr_Orphan (fold (report_event l) evs r) = rr_Orphan r"
    and "map printEvent evs = map (\<lambda>p. (Stdout, ''CREATED            '' @ p @ newline)) ps"
proof -
  show len: "length evs = length ps" using arg_cong [OF assms, of length] by simp
  have nth: "ev_Kind (evs ! i) = EventCreated" "ev_Path (evs ! i) = ps ! i" "ev_OldPath (evs ! i) = []" if "i < length evs" for i
    using arg_cong [OF assms, of "\<lambda>xs. xs ! i"] that len by (simp_all add: nth_map)
  have kinds: "kind_count K evs = (if EventCreated \<in> K then of_nat (length ps) else 0)" for K
  proof -
    have "ev_Kind e = EventCreated" if "e \<in> set evs" for e using that nth(1) by (auto simp: in_set_conv_nth)
    then have "filter (\<lambda>e. ev_Kind e \<in> K) evs = (if EventCreated \<in> K then evs else [])"
      by (auto simp: filter_id_conv filter_empty_conv)
    then show ?thesis by (simp add: kind_count_def len)
  qed
  show "rr_Created (fold (report_event l) evs r) = rr_Created r + of_nat (length ps)"
    and "rr_Modified (fold (report_event l) evs r) = rr_Modified r" and "rr_Replaced (fold (report_event l) evs r) = rr_Replaced r"
    and "rr_Missing (fold (report_event l) evs r) = rr_Missing r" and "rr_Orphan (fold (report_event l) evs r) = rr_Orphan r"
    by (simp_all add: report_events_counts kinds)
  show "map printEvent evs = map (\<lambda>p. (Stdout, ''CREATED            '' @ p @ newline)) ps"
    using nth len by (intro nth_equalityI) (simp_all add: printEvent_def pad_right_def numeral_eq_Suc)
qed

text \<open>The report of a first run.\<close>

lemma first_run:
  assumes "cli_fresh t" and "env_ctx env = (\<lambda>_. background)" and "names_ok (env_fs env (t_root t))"
    and "env_lstat env (t_root t) = Inr dir" and "IsDir (fi_Mode dir)"
    and "fs_Lstat (env_fs env (t_root t)) (t_root t) = Inr info" and "IsDir (fi_Mode info)" and "\<not> IsSymlink (fi_Mode info)"
    and "Scan (tracker_scanner (t_config t)) (env_fs env (t_root t)) background (env_fuel env) (t_root t) log_entry [] = Some (None, es)"
  obtains evs t' where "Reconcile None env t =
      Some (((fold (report_event defaultReportEventLimit) evs
         (zero_report\<lparr>rr_StartedAt := env_started env, rr_Generation := t_generation t + 1, rr_Scanned := of_nat (length es)\<rparr>))
         \<lparr>rr_Healthy := 0, rr_Duration := env_elapsed env\<rparr>, None), t')"
    and "map (\<lambda>e. (ev_Kind e, ev_Path e, ev_OldPath e)) evs = map (\<lambda>p. (EventCreated, p, [])) (sort (map en_Path es))"
proof -
  let ?u = "setState StateReconciling t" and ?A = "map (\<lambda>e. (en_Path e, stateFromEntry e)) es"
  let ?rep = "zero_report\<lparr>rr_StartedAt := env_started env, rr_Generation := t_generation t + 1\<rparr>"
  have root: "canonical (t_root t)" "Clean (t_root t) = t_root t" using assms(1) by (simp_all add: cli_fresh_def Clean_canonical)
  have fresh: "cli_fresh ?u" using assms(1) by (simp add: cli_fresh_def setState_def)
  have nf: "sc_SymlinkPolicy (tracker_scanner (t_config t)) \<noteq> ScanFollowSymlinks"
    using assms(1) by (simp add: tracker_scanner_def scannerPolicy_def cli_fresh_def)
  have dist: "distinct (map en_Path es)"
    using Scan_entries(2) [OF assms(3) canonical_IsAbs [OF root(1)] nf _ assms(7-9)] root(2) assms(6) by simp
  have u: "t_root ?u = t_root t" "t_config ?u = t_config t" by simp_all
  have scan: "Scan (tracker_scanner (t_config ?u)) (env_fs env (t_root ?u)) (env_ctx env (UseScan (t_root ?u))) (env_fuel env)
      (t_root ?u) log_entry [] = Some (None, es)" using assms(2,9) by simp
  obtain acc where acc: "scan_scopes env ?u [t_root t] [] = Some (None, acc)" "sa_previous acc = []" "sa_actual acc = ?A"
      "sa_policy acc = []" "sa_tree acc = None" "sa_scanned acc = of_nat (length es)"
    by (rule fresh_scan [OF fresh, unfolded u, OF assms(4,5) scan [unfolded u] dist])
  obtain evs where ev: "reconcile_events env (t_config t) [] ?A None [] (?rep\<lparr>rr_Scanned := of_nat (length es)\<rparr>) =
      (None, fold (report_event (cf_ReportEventLimit (t_config t))) evs (?rep\<lparr>rr_Scanned := of_nat (length es)\<rparr>), evs)"
    and evs: "map (\<lambda>e. (ev_Kind e, ev_Path e, ev_OldPath e)) evs = map (\<lambda>p. (EventCreated, p, [])) (sort (map en_Path es))"
    by (rule fresh_events [OF dist])
  have start: "Reconcile None env t = reconcile_generic env [t_root t] ?rep ?u"
    using assms(1) by (simp add: Reconcile_def reconcileScopes_def collapseScopes_canonical_root root(1) cli_fresh_def Let_def)
  let ?w = "?u\<lparr>t_watchTree := None, t_backend := sa_backend acc\<rparr>"
  let ?r = "fold (report_event (cf_ReportEventLimit (t_config t))) evs (?rep\<lparr>rr_Scanned := of_nat (length es)\<rparr>)"
  have w: "cli_fresh ?w" using fresh by (simp add: cli_fresh_def)
  have "healthy_count ?A None ?r = 0"
    using created_counts(2-4) [OF evs, of "cf_ReportEventLimit (t_config t)"] by (simp add: healthy_count_def zero_report_def)
  then obtain t' where fin: "finish_reconcile env [] ?A None ?r evs ?w =
      ((?r\<lparr>rr_Healthy := 0, rr_Duration := env_elapsed env\<rparr>, None), t')" using finish_fresh [OF w assms(2)] by blast
  have "cf_Expected (t_config t) = None" "cf_ReportEventLimit (t_config t) = defaultReportEventLimit"
    using assms(1) by (simp_all add: cli_fresh_def)
  with start collect_previous_fresh [OF fresh assms(2), of "t_root t"] acc ev fin
  have "Reconcile None env t = Some ((?r\<lparr>rr_Healthy := 0, rr_Duration := env_elapsed env\<rparr>, None), t')"
    by (simp add: reconcile_generic_def sync_watches_def loadExpectedScopes_def Let_def)
  with \<open>cf_ReportEventLimit (t_config t) = defaultReportEventLimit\<close> evs show ?thesis by (intro that) simp_all
qed

section \<open>Properties\<close>

text \<open>C15: \<open>fsrecon reconcile ROOT\<close> lists the tree. When the root is a directory that can be scanned, the
  process exits with code 0; it prints one CREATED line for every file system entry below the root that is
  not a symbolic link, in byte order of the paths and at most 10000 of them, then the summary with the
  number of entries and no healthy, missing or orphaned one, since nothing was recorded before, and,
  exactly when there are more than 10000 entries, the number of those that are not listed.\<close>

theorem cli_reconcile_lists_tree:
  assumes "cli_tracker random getwd ops b root = Inr t" and "\<And>wd. getwd = Inr wd \<Longrightarrow> IsAbs wd"
    and "env_ctx env = (\<lambda>_. background)" and "names_ok (env_fs env (t_root t))"
    and "env_lstat env (t_root t) = Inr dir" and "IsDir (fi_Mode dir)"
    and "fs_Lstat (env_fs env (t_root t)) (t_root t) = Inr info" and "IsDir (fi_Mode info)" and "\<not> IsSymlink (fi_Mode info)"
    and "Scan (tracker_scanner (t_config t)) (env_fs env (t_root t)) background (env_fuel env) (t_root t) log_entry [] = Some (None, es)"
    and "length es < 2 ^ 64"
  shows "set es = {e. scanned (tracker_scanner (t_config t)) (env_fs env (t_root t)) (t_root t) e} \<and> distinct (map en_Path es) \<and>
    cli_main random getwd ops b env start rs [prog, ''reconcile'', root] =
      Some \<lparr>px_writes =
          map (\<lambda>p. (Stdout, ''CREATED            '' @ p @ newline)) (take 10000 (sort (map en_Path es))) @
          [(Stdout, ''Scanned: '' @ fmt_nat 10 (length es) @ ''  Healthy: 0  Missing: 0  Orphan: 0  Duration: '' @
             Duration_String (env_elapsed env) @ newline)] @
          (if 10000 < length es
           then [(Stdout, ''Event details truncated: '' @ fmt_nat 10 (length es - 10000) @ newline)] else []),
        px_exit = 0\<rparr>"
proof -
  let ?rep = "zero_report\<lparr>rr_StartedAt := env_started env, rr_Generation := t_generation t + 1, rr_Scanned := of_nat (length es)\<rparr>"
  let ?r = "\<lambda>evs. fold (report_event defaultReportEventLimit) evs ?rep"
  have fresh: "cli_fresh t" by (rule cli_tracker_fresh [OF assms(1,2)])
  then have root: "canonical (t_root t)" "Clean (t_root t) = t_root t" and nf: "sc_SymlinkPolicy (tracker_scanner (t_config t)) \<noteq> ScanFollowSymlinks"
    by (simp_all add: cli_fresh_def Clean_canonical tracker_scanner_def scannerPolicy_def)
  note es = Scan_entries [OF assms(4) canonical_IsAbs [OF root(1)] nf _ assms(8-10), unfolded root(2), OF assms(7)]
  obtain evs t' where run: "Reconcile None env t = Some (((?r evs)\<lparr>rr_Healthy := 0, rr_Duration := env_elapsed env\<rparr>, None), t')"
    and evs: "map (\<lambda>e. (ev_Kind e, ev_Path e, ev_OldPath e)) evs = map (\<lambda>p. (EventCreated, p, [])) (sort (map en_Path es))"
    by (rule first_run [OF fresh assms(3-10)])
  note c = created_counts [OF evs]
  have scanned: "rr_Scanned (fold (report_event l) evs r) = rr_Scanned r" for l evs r
    by (induction evs arbitrary: r) simp_all
  define k where "k = length es - 10000"
  have trunc: "rr_EventsTruncated (?r evs) = of_nat k" "rr_Events (?r evs) = take 10000 evs"
    using report_events_bounded [of defaultReportEventLimit ?rep evs] c(1) by (simp_all add: defaultReportEventLimit_def zero_report_def k_def)
  have small: "unat (of_nat n :: 64 word) = n" if "n \<le> length es" for n
    using that assms(11) by (simp add: unat_of_nat take_bit_nat_eq_self)
  then have k: "unat (of_nat k :: 64 word) = k" by (simp add: k_def)
  then have pos: "(of_nat k :: 64 word) > 0 \<longleftrightarrow> 10000 < length es" by (simp add: word_less_nat_alt) (simp add: k_def)
  have "map printEvent (take 10000 evs) = map (\<lambda>p. (Stdout, ''CREATED            '' @ p @ newline)) (take 10000 (sort (map en_Path es)))"
    by (simp only: take_map [symmetric] c(7))
  moreover have "fmt_nat 10 0 = ''0''" by code_simp
  ultimately show ?thesis
    using run es(1,2) assms(1) small [of "length es"] k pos trunc c(5,6)
    unfolding k_def [symmetric] by (simp add: cli_main_def cli_reconcile_def summary_line_def scanned zero_report_def)
qed

definition ex_cli_tracker :: "(MemoryStore, unit, unit) Tracker" where
  "ex_cli_tracker = (case cli_tracker (Inr [7]) (Inr ''/w'') ex_backend_ops () ''/r'' of Inr t \<Rightarrow> t)"

lemma ex_cli_new: "cli_tracker (Inr [7]) (Inr ''/w'') ex_backend_ops () ''/r'' = Inr ex_cli_tracker"
proof -
  have "case cli_tracker (Inr [7]) (Inr ''/w'') ex_backend_ops () ''/r'' of Inl _ \<Rightarrow> False | Inr _ \<Rightarrow> True" by code_simp
  then show ?thesis by (auto simp: ex_cli_tracker_def split: sum.splits)
qed

theorem cli_reconcile_lists_tree_witness:
  "cli_main (Inr [7]) (Inr ''/w'') ex_backend_ops () (ex_env ex_fs) (\<lambda>_. None) [] [''fsrecon'', ''reconcile'', ''/r''] =
   Some \<lparr>px_writes = [(Stdout, ''CREATED            /r/a'' @ newline), (Stdout, ''CREATED            /r/d'' @ newline),
       (Stdout, ''CREATED            /r/d/b'' @ newline),
       (Stdout, ''Scanned: 3  Healthy: 0  Missing: 0  Orphan: 0  Duration: 0s'' @ newline)], px_exit = 0\<rparr>"
proof -
  let ?t = ex_cli_tracker and ?env = "ex_env ex_fs"
  have wd: "(Inr ''/w'' :: GoError + string) = Inr wd \<Longrightarrow> IsAbs wd" for wd by (auto simp: IsAbs_def)
  have r: "t_root ?t = ''/r''" by code_simp
  have modes: "IsDir (fi_Mode (ex_info 0x80000000 1))" "\<not> IsSymlink (fi_Mode (ex_info 0x80000000 1))" by code_simp+
  have lst: "env_lstat ?env (t_root ?t) = Inr (ex_info 0x80000000 1)" "fs_Lstat (env_fs ?env (t_root ?t)) (t_root ?t) = Inr (ex_info 0x80000000 1)"
    by (simp_all add: r ex_env_def ex_fs_def)
  have "map_option (\<lambda>(err, es). (err, map en_Path es)) (Scan (tracker_scanner (t_config ?t)) (env_fs ?env (t_root ?t)) background
      (env_fuel ?env) (t_root ?t) log_entry []) = Some (None, [''/r/a'', ''/r/d'', ''/r/d/b''])" by code_simp
  then obtain es where es: "Scan (tracker_scanner (t_config ?t)) (env_fs ?env (t_root ?t)) background (env_fuel ?env) (t_root ?t) log_entry [] =
      Some (None, es)" and p: "map en_Path es = [''/r/a'', ''/r/d'', ''/r/d/b'']" by auto
  have n: "length es = 3" using arg_cong [OF p, of length] by simp
  have ctx: "env_ctx ?env = (\<lambda>_. background)" "names_ok (env_fs ?env (t_root ?t))" using ex_names_ok by (simp_all add: ex_env_def)
  have "length es < 2 ^ 64" by (simp add: n)
  note run = cli_reconcile_lists_tree [OF ex_cli_new wd ctx lst(1) modes(1) lst(2) modes es this,
      where start = "\<lambda>_. None" and rs = "[]" and prog = "''fsrecon''"]
  have v: "sort [''/r/a'', ''/r/d'', ''/r/d/b''] = [''/r/a'', ''/r/d'', ''/r/d/b'']" "fmt_nat 10 3 = ''3''"
    "env_elapsed ?env = 0" by code_simp+
  show ?thesis using run unfolding p n v by (simp add: Duration_String_def take_Cons')
qed

end
