(* ===== verification/Spec2Isabelle.thy ===== *)
theory Spec2Isabelle
  imports Observer_Run Tracker_Hints Windows_Identity Snapshot_Types Command_Line
begin

text \<open>
  A verification of fsrecon, a Go library that keeps a snapshot of a directory tree, reconciles it with
  the file system and reports what changed. The theories follow the packages of the repository.

  \<^bold>\<open>The program.\<close> A \<^emph>\<open>tracker\<close> (\<open>tracker.go\<close>) receives raw events from the native backend
  (\<open>internal/backend/fsnotify\<close>), reduces each to the directory that has to be looked at
  (\<open>internal/normalize\<close>), collects these in a trie of dirty subtrees (\<open>internal/dirtyset\<close>) and wakes a
  worker after a quiet period (\<open>internal/debounce\<close>). The worker drains the trie and reconciles the
  subtrees (\<open>reconcile.go\<close>): it scans them (\<open>internal/scanner\<close>), keeps the native watches in step
  (\<open>internal/watchtree\<close>), loads the expected state (\<open>expected.go\<close>), computes the semantic difference
  to the snapshot (\<open>internal/reconcile\<close>), delivers it in batches to a sink (\<open>delivery.go\<close>) and commits the
  snapshot (\<open>store.go\<close>, \<open>bolt_store.go\<close>; \<open>reconcile_bolt.go\<close> is the out-of-core variant). A generation whose
  delivery or commit failed is retained and replayed. \<open>Scrub\<close> (\<open>integrity.go\<close>) checks contents. An
  \<^emph>\<open>observer\<close> (\<open>observer.go\<close>) is the stateless alternative, a bounded queue of invalidation hints.
  \<open>cmd/fsrecon\<close> is the command line front end.

  \<^bold>\<open>Foundations.\<close>
  \<^item> \<open>Fsr_Prelude\<close>: Go errors and their wrapping, number and quoted text, maps, contexts, \<open>for range\<close> with
    early return; the collections and lemmas that the components share.
  \<^item> \<open>Go_Path\<close>: \<open>path/filepath\<close> on Unix, the canonical paths and their parts.
  \<^item> \<open>Core_Types\<close>: \<open>state.go\<close>, \<open>event.go\<close>, \<open>report.go\<close>, \<open>config.go\<close>, \<open>expected.go\<close>, \<open>errors.go\<close>, \<open>pending.go\<close>.

  \<^bold>\<open>Scopes.\<close>
  \<^item> \<open>Scope_Set\<close>: the specification of a minimal set of subtrees and the locale \<open>scope_collector\<close> of its
    implementations.
  \<^item> \<open>Dirty_Set\<close> (\<open>internal/dirtyset\<close>, interpretation \<open>dirty\<close>): \<open>Add\<close>, \<open>Len\<close> and \<open>Drain\<close> give the minimal
    subtrees, in order, for every order of the calls, and cover every path that was added.
  \<^item> \<open>Scope_Collapse\<close> (\<open>collapseScopes\<close>, interpretation \<open>collapse\<close>): the same for a list of requests.

  \<^bold>\<open>Snapshots.\<close>
  \<^item> \<open>Snapshot_Spec\<close>: the interface \<open>SnapshotStore\<close>, with the locales \<open>snapshot_kv\<close> (a store is a map;
    batches) and \<open>scoped_snapshot\<close> (the walk of a subtree), which extends it.
  \<^item> \<open>Memory_Store\<close> (\<open>store.go\<close>, interpretation \<open>memory\<close>): every method; it refines a map.
  \<^item> \<open>Staged_Events\<close>: the stored form of states and events and its round trip.
  \<^item> \<open>Bolt_Store\<close>, \<open>Bolt_Contract\<close> (\<open>bolt_store.go\<close>, interpretation \<open>mem_bolt\<close> on a bbolt that is a map):
    every method; the store refines a durable map, and its walk reads a run of keys.

  \<^bold>\<open>One reconciliation.\<close>
  \<^item> \<open>Semantic_Diff\<close> (\<open>internal/reconcile\<close>): the changes are exactly those of a declarative
    specification, each once, whatever the order of the maps, and replaying them gives the new state.
  \<^item> \<open>Watch_Tree\<close>, \<open>Backend_Events\<close>, \<open>Scanner_Walk\<close>, \<open>Windows_Identity\<close> (\<open>internal/watchtree\<close>,
    \<open>internal/backend\<close>, \<open>internal/normalize\<close>, \<open>internal/scanner\<close>): watches are removed exactly and
    children first; a scan visits exactly the visible entries and returns, link cycles included.
  \<^item> \<open>Event_Conversion\<close>, \<open>Delivery\<close>, \<open>Expected_Load\<close>, \<open>Pending_Resume\<close>: conversions and counters, the
    batches of a generation, the expected state, and the retained generation with its replay.
  \<^item> \<open>Tracker_State\<close>: \<open>New\<close> and the operations of \<open>tracker.go\<close> on state, channels and counters.
  \<^item> \<open>Reconcile_Run\<close>: \<open>reconcileScopes\<close>. A successful run makes the snapshot the scanned tree, a failed
    one changes nothing of it, and the events are the difference.
  \<^item> \<open>Bolt_Reconcile\<close> (\<open>reconcile_bolt.go\<close>): the same for the out-of-core run.
  \<^item> \<open>Integrity_Scrub\<close> (\<open>integrity.go\<close>): a scrub checks every regular file once and writes no snapshot.
  \<^item> \<open>Snapshot_Types\<close>: a tracker stays well typed over every sequence of runs and scrubs.
  \<^item> \<open>Command_Line\<close> (\<open>cmd/fsrecon/main.go\<close>): the composition of all of these, up to the lines printed.

  \<^bold>\<open>Goroutines.\<close>
  \<^item> \<open>Debounce\<close>, \<open>Fsnotify_Backend\<close>: the timer and the pump of native events, each as a step relation.
  \<^item> \<open>Tracker_Frame\<close>: what a run keeps of the tracker. Its locale \<open>reconciler\<close> is interpreted for the
    generic run (\<open>generic_run\<close>) and for that on bbolt (\<open>bolt_run\<close>).
  \<^item> \<open>Tracker_Loop\<close>, \<open>Tracker_Hints\<close>: \<open>Start\<close>, the event loop, the worker and \<open>Close\<close> as the transition
    system \<open>tr_step\<close>; its invariant, that no hint is lost, and that each event reaches a run.
  \<^item> \<open>Observer_Queue\<close>, \<open>Observer_Run\<close>: the observer, likewise; bounds of its queue, delivery of hints,
    that the watches equal the directories after \<open>Start\<close> and \<open>resync\<close>, and that \<open>Close\<close> ends.

  \<^bold>\<open>Decisions of the model.\<close>
  \<^item> Counters are 64-bit words, generations included; times and durations are integers of nanoseconds.
    An enumeration on \<open>uint8\<close> has a constructor for the undeclared values.
  \<^item> A Go map is an association list with distinct keys. Its order is the iteration order, and the
    statements hold for every such list.
  \<^item> A context is a function that answers the polls of one use; each use has its own, so that a
    cancellation can fall between any two polls. Clocks are functions of the environment.
  \<^item> Sinks, backends, stores, expected-state providers and integrity checkers are records of functions on
    a state of their own (type parameters). bbolt, the JSON text, the fsnotify library, the hash function
    and system calls are parameters; what is documented of them is stated as a hypothesis where it is needed.
  \<^item> A run under \<open>reconcileMu\<close> is one function. In the transition systems a handler of a goroutine is one
    step, except that \<open>addDirty\<close>, which releases its lock in between, is two, and \<open>Start\<close> several.
  \<^item> The file system that a scan reads is a record of the answers to its calls, fixed for one scan. The
    separate \<open>Lstat\<close> of a scope before its scan has its own answer, and the answers to \<open>Open\<close> and
    \<open>Lstat\<close> of one path need not agree, which is how vanishing entries appear.

  \<^bold>\<open>Fuel.\<close> The walks of the scanner and of the observer recurse on the tree with fuel; \<open>None\<close> means that it
  ran out. \<open>scan_returns\<close> and \<open>collect_returns\<close> prove that any fuel above the depth of the tree (or,
  when links are followed, above the number of directory identities) gives a result. The other loops are
  structural or have a measure.

  \<^bold>\<open>Not modelled.\<close> \<open>examples/\<close> (programs that only call the library and print), \<open>doc.go\<close> and \<open>version.go\<close>
  (a comment and a constant), signal delivery (the case \<open>RecvDone\<close> of the command line), the paths of
  Windows (its file identity is modelled), the memory model below locks and channels, and the
  contents of temporary files after a crash.
\<close>

end
